(* ===== verification/Slc_Prelude.thy ===== *)
theory Slc_Prelude
  imports Main "HOL-Library.Word" "HOL-Library.AList" "HOL-Library.Monad_Syntax"
    "HOL-Library.List_Lexorder" "HOL-Library.Multiset"
begin

text \<open>
  The shared vocabulary of the development: the machine integers of the Rust sources, the
  byte-string encodings (\<^verbatim>\<open>to_be_bytes\<close>, byte-string literals), the standard library's
  hash map as an association list with an explicit iteration order, the outcome of a fallible
  or panicking operation, and the generic lemmas the component theories use.

  \<^item> An unsigned integer of the sources is a \<^verbatim>\<open>word\<close> of its width, so that \<open>+\<close> wraps as
    the release profile of \<^verbatim>\<open>Cargo.toml\<close> does; a \<^verbatim>\<open>usize\<close> that only counts elements in
    memory is a \<open>nat\<close>.
  \<^item> A \<^verbatim>\<open>Result<T, E>\<close> is the sum type \<open>'e + 't\<close>; an operation that can panic (an
    \<^verbatim>\<open>assert!\<close>, an \<^verbatim>\<open>expect\<close>, an index out of range) returns an \<open>option\<close> whose
    \<open>None\<close> is the panic.
\<close>

section \<open>Machine integers and byte strings\<close>

type_synonym byte = "8 word"
type_synonym u32 = "32 word"
type_synonym u64 = "64 word"

text \<open>\<^verbatim>\<open>to_be_bytes\<close> of an \<open>n\<close>-byte unsigned integer: the most significant byte first.\<close>

definition to_be_bytes :: "nat \<Rightarrow> 'a::len word \<Rightarrow> byte list" where
  "to_be_bytes n w = map (\<lambda>i. ucast (drop_bit (8 * i) w)) (rev [0..<n])"

abbreviation u64_be :: "u64 \<Rightarrow> byte list" where
  "u64_be \<equiv> to_be_bytes 8"

abbreviation u32_be :: "u32 \<Rightarrow> byte list" where
  "u32_be \<equiv> to_be_bytes 4"

text \<open>A byte-string literal \<^verbatim>\<open>b"..."\<close>, and \<^verbatim>\<open>len() as u32\<close>, which truncates.\<close>

definition ascii :: "string \<Rightarrow> byte list" where
  "ascii s = map (\<lambda>c. of_char c) s"

definition len_as_u32 :: "'a list \<Rightarrow> u32" where
  "len_as_u32 xs = of_nat (length xs)"

section \<open>Hash maps\<close>

text \<open>
  \<^verbatim>\<open>std::collections::HashMap\<close>: an association list with distinct keys. \<^verbatim>\<open>insert\<close>
  overwrites, \<^verbatim>\<open>entry(k).or_insert(v)\<close> keeps what is there, and iteration visits the
  entries in an unspecified order, which the parameter \<open>ord\<close> (a rearrangement of the keys)
  stands for.
\<close>

type_synonym ('k, 'v) hashmap = "('k \<times> 'v) list"

definition hm_get :: "('k, 'v) hashmap \<Rightarrow> 'k \<Rightarrow> 'v option" where
  "hm_get m k = map_of m k"

definition hm_insert :: "'k \<Rightarrow> 'v \<Rightarrow> ('k, 'v) hashmap \<Rightarrow> ('k, 'v) hashmap" where
  "hm_insert k v m = AList.update k v m"

definition hm_or_insert :: "'k \<Rightarrow> 'v \<Rightarrow> ('k, 'v) hashmap \<Rightarrow> ('k, 'v) hashmap" where
  "hm_or_insert k v m = (case map_of m k of Some _ \<Rightarrow> m | None \<Rightarrow> AList.update k v m)"

definition hm_keys :: "('k, 'v) hashmap \<Rightarrow> 'k list" where
  "hm_keys m = map fst m"

definition hm_values :: "('k, 'v) hashmap \<Rightarrow> 'v list" where
  "hm_values m = map snd m"

definition hm_iter :: "('k list \<Rightarrow> 'k list) \<Rightarrow> ('k, 'v) hashmap \<Rightarrow> ('k \<times> 'v) list" where
  "hm_iter ord m = map (\<lambda>k. (k, the (map_of m k))) (ord (map fst m))"

definition hm_wf :: "('k, 'v) hashmap \<Rightarrow> bool" where
  "hm_wf m \<longleftrightarrow> distinct (map fst m)"

definition reorders :: "('k list \<Rightarrow> 'k list) \<Rightarrow> bool" where
  "reorders ord \<longleftrightarrow> (\<forall>ks. mset (ord ks) = mset ks)"

section \<open>Collections of rewrite rules\<close>

named_theorems len_simps \<open>lengths of the fixed-width encodings\<close>
named_theorems hm_simps \<open>what a hash map holds after an operation\<close>

section \<open>Lemmas on encodings\<close>

lemma length_to_be_bytes [simp, len_simps]: "length (to_be_bytes n w) = n"
  by (simp add: to_be_bytes_def)

lemma length_ascii [simp, len_simps]: "length (ascii s) = length s"
  by (simp add: ascii_def)

lemma to_be_bytes_eqD:
  fixes a b :: "'a::len word"
  assumes eq: "to_be_bytes n a = to_be_bytes n b" and width: "LENGTH('a) \<le> 8 * n"
  shows "a = b"
proof (rule bit_word_eqI)
  fix i assume i: "i < LENGTH('a)"
  define k j where "k = i div 8" and "j = i mod 8"
  have split: "i = 8 * k + j" "j < 8" and k: "k < n"
    using i width by (auto simp: k_def j_def)
  from eq have "\<forall>k\<in>set (rev [0..<n]). (ucast (drop_bit (8 * k) a) :: byte) = ucast (drop_bit (8 * k) b)"
    unfolding to_be_bytes_def by (simp only: map_eq_conv)
  with k have "bit (ucast (drop_bit (8 * k) a) :: byte) j = bit (ucast (drop_bit (8 * k) b) :: byte) j"
    by simp
  with split show "bit a i = bit b i"
    by (simp add: bit_ucast_iff bit_drop_bit_eq)
qed

lemma u64_be_inject [simp]: "u64_be a = u64_be b \<longleftrightarrow> a = b"
  using to_be_bytes_eqD [of 8 a b] by auto

lemma u32_be_inject [simp]: "u32_be a = u32_be b \<longleftrightarrow> a = b"
  using to_be_bytes_eqD [of 4 a b] by auto

text \<open>Counters that have room do not wrap.\<close>

lemma unat_plus_one:
  fixes r :: "'a::len word"
  assumes "r \<noteq> - 1"
  shows "unat (r + 1) = Suc (unat r)"
proof -
  have "1 + r \<noteq> 0" using assms by (metis add_eq_0_iff)
  then show ?thesis by (metis unatSuc add.commute)
qed

lemma word_less_plus_one: "(r :: 'a::len word) \<noteq> - 1 \<Longrightarrow> r < r + 1"
  by (simp add: word_less_nat_alt unat_plus_one)

lemma unat_plus_one_below:
  fixes a b :: "'a::len word"
  assumes "a < b"
  shows "unat (a + 1) = Suc (unat a)" and "a + 1 \<le> b"
proof -
  have "a \<noteq> - 1" using assms word_order.extremum_strict by blast
  then show "unat (a + 1) = Suc (unat a)" by (rule unat_plus_one)
  with assms show "a + 1 \<le> b" by (simp add: word_less_nat_alt word_le_nat_alt)
qed

lemma append_eq_by_length: "length a = length c \<Longrightarrow> a @ b = c @ d \<longleftrightarrow> a = c \<and> b = d"
  by simp

text \<open>Fixed-width chunks determine the list they are cut from.\<close>

lemma concat_chunks_inject:
  assumes "concat (map f xs) = concat (map f ys)"
    and "length xs = length ys"
    and "\<And>x. x \<in> set xs \<union> set ys \<Longrightarrow> length (f x) = w"
    and "inj_on f (set xs \<union> set ys)"
  shows "xs = ys"
  using assms
proof (induction xs arbitrary: ys)
  case Nil
  then show ?case by simp
next
  case (Cons x xs)
  then obtain y zs where ys: "ys = y # zs" by (cases ys) auto
  have "length (f x) = length (f y)" using Cons.prems(3) ys by simp
  with Cons.prems(1) ys have heads: "f x = f y" and tails: "concat (map f xs) = concat (map f zs)"
    by auto
  from heads Cons.prems(4) ys have "x = y" by (simp add: inj_on_eq_iff)
  moreover have "xs = zs"
  proof (rule Cons.IH [OF tails])
    show "length xs = length zs" using Cons.prems(2) ys by simp
    show "\<And>z. z \<in> set xs \<union> set zs \<Longrightarrow> length (f z) = w" using Cons.prems(3) ys by auto
    show "inj_on f (set xs \<union> set zs)" using Cons.prems(4) ys by (auto intro: inj_on_subset)
  qed
  ultimately show ?case using ys by simp
qed

section \<open>Lemmas on hash maps\<close>

lemma hm_get_Nil [simp]: "hm_get [] k = None"
  by (simp add: hm_get_def)

lemma hm_get_insert [simp, hm_simps]: "hm_get (hm_insert k v m) k' = (if k' = k then Some v else hm_get m k')"
  by (simp add: hm_get_def hm_insert_def update_conv')

lemma hm_get_or_insert [hm_simps]:
  "hm_get (hm_or_insert k v m) k' = (if k' = k \<and> hm_get m k = None then Some v else hm_get m k')"
  by (auto simp: hm_get_def hm_or_insert_def update_conv' split: option.splits)

lemma hm_wf_Nil [simp]: "hm_wf []"
  by (simp add: hm_wf_def)

lemma hm_wf_insert [simp]: "hm_wf m \<Longrightarrow> hm_wf (hm_insert k v m)"
  by (simp add: hm_wf_def hm_insert_def distinct_update)

lemma hm_wf_or_insert [simp]: "hm_wf m \<Longrightarrow> hm_wf (hm_or_insert k v m)"
  by (simp add: hm_wf_def hm_or_insert_def distinct_update split: option.splits)

lemma hm_get_mem: "hm_get m k = Some v \<Longrightarrow> (k, v) \<in> set m"
  by (simp add: hm_get_def map_of_SomeD)

lemma hm_mem_get: "hm_wf m \<Longrightarrow> (k, v) \<in> set m \<longleftrightarrow> hm_get m k = Some v"
  by (simp add: hm_get_def hm_wf_def)

lemma set_hm_insert: "hm_wf m \<Longrightarrow> set (hm_insert k v m) = {(k', v') \<in> set m. k' \<noteq> k} \<union> {(k, v)}"
  by (auto simp: hm_mem_get split: if_splits)

lemma set_hm_keys_insert [simp, hm_simps]: "set (hm_keys (hm_insert k v m)) = insert k (set (hm_keys m))"
  by (auto simp: hm_keys_def hm_insert_def dom_update)

lemma hm_keys_get: "k \<in> set (hm_keys m) \<longleftrightarrow> hm_get m k \<noteq> None"
  by (metis hm_get_def hm_keys_def list.set_map map_of_eq_None_iff)

lemma set_hm_iter: "reorders ord \<Longrightarrow> hm_wf m \<Longrightarrow> set (hm_iter ord m) = set m"
  by (force simp: hm_iter_def reorders_def hm_wf_def dest: mset_eq_setD)

lemma distinct_hm_iter: "reorders ord \<Longrightarrow> hm_wf m \<Longrightarrow> distinct (map fst (hm_iter ord m))"
  by (simp add: hm_iter_def hm_wf_def reorders_def comp_def) (metis mset_eq_imp_distinct_iff)

lemma length_filter_hm_iter:
  assumes "reorders ord" and "hm_wf m"
  shows "length (filter p (hm_iter ord m)) = length (filter p m)"
proof -
  have "distinct (hm_iter ord m)" and "distinct m"
    using assms distinct_hm_iter [OF assms] by (auto simp: hm_wf_def distinct_map)
  then have "mset (hm_iter ord m) = mset m"
    using assms by (simp add: set_eq_iff_mset_eq_distinct [symmetric] set_hm_iter)
  then show ?thesis by (metis mset_filter size_mset)
qed

end
