(* ===== verification/Slc_Crypto.thy ===== *)
theory Slc_Crypto
  imports Slc_Prelude
begin

text \<open>
  The crate \<^verbatim>\<open>slc-crypto\<close>: SHA3-256 digests (\<^verbatim>\<open>hash.rs\<close>), ML-DSA-65 keys and signatures
  (\<^verbatim>\<open>keys.rs\<close>), SLH-DSA keys and signatures (\<^verbatim>\<open>slh.rs\<close>) and the signing contexts
  (\<^verbatim>\<open>lib.rs\<close>). The primitives themselves come from the crates \<^verbatim>\<open>sha3\<close>,
  \<^verbatim>\<open>fips204\<close>, \<^verbatim>\<open>fips205\<close> and \<^verbatim>\<open>hex\<close> and are the fields of the record \<open>prims\<close>,
  an argument of every definition that uses them. What the program relies on of them are the
  named predicates \<open>sha3_width\<close>, \<open>hex_inverse\<close>, \<open>mldsa_correct\<close>, \<open>slh_correct\<close>,
  \<open>collision_free\<close>.

  A key is modelled by its serialised bytes: \<^verbatim>\<open>PartialEq\<close> of \<^verbatim>\<open>VerifyingKey\<close> and
  \<^verbatim>\<open>SlhVerifyingKey\<close> compares exactly those.
\<close>

section \<open>The primitives\<close>

datatype Hash = Hash (as_bytes: "byte list")

text \<open>
  \<open>iter_rounds\<close> and \<open>iter_ids\<close> are the iteration orders of the hash maps keyed by round
  numbers and by validator ids.
\<close>

record prims =
  sha3_256 :: "byte list \<Rightarrow> byte list"
  hex_encode :: "byte list \<Rightarrow> string"
  hex_decode :: "string \<Rightarrow> byte list option"
  mldsa_try_keygen :: "byte list \<Rightarrow> (byte list \<times> byte list) option"
  mldsa_try_sign :: "byte list \<Rightarrow> byte list \<Rightarrow> byte list \<Rightarrow> byte list option"
  mldsa_verify :: "byte list \<Rightarrow> byte list \<Rightarrow> byte list \<Rightarrow> byte list \<Rightarrow> bool"
  mldsa_sk_ok :: "byte list \<Rightarrow> bool"
  mldsa_pk_ok :: "byte list \<Rightarrow> bool"
  slh_try_keygen :: "byte list \<Rightarrow> (byte list \<times> byte list) option"
  slh_try_sign :: "byte list \<Rightarrow> byte list \<Rightarrow> byte list \<Rightarrow> byte list option"
  slh_verify :: "byte list \<Rightarrow> byte list \<Rightarrow> byte list \<Rightarrow> byte list \<Rightarrow> bool"
  slh_sk_ok :: "byte list \<Rightarrow> bool"
  slh_pk_ok :: "byte list \<Rightarrow> bool"
  iter_rounds :: "u64 list \<Rightarrow> u64 list"
  iter_ids :: "Hash list \<Rightarrow> Hash list"

datatype CryptoError = KeyGen | Sign | Encoding

section \<open>Digests\<close>

definition HASH_LEN :: nat where
  "HASH_LEN = 32"

definition digest :: "prims \<Rightarrow> byte list \<Rightarrow> Hash" where
  "digest P data = Hash (sha3_256 P data)"

definition zero_hash :: Hash where
  "zero_hash = Hash (replicate 32 0)"

definition hash_to_hex :: "prims \<Rightarrow> Hash \<Rightarrow> string" where
  "hash_to_hex P h = hex_encode P (as_bytes h)"

definition hash_from_hex :: "prims \<Rightarrow> string \<Rightarrow> CryptoError + Hash" where
  "hash_from_hex P s =
     (case hex_decode P s of
        None \<Rightarrow> Inl Encoding
      | Some raw \<Rightarrow> if length raw = HASH_LEN then Inr (Hash raw) else Inl Encoding)"

text \<open>\<^verbatim>\<open>derive(PartialOrd, Ord)\<close> on the array: lexicographic order of the bytes.\<close>

instantiation Hash :: linorder
begin

definition less_eq_Hash :: "Hash \<Rightarrow> Hash \<Rightarrow> bool" where
  "less_eq_Hash a b \<longleftrightarrow> as_bytes a \<le> as_bytes b"

definition less_Hash :: "Hash \<Rightarrow> Hash \<Rightarrow> bool" where
  "less_Hash a b \<longleftrightarrow> as_bytes a < as_bytes b"

instance
  by standard (auto simp: less_eq_Hash_def less_Hash_def Hash.expand)

end

section \<open>ML-DSA-65 identities\<close>

definition PUBKEY_LEN :: nat where
  "PUBKEY_LEN = 1952"

definition SECKEY_LEN :: nat where
  "SECKEY_LEN = 4032"

definition SIG_LEN :: nat where
  "SIG_LEN = 3309"

datatype SigningKey = SigningKey (sk_bytes: "byte list")
datatype VerifyingKey = VerifyingKey (vk_bytes: "byte list")
datatype Signature = Signature (sig_bytes: "byte list")

definition sk_generate :: "prims \<Rightarrow> byte list \<Rightarrow> CryptoError + (SigningKey \<times> VerifyingKey)" where
  "sk_generate P seed =
     (case mldsa_try_keygen P seed of
        None \<Rightarrow> Inl KeyGen
      | Some (pk, sk) \<Rightarrow> Inr (SigningKey sk, VerifyingKey pk))"

definition sk_from_bytes :: "prims \<Rightarrow> byte list \<Rightarrow> CryptoError + SigningKey" where
  "sk_from_bytes P bytes =
     (if length bytes \<noteq> SECKEY_LEN then Inl Encoding
      else if mldsa_sk_ok P bytes then Inr (SigningKey bytes) else Inl Encoding)"

definition sk_sign :: "prims \<Rightarrow> SigningKey \<Rightarrow> byte list \<Rightarrow> byte list \<Rightarrow> CryptoError + Signature" where
  "sk_sign P sk message ctx =
     (case mldsa_try_sign P (sk_bytes sk) message ctx of
        None \<Rightarrow> Inl Sign
      | Some raw \<Rightarrow> Inr (Signature raw))"

definition vk_verify :: "prims \<Rightarrow> VerifyingKey \<Rightarrow> byte list \<Rightarrow> Signature \<Rightarrow> byte list \<Rightarrow> bool" where
  "vk_verify P vk message sig ctx = mldsa_verify P (vk_bytes vk) message (sig_bytes sig) ctx"

definition vk_from_bytes :: "prims \<Rightarrow> byte list \<Rightarrow> CryptoError + VerifyingKey" where
  "vk_from_bytes P bytes =
     (if length bytes \<noteq> PUBKEY_LEN then Inl Encoding
      else if mldsa_pk_ok P bytes then Inr (VerifyingKey bytes) else Inl Encoding)"

definition vk_to_hex :: "prims \<Rightarrow> VerifyingKey \<Rightarrow> string" where
  "vk_to_hex P vk = hex_encode P (vk_bytes vk)"

definition vk_from_hex :: "prims \<Rightarrow> string \<Rightarrow> CryptoError + VerifyingKey" where
  "vk_from_hex P s =
     (case hex_decode P s of None \<Rightarrow> Inl Encoding | Some raw \<Rightarrow> vk_from_bytes P raw)"

definition vk_id :: "prims \<Rightarrow> VerifyingKey \<Rightarrow> Hash" where
  "vk_id P vk = digest P (vk_bytes vk)"

definition sig_from_bytes :: "byte list \<Rightarrow> CryptoError + Signature" where
  "sig_from_bytes bytes = (if length bytes = SIG_LEN then Inr (Signature bytes) else Inl Encoding)"

definition sig_to_hex :: "prims \<Rightarrow> Signature \<Rightarrow> string" where
  "sig_to_hex P s = hex_encode P (sig_bytes s)"

definition sig_from_hex :: "prims \<Rightarrow> string \<Rightarrow> CryptoError + Signature" where
  "sig_from_hex P s =
     (case hex_decode P s of None \<Rightarrow> Inl Encoding | Some raw \<Rightarrow> sig_from_bytes raw)"

section \<open>SLH-DSA identities\<close>

definition SLH_PUBKEY_LEN :: nat where
  "SLH_PUBKEY_LEN = 32"

definition SLH_SECKEY_LEN :: nat where
  "SLH_SECKEY_LEN = 64"

definition SLH_SIG_LEN :: nat where
  "SLH_SIG_LEN = 7856"

datatype SlhSigningKey = SlhSigningKey (slh_sk_bytes: "byte list")
datatype SlhVerifyingKey = SlhVerifyingKey (slh_vk_bytes: "byte list")
datatype SlhSignature = SlhSignature (slh_sig_bytes: "byte list")

definition slh_generate :: "prims \<Rightarrow> byte list \<Rightarrow> CryptoError + (SlhSigningKey \<times> SlhVerifyingKey)" where
  "slh_generate P seed =
     (case slh_try_keygen P seed of
        None \<Rightarrow> Inl KeyGen
      | Some (pk, sk) \<Rightarrow> Inr (SlhSigningKey sk, SlhVerifyingKey pk))"

definition slh_sk_from_bytes :: "prims \<Rightarrow> byte list \<Rightarrow> CryptoError + SlhSigningKey" where
  "slh_sk_from_bytes P bytes =
     (if length bytes \<noteq> SLH_SECKEY_LEN then Inl Encoding
      else if slh_sk_ok P bytes then Inr (SlhSigningKey bytes) else Inl Encoding)"

definition slh_sign :: "prims \<Rightarrow> SlhSigningKey \<Rightarrow> byte list \<Rightarrow> byte list \<Rightarrow> CryptoError + SlhSignature" where
  "slh_sign P sk message ctx =
     (case slh_try_sign P (slh_sk_bytes sk) message ctx of
        None \<Rightarrow> Inl Sign
      | Some raw \<Rightarrow> Inr (SlhSignature raw))"

definition slh_vk_verify :: "prims \<Rightarrow> SlhVerifyingKey \<Rightarrow> byte list \<Rightarrow> SlhSignature \<Rightarrow> byte list \<Rightarrow> bool" where
  "slh_vk_verify P vk message sig ctx =
     slh_verify P (slh_vk_bytes vk) message (slh_sig_bytes sig) ctx"

definition slh_vk_from_bytes :: "prims \<Rightarrow> byte list \<Rightarrow> CryptoError + SlhVerifyingKey" where
  "slh_vk_from_bytes P bytes =
     (if length bytes \<noteq> SLH_PUBKEY_LEN then Inl Encoding
      else if slh_pk_ok P bytes then Inr (SlhVerifyingKey bytes) else Inl Encoding)"

definition slh_vk_to_hex :: "prims \<Rightarrow> SlhVerifyingKey \<Rightarrow> string" where
  "slh_vk_to_hex P vk = hex_encode P (slh_vk_bytes vk)"

definition slh_vk_from_hex :: "prims \<Rightarrow> string \<Rightarrow> CryptoError + SlhVerifyingKey" where
  "slh_vk_from_hex P s =
     (case hex_decode P s of None \<Rightarrow> Inl Encoding | Some raw \<Rightarrow> slh_vk_from_bytes P raw)"

definition slh_sig_from_bytes :: "byte list \<Rightarrow> CryptoError + SlhSignature" where
  "slh_sig_from_bytes bytes =
     (if length bytes = SLH_SIG_LEN then Inr (SlhSignature bytes) else Inl Encoding)"

definition slh_sig_to_hex :: "prims \<Rightarrow> SlhSignature \<Rightarrow> string" where
  "slh_sig_to_hex P s = hex_encode P (slh_sig_bytes s)"

definition slh_sig_from_hex :: "prims \<Rightarrow> string \<Rightarrow> CryptoError + SlhSignature" where
  "slh_sig_from_hex P s =
     (case hex_decode P s of None \<Rightarrow> Inl Encoding | Some raw \<Rightarrow> slh_sig_from_bytes raw)"

section \<open>Signing contexts\<close>

definition ctx_ATTESTATION :: "byte list" where
  "ctx_ATTESTATION = ascii ''SLC-attestation-v1''"

definition ctx_BLOCK :: "byte list" where
  "ctx_BLOCK = ascii ''SLC-block-v1''"

definition ctx_PROPOSAL :: "byte list" where
  "ctx_PROPOSAL = ascii ''SLC-proposal-v1''"

definition ctx_VOTE :: "byte list" where
  "ctx_VOTE = ascii ''SLC-vote-v1''"

definition ctx_GOVERNANCE :: "byte list" where
  "ctx_GOVERNANCE = ascii ''SLC-governance-v1''"

definition ctx_LICENSE :: "byte list" where
  "ctx_LICENSE = ascii ''SLC-license-v1''"

section \<open>What the program relies on of the primitives\<close>

definition sha3_width :: "prims \<Rightarrow> bool" where
  "sha3_width P \<longleftrightarrow> (\<forall>data. length (sha3_256 P data) = 32)"

definition hex_inverse :: "prims \<Rightarrow> bool" where
  "hex_inverse P \<longleftrightarrow> (\<forall>bs. hex_decode P (hex_encode P bs) = Some bs)"

definition mldsa_correct :: "prims \<Rightarrow> SigningKey \<Rightarrow> VerifyingKey \<Rightarrow> bool" where
  "mldsa_correct P sk pk \<longleftrightarrow>
     (\<forall>m c s. mldsa_try_sign P (sk_bytes sk) m c = Some s \<longrightarrow> mldsa_verify P (vk_bytes pk) m s c)"

definition slh_correct :: "prims \<Rightarrow> SlhSigningKey \<Rightarrow> SlhVerifyingKey \<Rightarrow> bool" where
  "slh_correct P sk pk \<longleftrightarrow>
     (\<forall>m c s. slh_try_sign P (slh_sk_bytes sk) m c = Some s \<longrightarrow> slh_verify P (slh_vk_bytes pk) m s c)"

text \<open>No two of the inputs in \<open>S\<close> have the same digest.\<close>

definition collision_free :: "prims \<Rightarrow> byte list set \<Rightarrow> bool" where
  "collision_free P S \<longleftrightarrow> inj_on (sha3_256 P) S"

definition iter_ok :: "prims \<Rightarrow> bool" where
  "iter_ok P \<longleftrightarrow> reorders (iter_rounds P) \<and> reorders (iter_ids P)"

section \<open>Lemmas\<close>

lemma digest_inject: "collision_free P S \<Longrightarrow> x \<in> S \<Longrightarrow> y \<in> S \<Longrightarrow> digest P x = digest P y \<longleftrightarrow> x = y"
  by (auto simp: collision_free_def digest_def dest: inj_onD)

lemma collision_free_subset: "collision_free P S \<Longrightarrow> T \<subseteq> S \<Longrightarrow> collision_free P T"
  by (auto simp: collision_free_def intro: inj_on_subset)

lemma length_digest [simp, len_simps]: "sha3_width P \<Longrightarrow> length (as_bytes (digest P x)) = 32"
  by (simp add: digest_def sha3_width_def)

lemma as_bytes_inject [simp]: "as_bytes a = as_bytes b \<longleftrightarrow> a = b"
  by (auto intro: Hash.expand)

lemma vk_bytes_inject [simp]: "vk_bytes a = vk_bytes b \<longleftrightarrow> a = b"
  by (auto intro: VerifyingKey.expand)

lemma sig_bytes_inject [simp]: "sig_bytes a = sig_bytes b \<longleftrightarrow> a = b"
  by (auto intro: Signature.expand)

lemma sk_sign_verifies:
  "mldsa_correct P sk pk \<Longrightarrow> sk_sign P sk m c = Inr s \<Longrightarrow> vk_verify P pk m s c"
  by (auto simp: mldsa_correct_def sk_sign_def vk_verify_def split: option.splits)

lemma slh_sign_verifies:
  "slh_correct P sk pk \<Longrightarrow> slh_sign P sk m c = Inr s \<Longrightarrow> slh_vk_verify P pk m s c"
  by (auto simp: slh_correct_def slh_sign_def slh_vk_verify_def split: option.splits)

section \<open>The text codec shared by digests, keys and signatures\<close>

text \<open>
  Every fixed-width object travels as a hex string: \<open>enc\<close> prints it, \<open>dec\<close> reads it back
  or fails with the one coarse error, \<open>ok\<close> are the values of the right width. What the
  serialised objects rely on is proved once here.
\<close>

locale hex_codec =
  fixes enc :: "'a \<Rightarrow> string"
    and dec :: "string \<Rightarrow> CryptoError + 'a"
    and ok :: "'a \<Rightarrow> bool"
  assumes dec_enc: "ok x \<Longrightarrow> dec (enc x) = Inr x"
    and dec_error: "dec s = Inl e \<Longrightarrow> e = Encoding"
begin

lemma enc_inject: "ok x \<Longrightarrow> ok y \<Longrightarrow> enc x = enc y \<longleftrightarrow> x = y"
  by (metis dec_enc sum.inject(2))

lemma dec_total: "dec s = Inl Encoding \<or> (\<exists>x. dec s = Inr x)"
  by (cases "dec s") (auto dest: dec_error)

lemma map_dec_enc: "(\<And>x. x \<in> set xs \<Longrightarrow> ok x) \<Longrightarrow> map (dec \<circ> enc) xs = map Inr xs"
  by (simp add: dec_enc)

end

interpretation hash_hex: hex_codec "hash_to_hex P" "hash_from_hex P"
  "\<lambda>h. hex_inverse P \<and> length (as_bytes h) = HASH_LEN" for P
  by unfold_locales
    (auto simp: hash_to_hex_def hash_from_hex_def hex_inverse_def split: option.splits if_splits)

interpretation vk_hex: hex_codec "vk_to_hex P" "vk_from_hex P"
  "\<lambda>k. hex_inverse P \<and> length (vk_bytes k) = PUBKEY_LEN \<and> mldsa_pk_ok P (vk_bytes k)" for P
  by unfold_locales
    (auto simp: vk_to_hex_def vk_from_hex_def vk_from_bytes_def hex_inverse_def
      split: option.splits if_splits)

interpretation sig_hex: hex_codec "sig_to_hex P" "sig_from_hex P"
  "\<lambda>s. hex_inverse P \<and> length (sig_bytes s) = SIG_LEN" for P
  by unfold_locales
    (auto simp: sig_to_hex_def sig_from_hex_def sig_from_bytes_def hex_inverse_def
      split: option.splits if_splits)

interpretation slh_vk_hex: hex_codec "slh_vk_to_hex P" "slh_vk_from_hex P"
  "\<lambda>k. hex_inverse P \<and> length (slh_vk_bytes k) = SLH_PUBKEY_LEN \<and> slh_pk_ok P (slh_vk_bytes k)" for P
  by unfold_locales
    (auto simp: slh_vk_to_hex_def slh_vk_from_hex_def slh_vk_from_bytes_def hex_inverse_def
      split: option.splits if_splits)

interpretation slh_sig_hex: hex_codec "slh_sig_to_hex P" "slh_sig_from_hex P"
  "\<lambda>s. hex_inverse P \<and> length (slh_sig_bytes s) = SLH_SIG_LEN" for P
  by unfold_locales
    (auto simp: slh_sig_to_hex_def slh_sig_from_hex_def slh_sig_from_bytes_def hex_inverse_def
      split: option.splits if_splits)

end
