(* ===== verification/Text_Forms.thy ===== *)
theory Text_Forms
  imports Slc_Crypto
begin

text \<open>
  How digests, keys and signatures travel inside messages and files: the hand-written \<^verbatim>\<open>Serialize\<close> and
  \<^verbatim>\<open>Deserialize\<close> implementations of \<^verbatim>\<open>crypto/src\<close>, their equality and their debug texts. The format
  (JSON in the program) is a parameter: how it writes and reads a string, and how it wraps an error
  of the value.
\<close>

section \<open>Bytes and equality\<close>

definition sk_to_bytes :: "SigningKey \<Rightarrow> byte list" where
  "sk_to_bytes k = sk_bytes k"

definition vk_to_bytes :: "VerifyingKey \<Rightarrow> byte list" where
  "vk_to_bytes k = vk_bytes k"

definition sig_to_bytes :: "Signature \<Rightarrow> byte list" where
  "sig_to_bytes s = sig_bytes s"

definition slh_sk_to_bytes :: "SlhSigningKey \<Rightarrow> byte list" where
  "slh_sk_to_bytes k = slh_sk_bytes k"

definition slh_vk_to_bytes :: "SlhVerifyingKey \<Rightarrow> byte list" where
  "slh_vk_to_bytes k = slh_vk_bytes k"

definition slh_sig_to_bytes :: "SlhSignature \<Rightarrow> byte list" where
  "slh_sig_to_bytes s = slh_sig_bytes s"

definition vk_eq :: "VerifyingKey \<Rightarrow> VerifyingKey \<Rightarrow> bool" where
  "vk_eq a b \<longleftrightarrow> vk_to_bytes a = vk_to_bytes b"

definition sig_eq :: "Signature \<Rightarrow> Signature \<Rightarrow> bool" where
  "sig_eq a b \<longleftrightarrow> sig_bytes a = sig_bytes b"

definition slh_vk_eq :: "SlhVerifyingKey \<Rightarrow> SlhVerifyingKey \<Rightarrow> bool" where
  "slh_vk_eq a b \<longleftrightarrow> slh_vk_to_bytes a = slh_vk_to_bytes b"

definition slh_sig_eq :: "SlhSignature \<Rightarrow> SlhSignature \<Rightarrow> bool" where
  "slh_sig_eq a b \<longleftrightarrow> slh_sig_bytes a = slh_sig_bytes b"

section \<open>Serialization\<close>

type_synonym ('e, 'o) write_str = "string \<Rightarrow> 'e + 'o"
type_synonym ('d, 'e) read_str = "'d \<Rightarrow> 'e + string"

text \<open>\<^verbatim>\<open>String::deserialize(d)?\<close>, then \<^verbatim>\<open>from_hex(&s).map_err(custom)\<close>.\<close>

definition read_hex ::
  "(string \<Rightarrow> CryptoError + 'a) \<Rightarrow> ('d, 'e) read_str \<Rightarrow> (CryptoError \<Rightarrow> 'e) \<Rightarrow> 'd \<Rightarrow> 'e + 'a" where
  "read_hex dec de_str custom d =
     (case de_str d of
        Inl e \<Rightarrow> Inl e
      | Inr s \<Rightarrow> (case dec s of Inl err \<Rightarrow> Inl (custom err) | Inr x \<Rightarrow> Inr x))"

definition hash_serialize :: "prims \<Rightarrow> ('e, 'o) write_str \<Rightarrow> Hash \<Rightarrow> 'e + 'o" where
  "hash_serialize P ser_str h = ser_str (hash_to_hex P h)"

definition hash_deserialize :: "prims \<Rightarrow> ('d, 'e) read_str \<Rightarrow> (CryptoError \<Rightarrow> 'e) \<Rightarrow> 'd \<Rightarrow> 'e + Hash" where
  "hash_deserialize P = read_hex (hash_from_hex P)"

definition vk_serialize :: "prims \<Rightarrow> ('e, 'o) write_str \<Rightarrow> VerifyingKey \<Rightarrow> 'e + 'o" where
  "vk_serialize P ser_str k = ser_str (vk_to_hex P k)"

definition vk_deserialize :: "prims \<Rightarrow> ('d, 'e) read_str \<Rightarrow> (CryptoError \<Rightarrow> 'e) \<Rightarrow> 'd \<Rightarrow> 'e + VerifyingKey" where
  "vk_deserialize P = read_hex (vk_from_hex P)"

definition sig_serialize :: "prims \<Rightarrow> ('e, 'o) write_str \<Rightarrow> Signature \<Rightarrow> 'e + 'o" where
  "sig_serialize P ser_str s = ser_str (sig_to_hex P s)"

definition sig_deserialize :: "prims \<Rightarrow> ('d, 'e) read_str \<Rightarrow> (CryptoError \<Rightarrow> 'e) \<Rightarrow> 'd \<Rightarrow> 'e + Signature" where
  "sig_deserialize P = read_hex (sig_from_hex P)"

definition slh_vk_serialize :: "prims \<Rightarrow> ('e, 'o) write_str \<Rightarrow> SlhVerifyingKey \<Rightarrow> 'e + 'o" where
  "slh_vk_serialize P ser_str k = ser_str (slh_vk_to_hex P k)"

definition slh_vk_deserialize :: "prims \<Rightarrow> ('d, 'e) read_str \<Rightarrow> (CryptoError \<Rightarrow> 'e) \<Rightarrow> 'd \<Rightarrow> 'e + SlhVerifyingKey" where
  "slh_vk_deserialize P = read_hex (slh_vk_from_hex P)"

definition slh_sig_serialize :: "prims \<Rightarrow> ('e, 'o) write_str \<Rightarrow> SlhSignature \<Rightarrow> 'e + 'o" where
  "slh_sig_serialize P ser_str s = ser_str (slh_sig_to_hex P s)"

definition slh_sig_deserialize :: "prims \<Rightarrow> ('d, 'e) read_str \<Rightarrow> (CryptoError \<Rightarrow> 'e) \<Rightarrow> 'd \<Rightarrow> 'e + SlhSignature" where
  "slh_sig_deserialize P = read_hex (slh_sig_from_hex P)"

section \<open>Texts\<close>

text \<open>The ellipsis in UTF-8; slicing \<^verbatim>\<open>[..16]\<close> panics on a shorter text.\<close>

definition ellipsis :: string where
  "ellipsis = [char_of (0xE2 :: nat), char_of (0x80 :: nat), char_of (0xA6 :: nat)]"

definition slice16 :: "string \<Rightarrow> string option" where
  "slice16 s = (if 16 \<le> length s then Some (take 16 s) else None)"

definition hash_display :: "prims \<Rightarrow> Hash \<Rightarrow> string" where
  "hash_display P h = hash_to_hex P h"

definition hash_debug :: "prims \<Rightarrow> Hash \<Rightarrow> string" where
  "hash_debug P h = ''Hash('' @ hash_to_hex P h @ '')''"

definition vk_debug :: "prims \<Rightarrow> VerifyingKey \<Rightarrow> string" where
  "vk_debug P k = ''VerifyingKey('' @ hash_display P (vk_id P k) @ '')''"

definition sig_debug :: "prims \<Rightarrow> Signature \<Rightarrow> string option" where
  "sig_debug P s = map_option (\<lambda>t. ''Signature('' @ t @ ellipsis @ '')'') (slice16 (sig_to_hex P s))"

definition slh_vk_debug :: "prims \<Rightarrow> SlhVerifyingKey \<Rightarrow> string option" where
  "slh_vk_debug P k = map_option (\<lambda>t. ''SlhVerifyingKey('' @ t @ '')'') (slice16 (slh_vk_to_hex P k))"

definition slh_sig_debug :: "prims \<Rightarrow> SlhSignature \<Rightarrow> string option" where
  "slh_sig_debug P s = map_option (\<lambda>t. ''SlhSignature('' @ t @ ellipsis @ '')'') (slice16 (slh_sig_to_hex P s))"

section \<open>Facts\<close>

text \<open>The equality of the code is equality, so the model may compare keys and signatures with \<open>=\<close>.\<close>

lemma eq_is_equality:
  "vk_eq a b \<longleftrightarrow> a = b" "sig_eq s t \<longleftrightarrow> s = t" "slh_vk_eq u v \<longleftrightarrow> u = v" "slh_sig_eq x y \<longleftrightarrow> x = y"
  by (auto simp: vk_eq_def vk_to_bytes_def sig_eq_def slh_vk_eq_def slh_vk_to_bytes_def slh_sig_eq_def
      intro: SlhVerifyingKey.expand SlhSignature.expand)

lemma from_to_bytes:
  "length (sk_to_bytes sk) = SECKEY_LEN \<Longrightarrow> mldsa_sk_ok P (sk_to_bytes sk) \<Longrightarrow> sk_from_bytes P (sk_to_bytes sk) = Inr sk"
  "length (vk_to_bytes vk) = PUBKEY_LEN \<Longrightarrow> mldsa_pk_ok P (vk_to_bytes vk) \<Longrightarrow> vk_from_bytes P (vk_to_bytes vk) = Inr vk"
  "length (sig_to_bytes s) = SIG_LEN \<Longrightarrow> sig_from_bytes (sig_to_bytes s) = Inr s"
  "length (slh_sk_to_bytes ssk) = SLH_SECKEY_LEN \<Longrightarrow> slh_sk_ok P (slh_sk_to_bytes ssk) \<Longrightarrow>
     slh_sk_from_bytes P (slh_sk_to_bytes ssk) = Inr ssk"
  "length (slh_vk_to_bytes svk) = SLH_PUBKEY_LEN \<Longrightarrow> slh_pk_ok P (slh_vk_to_bytes svk) \<Longrightarrow>
     slh_vk_from_bytes P (slh_vk_to_bytes svk) = Inr svk"
  "length (slh_sig_to_bytes ss) = SLH_SIG_LEN \<Longrightarrow> slh_sig_from_bytes (slh_sig_to_bytes ss) = Inr ss"
  by (simp_all add: sk_from_bytes_def sk_to_bytes_def vk_from_bytes_def vk_to_bytes_def sig_from_bytes_def
      sig_to_bytes_def slh_sk_from_bytes_def slh_sk_to_bytes_def slh_vk_from_bytes_def slh_vk_to_bytes_def
      slh_sig_from_bytes_def slh_sig_to_bytes_def)

context hex_codec
begin

text \<open>A value comes back from any format that gives back the strings it writes.\<close>

lemma read_hex_written:
  assumes "ok x" and "ser_str (enc x) = Inr out" and "\<And>s out. ser_str s = Inr out \<Longrightarrow> de_str out = Inr s"
  shows "read_hex dec de_str custom out = Inr x"
  using assms by (simp add: read_hex_def dec_enc)

lemma read_hex_error:
  assumes "read_hex dec de_str custom d = Inl e"
  shows "de_str d = Inl e \<or> e = custom Encoding"
  using assms by (auto simp: read_hex_def dest: dec_error split: sum.splits)

end

lemmas deserialize_defs = hash_deserialize_def vk_deserialize_def sig_deserialize_def slh_vk_deserialize_def
  slh_sig_deserialize_def

lemma deserialize_serialize:
  assumes "hex_inverse P" and "\<And>s out. ser_str s = Inr out \<Longrightarrow> de_str out = Inr s"
  shows "length (as_bytes h) = HASH_LEN \<Longrightarrow> hash_serialize P ser_str h = Inr o1 \<Longrightarrow>
      hash_deserialize P de_str custom o1 = Inr h"
    and "length (vk_bytes k) = PUBKEY_LEN \<and> mldsa_pk_ok P (vk_bytes k) \<Longrightarrow> vk_serialize P ser_str k = Inr o2 \<Longrightarrow>
      vk_deserialize P de_str custom o2 = Inr k"
    and "length (sig_bytes s) = SIG_LEN \<Longrightarrow> sig_serialize P ser_str s = Inr o3 \<Longrightarrow>
      sig_deserialize P de_str custom o3 = Inr s"
    and "length (slh_vk_bytes sk) = SLH_PUBKEY_LEN \<and> slh_pk_ok P (slh_vk_bytes sk) \<Longrightarrow>
      slh_vk_serialize P ser_str sk = Inr o4 \<Longrightarrow> slh_vk_deserialize P de_str custom o4 = Inr sk"
    and "length (slh_sig_bytes ss) = SLH_SIG_LEN \<Longrightarrow> slh_sig_serialize P ser_str ss = Inr o5 \<Longrightarrow>
      slh_sig_deserialize P de_str custom o5 = Inr ss"
  using assms
  by (auto simp: deserialize_defs hash_serialize_def vk_serialize_def sig_serialize_def slh_vk_serialize_def
      slh_sig_serialize_def
      intro: hash_hex.read_hex_written vk_hex.read_hex_written sig_hex.read_hex_written
        slh_vk_hex.read_hex_written slh_sig_hex.read_hex_written)

text \<open>The debug texts cut the hex form; they do not panic on values of the right width.\<close>

lemma debug_total:
  assumes "\<And>bs. length (hex_encode P bs) = 2 * length bs"
  shows "length (sig_bytes s) = SIG_LEN \<Longrightarrow> sig_debug P s \<noteq> None"
    and "length (slh_vk_bytes k) = SLH_PUBKEY_LEN \<Longrightarrow> slh_vk_debug P k \<noteq> None"
    and "length (slh_sig_bytes ss) = SLH_SIG_LEN \<Longrightarrow> slh_sig_debug P ss \<noteq> None"
  using assms
  by (simp_all add: sig_debug_def slh_vk_debug_def slh_sig_debug_def slice16_def sig_to_hex_def slh_vk_to_hex_def
      slh_sig_to_hex_def SIG_LEN_def SLH_PUBKEY_LEN_def SLH_SIG_LEN_def)

end
