(* ===== verification/Merkle.thy ===== *)
theory Merkle
  imports Slc_Crypto
begin

text \<open>
  The Merkle tree of \<^verbatim>\<open>crates/ledger/src/merkle.rs\<close>: domain-separated leaf and node hashes,
  the level-by-level construction with promoted odd nodes, inclusion proofs and the root they
  recompute. The loops are translated index by index; \<open>pair_up\<close> is the reference the inner
  loop is proved equal to, and \<open>mtree\<close> is the abstract binary tree whose hash the whole
  construction is proved to compute.
\<close>

section \<open>Hashing leaves and nodes\<close>

definition LEAF_PREFIX :: byte where
  "LEAF_PREFIX = 0x00"

definition NODE_PREFIX :: byte where
  "NODE_PREFIX = 0x01"

definition empty_root :: "prims \<Rightarrow> Hash" where
  "empty_root P = digest P (ascii ''SLC-empty-merkle-v1'')"

definition hash_leaf :: "prims \<Rightarrow> byte list \<Rightarrow> Hash" where
  "hash_leaf P data = digest P (LEAF_PREFIX # data)"

definition hash_node :: "prims \<Rightarrow> Hash \<Rightarrow> Hash \<Rightarrow> Hash" where
  "hash_node P left right = digest P (NODE_PREFIX # as_bytes left @ as_bytes right)"

section \<open>Authentication paths\<close>

record MerkleStep =
  sibling :: Hash
  sibling_is_left :: bool

record MerklePath =
  steps :: "MerkleStep list"

definition climb :: "prims \<Rightarrow> Hash \<Rightarrow> MerkleStep \<Rightarrow> Hash" where
  "climb P acc step =
     (if sibling_is_left step then hash_node P (sibling step) acc
      else hash_node P acc (sibling step))"

definition compute_root :: "prims \<Rightarrow> MerklePath \<Rightarrow> Hash \<Rightarrow> Hash" where
  "compute_root P path leaf_hash = foldl (climb P) leaf_hash (steps path)"

section \<open>Building the tree\<close>

record MerkleTree =
  levels :: "Hash list list"

text \<open>The inner loop: \<open>i\<close> walks over the current level and pushes onto \<open>next\<close>.\<close>

function next_level_loop :: "prims \<Rightarrow> Hash list \<Rightarrow> nat \<Rightarrow> Hash list \<Rightarrow> Hash list" where
  "next_level_loop P current i next =
     (if i < length current then
        if i + 1 < length current
        then next_level_loop P current (i + 2) (next @ [hash_node P (current ! i) (current ! (i + 1))])
        else next_level_loop P current (i + 1) (next @ [current ! i])
      else next)"
  by pat_completeness auto
termination
  by (relation "measure (\<lambda>(P, current, i, next). length current - i)") auto

declare next_level_loop.simps [simp del]

text \<open>The reference for one level: combine neighbours, promote a lone last element.\<close>

fun pair_up :: "('a \<Rightarrow> 'a \<Rightarrow> 'a) \<Rightarrow> 'a list \<Rightarrow> 'a list" where
  "pair_up f (x # y # xs) = f x y # pair_up f xs"
| "pair_up f [x] = [x]"
| "pair_up f [] = []"

lemma next_level_loop_pair_up:
  "next_level_loop P current i next = next @ pair_up (hash_node P) (drop i current)"
proof (induction P current i "next" rule: next_level_loop.induct)
  case (1 P current i "next")
  consider (two) "i + 1 < length current" | (one) "i + 1 = length current" | (over) "length current \<le> i"
    by linarith
  then show ?case
  proof cases
    case two
    then have "drop i current = current ! i # current ! (i + 1) # drop (i + 2) current"
      by (simp add: Cons_nth_drop_Suc)
    with 1 two show ?thesis by (simp add: next_level_loop.simps [of P current i])
  next
    case one
    then have "drop i current = [current ! i]"
      by (simp add: Cons_nth_drop_Suc [symmetric])
    moreover from one have "next_level_loop P current (i + 1) (next @ [current ! i]) = next @ [current ! i]"
      by (simp add: next_level_loop.simps)
    ultimately show ?thesis using one by (simp add: next_level_loop.simps [of P current i])
  next
    case over
    then show ?thesis by (simp add: next_level_loop.simps [of P current i])
  qed
qed

lemma length_pair_up: "length (pair_up f xs) = (length xs + 1) div 2"
  by (induction f xs rule: pair_up.induct) auto

text \<open>The outer loop: push levels until the last one has at most one node.\<close>

function build_loop :: "prims \<Rightarrow> Hash list list \<Rightarrow> Hash list list" where
  "build_loop P lvls =
     (if 1 < length (last lvls) then build_loop P (lvls @ [next_level_loop P (last lvls) 0 []])
      else lvls)"
  by pat_completeness auto
termination
  by (relation "measure (\<lambda>(P, lvls). length (last lvls))")
    (auto simp: next_level_loop_pair_up length_pair_up)

declare build_loop.simps [simp del]

definition merkle_build :: "prims \<Rightarrow> Hash list \<Rightarrow> MerkleTree" where
  "merkle_build P leaves = \<lparr>levels = build_loop P [leaves]\<rparr>"

definition merkle_root_of :: "prims \<Rightarrow> MerkleTree \<Rightarrow> Hash" where
  "merkle_root_of P t =
     (if levels t \<noteq> [] \<and> length (last (levels t)) = 1 then last (levels t) ! 0 else empty_root P)"

text \<open>The loop of \<^verbatim>\<open>proof\<close> over every level but the last.\<close>

fun proof_loop :: "Hash list list \<Rightarrow> nat \<Rightarrow> MerkleStep list" where
  "proof_loop [] idx = []"
| "proof_loop (nodes # rest) idx =
     (if idx mod 2 = 0 then
        (if idx + 1 < length nodes
         then [\<lparr>sibling = nodes ! (idx + 1), sibling_is_left = False\<rparr>] else [])
      else [\<lparr>sibling = nodes ! (idx - 1), sibling_is_left = True\<rparr>])
     @ proof_loop rest (idx div 2)"

definition merkle_proof :: "MerkleTree \<Rightarrow> nat \<Rightarrow> MerklePath option" where
  "merkle_proof t index =
     (if length (levels t ! 0) \<le> index then None
      else Some \<lparr>steps = proof_loop (butlast (levels t)) index\<rparr>)"

section \<open>The abstract tree\<close>

datatype 'a mtree = Tip 'a | Fork "'a mtree" "'a mtree"

primrec tips :: "'a mtree \<Rightarrow> 'a list" where
  "tips (Tip x) = [x]"
| "tips (Fork l r) = tips l @ tips r"

primrec mtree_hash :: "prims \<Rightarrow> Hash mtree \<Rightarrow> Hash" where
  "mtree_hash P (Tip h) = h"
| "mtree_hash P (Fork l r) = hash_node P (mtree_hash P l) (mtree_hash P r)"

function pair_all :: "('a \<Rightarrow> 'a \<Rightarrow> 'a) \<Rightarrow> 'a list \<Rightarrow> 'a list" where
  "pair_all f xs = (if 1 < length xs then pair_all f (pair_up f xs) else xs)"
  by pat_completeness auto
termination
  by (relation "measure (\<lambda>(f, xs). length xs)") (auto simp: length_pair_up)

declare pair_all.simps [simp del]

text \<open>The levels from one level upwards.\<close>

function levels_from :: "prims \<Rightarrow> Hash list \<Rightarrow> Hash list list" where
  "levels_from P cur =
     cur # (if 1 < length cur then levels_from P (pair_up (hash_node P) cur) else [])"
  by pat_completeness auto
termination
  by (relation "measure (\<lambda>(P, cur). length cur)") (auto simp: length_pair_up)

declare levels_from.simps [simp del]

section \<open>The construction against its reference\<close>

lemma build_loop_levels_from: "build_loop P (ls @ [cur]) = ls @ levels_from P cur"
proof (induction P cur arbitrary: ls rule: levels_from.induct)
  case (1 P cur)
  show ?case
  proof (cases "1 < length cur")
    case True
    have "build_loop P (ls @ [cur]) = build_loop P ((ls @ [cur]) @ [pair_up (hash_node P) cur])"
      using True by (subst build_loop.simps) (simp add: next_level_loop_pair_up)
    also have "\<dots> = (ls @ [cur]) @ levels_from P (pair_up (hash_node P) cur)"
      by (rule 1) (use True in simp)
    finally show ?thesis using True by (simp add: levels_from.simps [of P cur])
  next
    case False
    then show ?thesis by (simp add: build_loop.simps levels_from.simps)
  qed
qed

lemma levels_merkle_build: "levels (merkle_build P leaves) = levels_from P leaves"
  using build_loop_levels_from [of P "[]" leaves] by (simp add: merkle_build_def)

lemma levels_from_neq_Nil [simp]: "levels_from P cur \<noteq> []"
  by (simp add: levels_from.simps)

lemma levels_from_first [simp]: "levels_from P cur ! 0 = cur"
  by (simp add: levels_from.simps)

lemma last_levels_from: "last (levels_from P cur) = pair_all (hash_node P) cur"
proof (induction P cur rule: levels_from.induct)
  case (1 P cur)
  then show ?case
    by (cases "1 < length cur") (simp_all add: levels_from.simps [of P cur] pair_all.simps [of _ cur])
qed

lemma length_pair_all: "length (pair_all f xs) = (if xs = [] then 0 else 1)"
proof (induction f xs rule: pair_all.induct)
  case (1 f xs)
  show ?case
  proof (cases "1 < length xs")
    case True
    then have "pair_up f xs \<noteq> []" using length_pair_up [of f xs] by auto
    with 1 True show ?thesis by (subst pair_all.simps) auto
  next
    case False
    then show ?thesis by (cases xs) (simp_all add: pair_all.simps)
  qed
qed

lemma merkle_root_nonempty:
  "leaves \<noteq> [] \<Longrightarrow> merkle_root_of P (merkle_build P leaves) = pair_all (hash_node P) leaves ! 0"
  by (simp add: merkle_root_of_def levels_merkle_build last_levels_from length_pair_all)

lemma merkle_root_empty: "merkle_root_of P (merkle_build P []) = empty_root P"
  by (simp add: merkle_root_of_def levels_merkle_build last_levels_from length_pair_all)

lemma pair_up_map: "(\<And>x y. h (f x y) = g (h x) (h y)) \<Longrightarrow> pair_up g (map h xs) = map h (pair_up f xs)"
  by (induction f xs rule: pair_up.induct) auto

lemma pair_all_map:
  assumes "\<And>x y. h (f x y) = g (h x) (h y)"
  shows "pair_all g (map h xs) = map h (pair_all f xs)"
  using assms
proof (induction f xs rule: pair_all.induct)
  case (1 f xs)
  then show ?case using pair_up_map [of h f g xs, OF 1(2)]
    by (cases "1 < length xs") (simp_all add: pair_all.simps [of _ xs] pair_all.simps [of _ "map h xs"])
qed

lemma concat_tips_pair_up: "concat (map tips (pair_up Fork ts)) = concat (map tips ts)"
  by (induction "Fork :: 'a mtree \<Rightarrow> _" ts rule: pair_up.induct) auto

lemma concat_tips_pair_all: "concat (map tips (pair_all Fork ts)) = concat (map tips ts)"
proof (induction "Fork :: 'a mtree \<Rightarrow> _" ts rule: pair_all.induct)
  case (1 ts)
  then show ?case
    by (cases "1 < length ts") (simp_all add: pair_all.simps [of _ ts] concat_tips_pair_up)
qed

section \<open>Every leaf proves\<close>

lemma pair_up_nth:
  assumes "i < length xs"
  shows "pair_up f xs ! (i div 2) =
    (if even i then if i + 1 < length xs then f (xs ! i) (xs ! (i + 1)) else xs ! i
     else f (xs ! (i - 1)) (xs ! i))"
  using assms
proof (induction f xs arbitrary: i rule: pair_up.induct)
  case (1 f x y xs)
  show ?case
  proof (cases "i < 2")
    case True
    then have "i = 0 \<or> i = 1" by auto
    then show ?thesis by auto
  next
    case False
    then obtain j where j: "i = j + 2" by (metis add.commute le_Suc_ex not_less)
    then have "(j + 2) div 2 = Suc (j div 2)" and "j < length xs" using "1.prems" by auto
    with j "1.IH" [of j] show ?thesis by (cases j) auto
  qed
qed auto

lemma climb_left [simp]: "climb P acc \<lparr>sibling = h, sibling_is_left = True\<rparr> = hash_node P h acc"
  by (simp add: climb_def)

lemma climb_right [simp]: "climb P acc \<lparr>sibling = h, sibling_is_left = False\<rparr> = hash_node P acc h"
  by (simp add: climb_def)

lemma climb_proof_loop:
  "i < length cur \<Longrightarrow>
   foldl (climb P) (cur ! i) (proof_loop (butlast (levels_from P cur)) i) = pair_all (hash_node P) cur ! 0"
proof (induction P cur arbitrary: i rule: levels_from.induct)
  case (1 P cur)
  show ?case
  proof (cases "1 < length cur")
    case True
    let ?up = "pair_up (hash_node P) cur"
    have "i div 2 < length ?up" using "1.prems" by (simp add: length_pair_up)
    then have IH: "foldl (climb P) (?up ! (i div 2)) (proof_loop (butlast (levels_from P ?up)) (i div 2))
        = pair_all (hash_node P) ?up ! 0"
      using "1.IH" True by blast
    have "levels_from P cur = cur # levels_from P ?up"
      using True by (subst levels_from.simps) simp
    moreover have "pair_all (hash_node P) cur = pair_all (hash_node P) ?up"
      using True by (subst pair_all.simps) simp
    moreover have "i mod 2 = 0 \<longleftrightarrow> even i" by presburger
    ultimately show ?thesis
      using IH pair_up_nth [OF "1.prems", of "hash_node P"]
      by (cases "even i"; cases "i + 1 < length cur") simp_all
  next
    case False
    with "1.prems" have "i = 0" by simp
    with False show ?thesis
      by (simp add: levels_from.simps [of P cur] pair_all.simps [of _ cur])
  qed
qed

lemma merkle_proof_in_range:
  "i < length leaves \<Longrightarrow>
   merkle_proof (merkle_build P leaves) i =
     Some \<lparr>steps = proof_loop (butlast (levels_from P leaves)) i\<rparr>"
  by (simp add: merkle_proof_def levels_merkle_build)

section \<open>Data trees and what is hashed in them\<close>

definition data_tree :: "'a list \<Rightarrow> 'a mtree" where
  "data_tree xs = pair_all Fork (map Tip xs) ! 0"

primrec data_root :: "prims \<Rightarrow> byte list mtree \<Rightarrow> Hash" where
  "data_root P (Tip d) = hash_leaf P d"
| "data_root P (Fork l r) = hash_node P (data_root P l) (data_root P r)"

primrec tree_preimages :: "prims \<Rightarrow> byte list mtree \<Rightarrow> byte list set" where
  "tree_preimages P (Tip d) = {LEAF_PREFIX # d}"
| "tree_preimages P (Fork l r) =
     {NODE_PREFIX # as_bytes (data_root P l) @ as_bytes (data_root P r)}
     \<union> tree_preimages P l \<union> tree_preimages P r"

definition merkle_preimages :: "prims \<Rightarrow> byte list list \<Rightarrow> byte list set" where
  "merkle_preimages P xs =
     (if xs = [] then {ascii ''SLC-empty-merkle-v1''} else tree_preimages P (data_tree xs))"

primrec path_preimages :: "prims \<Rightarrow> Hash \<Rightarrow> MerkleStep list \<Rightarrow> byte list set" where
  "path_preimages P acc [] = {}"
| "path_preimages P acc (s # ss) =
     {NODE_PREFIX # (if sibling_is_left s then as_bytes (sibling s) @ as_bytes acc
                     else as_bytes acc @ as_bytes (sibling s))}
     \<union> path_preimages P (climb P acc s) ss"

definition path_wf :: "MerklePath \<Rightarrow> bool" where
  "path_wf path \<longleftrightarrow> (\<forall>s\<in>set (steps path). length (as_bytes (sibling s)) = HASH_LEN)"

lemma data_root_eq: "data_root P t = mtree_hash P (map_mtree (hash_leaf P) t)"
  by (induction t) auto

lemma length_data_root [simp]: "sha3_width P \<Longrightarrow> length (as_bytes (data_root P t)) = 32"
  by (cases t) (simp_all add: hash_leaf_def hash_node_def)

lemma tips_data_tree: "xs \<noteq> [] \<Longrightarrow> tips (data_tree xs) = xs"
proof -
  assume "xs \<noteq> []"
  then obtain t where t: "pair_all Fork (map Tip xs) = [t]"
    using length_pair_all [of Fork "map Tip xs"] by (auto simp: length_Suc_conv)
  have "concat (map tips (pair_all Fork (map Tip xs))) = xs"
    by (simp add: concat_tips_pair_all comp_def)
  with t show ?thesis by (simp add: data_tree_def)
qed

lemma merkle_root_data_root:
  assumes "xs \<noteq> []"
  shows "merkle_root_of P (merkle_build P (map (hash_leaf P) xs)) = data_root P (data_tree xs)"
proof -
  have "pair_all (hash_node P) (map (data_root P) (map Tip xs)) =
      map (data_root P) (pair_all Fork (map Tip xs))"
    by (rule pair_all_map) simp
  moreover have "pair_all Fork (map Tip xs) \<noteq> []"
    using assms length_pair_all [of Fork "map Tip xs"] by auto
  ultimately show ?thesis
    using assms by (simp add: merkle_root_nonempty data_tree_def comp_def)
qed

lemma data_root_preimage: "\<exists>x\<in>tree_preimages P t. data_root P t = digest P x"
  by (cases t) (auto simp: hash_leaf_def hash_node_def)

lemma prefixes_differ [simp]: "LEAF_PREFIX \<noteq> NODE_PREFIX" "NODE_PREFIX \<noteq> LEAF_PREFIX"
  by (simp_all add: LEAF_PREFIX_def NODE_PREFIX_def)

lemma hash_leaf_eq:
  "collision_free P S \<Longrightarrow> LEAF_PREFIX # a \<in> S \<Longrightarrow> LEAF_PREFIX # b \<in> S \<Longrightarrow>
   hash_leaf P a = hash_leaf P b \<longleftrightarrow> a = b"
  by (simp add: hash_leaf_def digest_inject)

lemma hash_leaf_node:
  "collision_free P S \<Longrightarrow> LEAF_PREFIX # a \<in> S \<Longrightarrow> NODE_PREFIX # as_bytes l @ as_bytes r \<in> S \<Longrightarrow>
   hash_leaf P a \<noteq> hash_node P l r"
  by (simp add: hash_leaf_def hash_node_def digest_inject)

lemma hash_node_eq:
  "collision_free P S \<Longrightarrow> NODE_PREFIX # as_bytes l @ as_bytes r \<in> S \<Longrightarrow>
   NODE_PREFIX # as_bytes l' @ as_bytes r' \<in> S \<Longrightarrow> length (as_bytes l) = length (as_bytes l') \<Longrightarrow>
   hash_node P l r = hash_node P l' r' \<longleftrightarrow> l = l' \<and> r = r'"
  by (simp add: hash_node_def digest_inject)

lemma data_root_inject:
  assumes "sha3_width P" and "collision_free P S"
    and "tree_preimages P s \<subseteq> S" and "tree_preimages P t \<subseteq> S"
    and "data_root P s = data_root P t"
  shows "s = t"
  using assms(3-5)
proof (induction s arbitrary: t)
  case (Tip d)
  show ?case
  proof (cases t)
    case (Tip e)
    with Tip.prems assms(2) show ?thesis by (simp add: hash_leaf_eq)
  next
    case (Fork l r)
    with Tip.prems hash_leaf_node [OF assms(2), of d "data_root P l" "data_root P r"] show ?thesis by simp
  qed
next
  case (Fork l r)
  show ?case
  proof (cases t)
    case (Tip e)
    with Fork.prems hash_leaf_node [OF assms(2), of e "data_root P l" "data_root P r"] show ?thesis by simp
  next
    case (Fork l' r')
    with Fork.prems assms(1)
    have "data_root P l = data_root P l' \<and> data_root P r = data_root P r'"
      using hash_node_eq [OF assms(2), of "data_root P l" "data_root P r" "data_root P l'" "data_root P r'"]
      by simp
    with Fork Fork.IH Fork.prems show ?thesis by auto
  qed
qed

lemma compute_root_length:
  "sha3_width P \<Longrightarrow> length (as_bytes acc) = 32 \<Longrightarrow> length (as_bytes (foldl (climb P) acc ss)) = 32"
  by (induction ss arbitrary: acc) (simp_all add: climb_def hash_node_def)

lemma path_preimages_append:
  "path_preimages P acc (ss @ [s]) =
   path_preimages P acc ss \<union> path_preimages P (foldl (climb P) acc ss) [s]"
  by (induction ss arbitrary: acc) auto

text \<open>A path that ends in the root of a tree starts at one of its leaves.\<close>

lemma path_reaches_tip:
  assumes "sha3_width P" and "collision_free P S" and "LEAF_PREFIX # d \<in> S"
    and "tree_preimages P t \<subseteq> S" and "path_preimages P (hash_leaf P d) ss \<subseteq> S"
    and "\<forall>s\<in>set ss. length (as_bytes (sibling s)) = HASH_LEN"
    and "foldl (climb P) (hash_leaf P d) ss = data_root P t"
  shows "d \<in> set (tips t)"
  using assms(4-7)
proof (induction ss arbitrary: t rule: rev_induct)
  case Nil
  show ?case
  proof (cases t)
    case (Tip e)
    with Nil assms(2,3) show ?thesis by (simp add: hash_leaf_eq)
  next
    case (Fork l r)
    with Nil assms(3) hash_leaf_node [OF assms(2), of d "data_root P l" "data_root P r"] show ?thesis by simp
  qed
next
  case (snoc s ss)
  let ?acc = "foldl (climb P) (hash_leaf P d) ss"
  define a b where "a = (if sibling_is_left s then sibling s else ?acc)"
    and "b = (if sibling_is_left s then ?acc else sibling s)"
  have len: "length (as_bytes ?acc) = 32" "length (as_bytes (sibling s)) = 32"
    using assms(1) snoc.prems(3) by (auto intro!: compute_root_length simp: hash_leaf_def HASH_LEN_def)
  have eq: "hash_node P a b = data_root P t"
    using snoc.prems(4) by (simp add: a_def b_def climb_def [of P ?acc] split: if_splits)
  have mem: "NODE_PREFIX # as_bytes a @ as_bytes b \<in> S" and alen: "length (as_bytes a) = 32"
    using snoc.prems(2) len by (auto simp: a_def b_def path_preimages_append split: if_splits)
  show ?case
  proof (cases t)
    case (Tip e)
    with eq mem snoc.prems(1) hash_leaf_node [OF assms(2), of e a b] show ?thesis by simp
  next
    case (Fork l r)
    with eq mem alen snoc.prems(1) assms(1)
    have "a = data_root P l \<and> b = data_root P r"
      using hash_node_eq [OF assms(2), of a b "data_root P l" "data_root P r"] by simp
    then have "?acc = data_root P (if sibling_is_left s then r else l)"
      by (auto simp: a_def b_def)
    then have "d \<in> set (tips (if sibling_is_left s then r else l))"
      using snoc.prems Fork by (intro snoc.IH) (auto simp: path_preimages_append split: if_splits)
    with Fork show ?thesis by (auto split: if_splits)
  qed
qed

end
