(* ===== verification/Validators.thy ===== *)
theory Validators
  imports Slc_Crypto
begin

text \<open>
  The validator roster of \<^verbatim>\<open>crates/ledger/src/validators.rs\<close> with its Byzantine quorum
  threshold, the interface of a quorum system (any two quorums overlap in more members than can
  be faulty) that the certificates and the governance approvals rely on, and the interface of a
  signature tally, the counting loop that certificates (\<^verbatim>\<open>block.rs\<close>) and governance approvals
  (\<^verbatim>\<open>governance.rs\<close>) share.
\<close>

section \<open>Validator sets\<close>

record ValidatorSet =
  set_validators :: "VerifyingKey list"
  set_threshold :: nat

text \<open>\<open>None\<close> is a failed assertion.\<close>

definition validator_set_new :: "VerifyingKey list \<Rightarrow> nat \<Rightarrow> ValidatorSet option" where
  "validator_set_new vals thr =
     (if \<not> 1 \<le> thr then None
      else if \<not> thr \<le> length vals then None
      else Some \<lparr>set_validators = vals, set_threshold = thr\<rparr>)"

definition validator_set_bft :: "VerifyingKey list \<Rightarrow> ValidatorSet option" where
  "validator_set_bft vals =
     (let n = length vals; f = (n - 1) div 3 in validator_set_new vals (n - f))"

definition vs_len :: "ValidatorSet \<Rightarrow> nat" where
  "vs_len s = length (set_validators s)"

definition vs_is_empty :: "ValidatorSet \<Rightarrow> bool" where
  "vs_is_empty s \<longleftrightarrow> set_validators s = []"

definition vs_contains :: "ValidatorSet \<Rightarrow> VerifyingKey \<Rightarrow> bool" where
  "vs_contains s key = list_ex (\<lambda>v. v = key) (set_validators s)"

text \<open>One validator's signature over some message (\<^verbatim>\<open>block.rs\<close>).\<close>

record ValidatorSig =
  vs_validator :: VerifyingKey
  vs_signature :: Signature

section \<open>Lemmas\<close>

lemma vs_contains_iff [simp]: "vs_contains s key \<longleftrightarrow> key \<in> set (set_validators s)"
  by (auto simp: vs_contains_def list_ex_iff)

lemma bft_Some_iff:
  "validator_set_bft vals = Some s \<longleftrightarrow>
   vals \<noteq> [] \<and> s = \<lparr>set_validators = vals, set_threshold = length vals - (length vals - 1) div 3\<rparr>"
proof (cases vals)
  case Nil
  then show ?thesis by (simp add: validator_set_bft_def validator_set_new_def)
next
  case (Cons v vs)
  then have "1 \<le> length vals - (length vals - 1) div 3" by simp
  with Cons show ?thesis by (auto simp: validator_set_bft_def validator_set_new_def Let_def)
qed

lemma bft_None_iff: "validator_set_bft vals = None \<longleftrightarrow> vals = []"
  using bft_Some_iff by (metis option.exhaust option.distinct(1))

lemma bft_threshold_bounds:
  assumes "validator_set_bft vals = Some s"
  shows "1 \<le> set_threshold s" and "set_threshold s \<le> length vals"
    and "length vals + (length vals - 1) div 3 < 2 * set_threshold s"
proof -
  from assms have n: "0 < length vals" and t: "set_threshold s = length vals - (length vals - 1) div 3"
    by (auto simp: bft_Some_iff)
  have f: "3 * ((length vals - 1) div 3) \<le> length vals - 1" by simp
  with n t show "1 \<le> set_threshold s" "set_threshold s \<le> length vals" by linarith+
  from f n t show "length vals + (length vals - 1) div 3 < 2 * set_threshold s" by linarith
qed

section \<open>Quorum systems\<close>

text \<open>
  \<open>is_quorum\<close> tells which sets of members suffice, \<open>faults\<close> is the number of members that
  may misbehave. The one law is that two quorums share more than \<open>faults\<close> members.
\<close>

locale quorums =
  fixes is_quorum :: "'v set \<Rightarrow> bool" and faults :: nat
  assumes quorum_finite: "is_quorum Q \<Longrightarrow> finite Q"
    and quorum_overlap: "is_quorum Q \<Longrightarrow> is_quorum Q' \<Longrightarrow> faults < card (Q \<inter> Q')"
begin

lemma honest_common_member:
  assumes "is_quorum Q" "is_quorum Q'" "finite B" "card B \<le> faults"
  shows "\<exists>v \<in> Q \<inter> Q'. v \<notin> B"
proof (rule ccontr)
  assume "\<not> ?thesis"
  then have "Q \<inter> Q' \<subseteq> B" by blast
  then have "card (Q \<inter> Q') \<le> card B" using assms(3) by (rule card_mono [rotated])
  with quorum_overlap [OF assms(1,2)] assms(4) show False by simp
qed

text \<open>If members outside \<open>B\<close> back one value each, no two values have a quorum.\<close>

lemma backed_unique:
  assumes "is_quorum Q" "is_quorum Q'" "finite B" "card B \<le> faults"
    and "\<And>v. v \<in> Q \<Longrightarrow> backs v a" and "\<And>v. v \<in> Q' \<Longrightarrow> backs v b"
    and "\<And>v x y. v \<notin> B \<Longrightarrow> backs v x \<Longrightarrow> backs v y \<Longrightarrow> x = y"
  shows "a = b"
  using honest_common_member [OF assms(1-4)] assms(5-7) by blast

end

lemma card_overlap:
  assumes "finite M" "Q \<subseteq> M" "Q' \<subseteq> M" "card M + f < card Q + card Q'"
  shows "f < card (Q \<inter> Q')"
proof -
  have "card Q + card Q' = card (Q \<union> Q') + card (Q \<inter> Q')"
    using assms(1-3) by (intro card_Un_Int) (auto intro: finite_subset)
  moreover have "card (Q \<union> Q') \<le> card M" using assms(1-3) by (intro card_mono) auto
  ultimately show ?thesis using assms(4) by linarith
qed

definition bft_quorum :: "VerifyingKey list \<Rightarrow> VerifyingKey set \<Rightarrow> bool" where
  "bft_quorum vals Q \<longleftrightarrow>
     (\<exists>s. validator_set_bft vals = Some s \<and> Q \<subseteq> set vals \<and> set_threshold s \<le> card Q)"

interpretation bft: quorums "bft_quorum vals" "(length vals - 1) div 3" for vals
proof
  fix Q assume "bft_quorum vals Q"
  then show "finite Q" by (auto simp: bft_quorum_def intro: finite_subset)
next
  fix Q Q' assume "bft_quorum vals Q" "bft_quorum vals Q'"
  then obtain s where s: "validator_set_bft vals = Some s" and sub: "Q \<subseteq> set vals" "Q' \<subseteq> set vals"
    and thr: "set_threshold s \<le> card Q" "set_threshold s \<le> card Q'"
    by (auto simp: bft_quorum_def)
  have "card (set vals) \<le> length vals" by (rule card_length)
  with bft_threshold_bounds(3) [OF s] thr have "card (set vals) + (length vals - 1) div 3 < card Q + card Q'"
    by linarith
  with sub show "(length vals - 1) div 3 < card (Q \<inter> Q')"
    by (intro card_overlap [of "set vals"]) auto
qed

section \<open>Tallies of validator signatures\<close>

text \<open>
  The counting loop: skip a signer outside the set, skip an id that was seen before, count a
  signature that checks. \<open>loop\<close> is the loop over the signatures with the ids seen so far and
  the count so far, \<open>ident\<close> the id of a key, \<open>member\<close> the set membership, \<open>check\<close> the
  signature check.
\<close>

locale tally =
  fixes loop :: "Hash set \<Rightarrow> nat \<Rightarrow> ValidatorSig list \<Rightarrow> nat"
    and ident :: "VerifyingKey \<Rightarrow> Hash"
    and member :: "VerifyingKey \<Rightarrow> bool"
    and check :: "VerifyingKey \<Rightarrow> Signature \<Rightarrow> bool"
  assumes loop_Nil: "loop seen valid [] = valid"
    and loop_outsider: "\<not> member (vs_validator a) \<Longrightarrow> loop seen valid (a # as) = loop seen valid as"
    and loop_seen: "member (vs_validator a) \<Longrightarrow> ident (vs_validator a) \<in> seen \<Longrightarrow>
      loop seen valid (a # as) = loop seen valid as"
    and loop_fresh: "member (vs_validator a) \<Longrightarrow> ident (vs_validator a) \<notin> seen \<Longrightarrow>
      loop seen valid (a # as) =
        loop (insert (ident (vs_validator a)) seen)
          (if check (vs_validator a) (vs_signature a) then valid + 1 else valid) as"
begin

text \<open>The members that a list of signatures speaks for.\<close>

definition signers :: "ValidatorSig list \<Rightarrow> VerifyingKey set" where
  "signers as = {vs_validator a | a. a \<in> set as \<and> member (vs_validator a) \<and> check (vs_validator a) (vs_signature a)}"

lemma signers_Cons: "signers (a # as) =
    (if member (vs_validator a) \<and> check (vs_validator a) (vs_signature a)
     then insert (vs_validator a) (signers as) else signers as)"
  by (auto simp: signers_def)

lemma finite_signers [simp]: "finite (signers as)"
  by (induction as) (auto simp: signers_Cons, simp add: signers_def)

lemma signersD: "v \<in> signers as \<Longrightarrow> member v \<and> (\<exists>a\<in>set as. vs_validator a = v \<and> check v (vs_signature a))"
  by (auto simp: signers_def)

text \<open>Whatever is counted is a distinct member with a checked signature.\<close>

lemma loop_sound: "loop seen valid as \<le> valid + card {v \<in> signers as. ident v \<notin> seen}"
proof (induction as arbitrary: seen valid)
  case Nil
  then show ?case by (simp add: loop_Nil)
next
  case (Cons a as)
  let ?v = "vs_validator a"
  have mono: "card {v \<in> signers as. ident v \<notin> seen} \<le> card {v \<in> signers (a # as). ident v \<notin> seen}" for seen
    by (intro card_mono) (auto simp: signers_Cons)
  consider (out) "\<not> member ?v" | (seen) "member ?v" "ident ?v \<in> seen" | (fresh) "member ?v" "ident ?v \<notin> seen"
    by blast
  then show ?case
  proof cases
    case out
    with Cons [of seen valid] mono [of seen] show ?thesis by (simp add: loop_outsider)
  next
    case seen
    with Cons [of seen valid] mono [of seen] show ?thesis by (simp add: loop_seen)
  next
    case fresh
    let ?c = "check ?v (vs_signature a)"
    let ?rest = "{v \<in> signers as. ident v \<notin> insert (ident ?v) seen}"
    have "card ?rest + (if ?c then 1 else 0) \<le> card {v \<in> signers (a # as). ident v \<notin> seen}"
    proof (cases ?c)
      case True
      have "card (insert ?v ?rest) \<le> card {v \<in> signers (a # as). ident v \<notin> seen}"
        using fresh True by (intro card_mono) (auto simp: signers_Cons)
      with True show ?thesis by simp
    next
      case False
      then show ?thesis by (auto intro!: card_mono simp: signers_Cons)
    qed
    with Cons [of "insert (ident ?v) seen" "if ?c then valid + 1 else valid"] fresh show ?thesis
      by (simp add: loop_fresh split: if_splits)
  qed
qed

corollary loop_le_signers: "loop {} 0 as \<le> card (signers as)"
  using loop_sound [of "{}" 0 as] by simp

text \<open>With distinct ids nothing valid is lost.\<close>

lemma loop_complete:
  assumes "distinct (map (ident \<circ> vs_validator) as)"
    and "\<And>a. a \<in> set as \<Longrightarrow> ident (vs_validator a) \<notin> seen"
  shows "loop seen valid as =
    valid + length (filter (\<lambda>a. member (vs_validator a) \<and> check (vs_validator a) (vs_signature a)) as)"
  using assms
proof (induction as arbitrary: seen valid)
  case Nil
  then show ?case by (simp add: loop_Nil)
next
  case (Cons a as)
  show ?case
  proof (cases "member (vs_validator a)")
    case True
    have "loop (insert (ident (vs_validator a)) seen) v as =
        v + length (filter (\<lambda>a. member (vs_validator a) \<and> check (vs_validator a) (vs_signature a)) as)" for v
      using Cons.prems by (intro Cons.IH) (auto simp: image_iff)
    with True Cons.prems show ?thesis by (simp add: loop_fresh)
  next
    case False
    with Cons show ?thesis by (simp add: loop_outsider)
  qed
qed

end

end
