(* ===== verification/Ledger_Block.thy ===== *)
theory Ledger_Block
  imports Merkle Validators
begin

text \<open>
  Attestations (\<^verbatim>\<open>attestation.rs\<close>), block headers, quorum certificates and blocks
  (\<^verbatim>\<open>block.rs\<close>) of \<^verbatim>\<open>crates/ledger\<close>. The block's governance changes are a type parameter
  here and the signed changes of theory \<open>Governance\<close> in every use.
\<close>

section \<open>Errors\<close>

datatype LedgerError =
    Crypto CryptoError
  | InvalidAttestation
  | NotIncluded
  | BlockIdMismatch
  | InsufficientQuorum nat nat
  | Serialization string

section \<open>Attestations\<close>

record Attestation =
  att_pubkey :: VerifyingKey
  att_hash :: Hash
  att_signature :: Signature

definition attestation_create ::
  "prims \<Rightarrow> SigningKey \<Rightarrow> VerifyingKey \<Rightarrow> Hash \<Rightarrow> LedgerError + Attestation" where
  "attestation_create P sk pk h =
     (case sk_sign P sk (as_bytes h) ctx_ATTESTATION of
        Inl e \<Rightarrow> Inl (Crypto e)
      | Inr s \<Rightarrow> Inr \<lparr>att_pubkey = pk, att_hash = h, att_signature = s\<rparr>)"

definition attestation_verify :: "prims \<Rightarrow> Attestation \<Rightarrow> bool" where
  "attestation_verify P a =
     vk_verify P (att_pubkey a) (as_bytes (att_hash a)) (att_signature a) ctx_ATTESTATION"

definition attestation_encode :: "Attestation \<Rightarrow> byte list" where
  "attestation_encode a =
     vk_bytes (att_pubkey a) @ as_bytes (att_hash a) @ sig_bytes (att_signature a)"

definition leaf_hash :: "prims \<Rightarrow> Attestation \<Rightarrow> Hash" where
  "leaf_hash P a = hash_leaf P (attestation_encode a)"

section \<open>Headers\<close>

record BlockHeader =
  bh_height :: u64
  bh_prev_hash :: Hash
  bh_merkle_root :: Hash
  bh_tx_count :: u32
  bh_timestamp :: u64
  bh_gov_root :: Hash

definition header_signing_bytes :: "BlockHeader \<Rightarrow> byte list" where
  "header_signing_bytes h =
     u64_be (bh_height h) @ as_bytes (bh_prev_hash h) @ as_bytes (bh_merkle_root h)
     @ u32_be (bh_tx_count h) @ u64_be (bh_timestamp h) @ as_bytes (bh_gov_root h)"

definition header_id :: "prims \<Rightarrow> BlockHeader \<Rightarrow> Hash" where
  "header_id P h = digest P (header_signing_bytes h)"

definition header_sign :: "prims \<Rightarrow> BlockHeader \<Rightarrow> SigningKey \<Rightarrow> LedgerError + Signature" where
  "header_sign P h sk =
     (case sk_sign P sk (as_bytes (header_id P h)) ctx_BLOCK of
        Inl e \<Rightarrow> Inl (Crypto e) | Inr s \<Rightarrow> Inr s)"

section \<open>Quorum certificates\<close>

record QuorumCertificate =
  qc_block_id :: Hash
  qc_signatures :: "ValidatorSig list"

definition qc_new :: "Hash \<Rightarrow> QuorumCertificate" where
  "qc_new bid = \<lparr>qc_block_id = bid, qc_signatures = []\<rparr>"

definition qc_add :: "QuorumCertificate \<Rightarrow> VerifyingKey \<Rightarrow> Signature \<Rightarrow> QuorumCertificate" where
  "qc_add qc v s =
     qc\<lparr>qc_signatures := qc_signatures qc @ [\<lparr>vs_validator = v, vs_signature = s\<rparr>]\<rparr>"

fun count_valid_loop ::
  "prims \<Rightarrow> ValidatorSet \<Rightarrow> Hash \<Rightarrow> Hash set \<Rightarrow> nat \<Rightarrow> ValidatorSig list \<Rightarrow> nat" where
  "count_valid_loop P vset bid seen valid [] = valid"
| "count_valid_loop P vset bid seen valid (vs # rest) =
     (if \<not> vs_contains vset (vs_validator vs) then count_valid_loop P vset bid seen valid rest
      else if vk_id P (vs_validator vs) \<in> seen then count_valid_loop P vset bid seen valid rest
      else count_valid_loop P vset bid (insert (vk_id P (vs_validator vs)) seen)
        (if vk_verify P (vs_validator vs) (as_bytes bid) (vs_signature vs) ctx_BLOCK
         then valid + 1 else valid) rest)"

definition qc_count_valid :: "prims \<Rightarrow> QuorumCertificate \<Rightarrow> ValidatorSet \<Rightarrow> nat" where
  "qc_count_valid P qc vset = count_valid_loop P vset (qc_block_id qc) {} 0 (qc_signatures qc)"

definition qc_is_final :: "prims \<Rightarrow> QuorumCertificate \<Rightarrow> ValidatorSet \<Rightarrow> bool" where
  "qc_is_final P qc vset \<longleftrightarrow> set_threshold vset \<le> qc_count_valid P qc vset"

definition qc_verify ::
  "prims \<Rightarrow> QuorumCertificate \<Rightarrow> BlockHeader \<Rightarrow> ValidatorSet \<Rightarrow> LedgerError + unit" where
  "qc_verify P qc header vset =
     (if qc_block_id qc \<noteq> header_id P header then Inl BlockIdMismatch
      else let valid = qc_count_valid P qc vset in
        if valid < set_threshold vset then Inl (InsufficientQuorum valid (set_threshold vset))
        else Inr ())"

section \<open>Blocks\<close>

record 'gov Block =
  blk_header :: BlockHeader
  blk_attestations :: "Attestation list"
  blk_governance :: "'gov list"
  blk_qc :: QuorumCertificate

section \<open>Widths\<close>

text \<open>The array types of the sources fix these lengths.\<close>

definition attestation_wf :: "Attestation \<Rightarrow> bool" where
  "attestation_wf a \<longleftrightarrow> length (vk_bytes (att_pubkey a)) = PUBKEY_LEN
     \<and> length (as_bytes (att_hash a)) = HASH_LEN \<and> length (sig_bytes (att_signature a)) = SIG_LEN"

definition header_wf :: "BlockHeader \<Rightarrow> bool" where
  "header_wf h \<longleftrightarrow> length (as_bytes (bh_prev_hash h)) = HASH_LEN
     \<and> length (as_bytes (bh_merkle_root h)) = HASH_LEN \<and> length (as_bytes (bh_gov_root h)) = HASH_LEN"

section \<open>Lemmas\<close>

lemma attestation_create_verifies:
  "mldsa_correct P sk pk \<Longrightarrow> attestation_create P sk pk h = Inr a \<Longrightarrow>
   attestation_verify P a \<and> att_pubkey a = pk \<and> att_hash a = h"
  by (auto simp: attestation_create_def attestation_verify_def sk_sign_verifies split: sum.splits)

lemma attestation_encode_inject:
  "attestation_wf a \<Longrightarrow> attestation_wf b \<Longrightarrow> attestation_encode a = attestation_encode b \<longleftrightarrow> a = b"
  by (auto simp: attestation_encode_def attestation_wf_def)

lemma header_signing_bytes_inject:
  "header_wf a \<Longrightarrow> header_wf b \<Longrightarrow> header_signing_bytes a = header_signing_bytes b \<longleftrightarrow> a = b"
  by (auto simp: header_signing_bytes_def header_wf_def)

lemma length_header_signing_bytes [len_simps]:
  "header_wf h \<Longrightarrow> length (header_signing_bytes h) = 116"
  by (simp add: header_signing_bytes_def header_wf_def HASH_LEN_def)

interpretation qct: tally "count_valid_loop P vset bid" "vk_id P" "vs_contains vset"
  "\<lambda>v s. vk_verify P v (as_bytes bid) s ctx_BLOCK" for P vset bid
  by unfold_locales auto

lemma qc_verify_Inr_iff:
  "qc_verify P qc header vset = Inr () \<longleftrightarrow>
   qc_block_id qc = header_id P header \<and> qc_is_final P qc vset"
  by (auto simp: qc_verify_def qc_is_final_def Let_def)

text \<open>The distinct members whose signatures a certificate carries.\<close>

definition qc_signers :: "prims \<Rightarrow> QuorumCertificate \<Rightarrow> ValidatorSet \<Rightarrow> VerifyingKey set" where
  "qc_signers P qc vset =
     {vs_validator a | a. a \<in> set (qc_signatures qc) \<and> vs_contains vset (vs_validator a)
        \<and> vk_verify P (vs_validator a) (as_bytes (qc_block_id qc)) (vs_signature a) ctx_BLOCK}"

lemma qc_signers_eq: "qc_signers P qc vset = qct.signers vset P (qc_block_id qc) (qc_signatures qc)"
  by (simp add: qc_signers_def qct.signers_def)

lemma qc_signersD:
  assumes "v \<in> qc_signers P qc vset"
  shows "vs_contains vset v"
    and "\<exists>s. \<lparr>vs_validator = v, vs_signature = s\<rparr> \<in> set (qc_signatures qc)
             \<and> vk_verify P v (as_bytes (qc_block_id qc)) s ctx_BLOCK"
proof -
  from qct.signersD [OF assms [unfolded qc_signers_eq]] obtain a where
    a: "a \<in> set (qc_signatures qc)" "vs_validator a = v"
      "vk_verify P v (as_bytes (qc_block_id qc)) (vs_signature a) ctx_BLOCK"
    and m: "vs_contains vset v" by blast
  from m show "vs_contains vset v" .
  from a(2) obtain s where "a = \<lparr>vs_validator = v, vs_signature = s\<rparr>" by (cases a) auto
  with a show "\<exists>s. \<lparr>vs_validator = v, vs_signature = s\<rparr> \<in> set (qc_signatures qc)
      \<and> vk_verify P v (as_bytes (qc_block_id qc)) s ctx_BLOCK"
    by auto
qed

lemma qc_final_quorum:
  assumes "validator_set_bft vals = Some vset" and "qc_is_final P qc vset"
  shows "bft_quorum vals (qc_signers P qc vset)"
proof -
  have "set_threshold vset \<le> card (qc_signers P qc vset)"
    using assms(2) qct.loop_le_signers [where P = P and vset = vset and bid = "qc_block_id qc" and as = "qc_signatures qc"]
    by (simp add: qc_is_final_def qc_count_valid_def qc_signers_eq)
  moreover have "qc_signers P qc vset \<subseteq> set vals"
    using assms(1) qc_signersD(1) by (fastforce simp: bft_Some_iff)
  ultimately show ?thesis using assms(1) by (auto simp: bft_quorum_def)
qed

text \<open>Two certificates of one set are signed by a common part of it that cannot be all faulty.\<close>

lemma qc_overlap:
  assumes "validator_set_bft vals = Some vset"
    and "qc_verify P qc h vset = Inr ()" and "qc_verify P qc' h' vset = Inr ()"
  shows "(length vals - 1) div 3 < card {v \<in> set vals.
     (\<exists>s. vk_verify P v (as_bytes (header_id P h)) s ctx_BLOCK)
     \<and> (\<exists>s. vk_verify P v (as_bytes (header_id P h')) s ctx_BLOCK)}"
proof -
  have q: "bft_quorum vals (qc_signers P qc vset)" "bft_quorum vals (qc_signers P qc' vset)"
    using assms by (auto simp: qc_verify_Inr_iff intro: qc_final_quorum)
  have ids: "qc_block_id qc = header_id P h" "qc_block_id qc' = header_id P h'"
    using assms by (auto simp: qc_verify_Inr_iff)
  have "qc_signers P qc vset \<inter> qc_signers P qc' vset \<subseteq> {v \<in> set vals.
     (\<exists>s. vk_verify P v (as_bytes (header_id P h)) s ctx_BLOCK)
     \<and> (\<exists>s. vk_verify P v (as_bytes (header_id P h')) s ctx_BLOCK)}"
    using q(1) qc_signersD(2) ids by (fastforce simp: bft_quorum_def)
  then have "card (qc_signers P qc vset \<inter> qc_signers P qc' vset) \<le> card {v \<in> set vals.
     (\<exists>s. vk_verify P v (as_bytes (header_id P h)) s ctx_BLOCK)
     \<and> (\<exists>s. vk_verify P v (as_bytes (header_id P h')) s ctx_BLOCK)}"
    by (intro card_mono) auto
  with bft.quorum_overlap [OF q] show ?thesis by linarith
qed

end
