(* ===== verification/Governance.thy ===== *)
theory Governance
  imports Ledger_Block
begin

text \<open>
  Validator-set governance (\<^verbatim>\<open>crates/ledger/src/governance.rs\<close>): changes and the bytes their
  approvals sign, the authorization tally, the commitment of a block to its changes, and the
  registry whose active set is a function of the height.
\<close>

section \<open>Changes\<close>

record ValidatorChange =
  vc_adds :: "VerifyingKey list"
  vc_removes :: "VerifyingKey list"
  vc_activation_height :: u64

definition change_signing_bytes :: "ValidatorChange \<Rightarrow> byte list" where
  "change_signing_bytes c =
     (let adds = sort (map vk_bytes (vc_adds c));
          removes = sort (map vk_bytes (vc_removes c))
      in ascii ''SLCGOV'' @ u64_be (vc_activation_height c)
         @ u32_be (len_as_u32 adds) @ concat adds
         @ u32_be (len_as_u32 removes) @ concat removes)"

definition change_id :: "prims \<Rightarrow> ValidatorChange \<Rightarrow> Hash" where
  "change_id P c = digest P (change_signing_bytes c)"

definition change_is_empty :: "ValidatorChange \<Rightarrow> bool" where
  "change_is_empty c \<longleftrightarrow> vc_adds c = [] \<and> vc_removes c = []"

record SignedValidatorChange =
  svc_change :: ValidatorChange
  svc_approvals :: "ValidatorSig list"

definition signed_change_new :: "ValidatorChange \<Rightarrow> SignedValidatorChange" where
  "signed_change_new c = \<lparr>svc_change = c, svc_approvals = []\<rparr>"

definition commitment :: "prims \<Rightarrow> SignedValidatorChange \<Rightarrow> Hash" where
  "commitment P g =
     (let approver_ids = sort (map (\<lambda>a. as_bytes (vk_id P (vs_validator a))) (svc_approvals g))
      in digest P (as_bytes (change_id P (svc_change g))
           @ u32_be (len_as_u32 approver_ids) @ concat approver_ids))"

definition approve :: "SignedValidatorChange \<Rightarrow> VerifyingKey \<Rightarrow> Signature \<Rightarrow> SignedValidatorChange" where
  "approve g v s =
     g\<lparr>svc_approvals := svc_approvals g @ [\<lparr>vs_validator = v, vs_signature = s\<rparr>]\<rparr>"

fun authorize_loop ::
  "prims \<Rightarrow> ValidatorSet \<Rightarrow> byte list \<Rightarrow> Hash set \<Rightarrow> nat \<Rightarrow> ValidatorSig list \<Rightarrow> nat" where
  "authorize_loop P current msg seen valid [] = valid"
| "authorize_loop P current msg seen valid (a # rest) =
     (if \<not> vs_contains current (vs_validator a) then authorize_loop P current msg seen valid rest
      else if vk_id P (vs_validator a) \<in> seen then authorize_loop P current msg seen valid rest
      else authorize_loop P current msg (insert (vk_id P (vs_validator a)) seen)
        (if vk_verify P (vs_validator a) msg (vs_signature a) ctx_GOVERNANCE
         then valid + 1 else valid) rest)"

definition is_authorized :: "prims \<Rightarrow> SignedValidatorChange \<Rightarrow> ValidatorSet \<Rightarrow> bool" where
  "is_authorized P g current =
     (if change_is_empty (svc_change g) then False
      else set_threshold current \<le>
        authorize_loop P current (change_signing_bytes (svc_change g)) {} 0 (svc_approvals g))"

definition governance_root :: "prims \<Rightarrow> SignedValidatorChange list \<Rightarrow> Hash" where
  "governance_root P changes =
     digest P (ascii ''SLC-govroot-v1'' @ u32_be (len_as_u32 changes)
       @ concat (map (\<lambda>c. as_bytes (commitment P c)) changes))"

section \<open>The registry\<close>

record ValidatorRegistry =
  reg_genesis :: "VerifyingKey list"
  reg_changes :: "ValidatorChange list"

definition registry_new :: "VerifyingKey list \<Rightarrow> ValidatorRegistry" where
  "registry_new genesis = \<lparr>reg_genesis = genesis, reg_changes = []\<rparr>"

definition registry_record :: "ValidatorRegistry \<Rightarrow> ValidatorChange \<Rightarrow> ValidatorRegistry" where
  "registry_record reg c = reg\<lparr>reg_changes := reg_changes reg @ [c]\<rparr>"

definition remove_key :: "VerifyingKey \<Rightarrow> VerifyingKey list \<Rightarrow> VerifyingKey list" where
  "remove_key r keys = filter (\<lambda>k. k \<noteq> r) keys"

definition add_key :: "VerifyingKey \<Rightarrow> VerifyingKey list \<Rightarrow> VerifyingKey list" where
  "add_key a keys = (if a \<in> set keys then keys else keys @ [a])"

definition apply_change :: "ValidatorChange \<Rightarrow> VerifyingKey list \<Rightarrow> VerifyingKey list" where
  "apply_change c keys = fold add_key (vc_adds c) (fold remove_key (vc_removes c) keys)"

definition active_keys :: "ValidatorRegistry \<Rightarrow> u64 \<Rightarrow> VerifyingKey list" where
  "active_keys reg height =
     fold apply_change
       (sort_key vc_activation_height (filter (\<lambda>c. vc_activation_height c \<le> height) (reg_changes reg)))
       (reg_genesis reg)"

definition active_set :: "ValidatorRegistry \<Rightarrow> u64 \<Rightarrow> ValidatorSet option" where
  "active_set reg height = validator_set_bft (active_keys reg height)"

section \<open>Applying changes\<close>

lemma set_fold_remove_key: "set (fold remove_key rs keys) = set keys - set rs"
  by (induction rs arbitrary: keys) (auto simp: remove_key_def)

lemma distinct_fold_remove_key: "distinct keys \<Longrightarrow> distinct (fold remove_key rs keys)"
  by (induction rs arbitrary: keys) (auto simp: remove_key_def)

lemma set_fold_add_key: "set (fold add_key as keys) = set keys \<union> set as"
  by (induction as arbitrary: keys) (auto simp: add_key_def)

lemma distinct_fold_add_key: "distinct keys \<Longrightarrow> distinct (fold add_key as keys)"
  by (induction as arbitrary: keys) (auto simp: add_key_def)

lemma set_apply_change: "set (apply_change c keys) = (set keys - set (vc_removes c)) \<union> set (vc_adds c)"
  by (simp add: apply_change_def set_fold_add_key set_fold_remove_key)

lemma distinct_apply_change: "distinct keys \<Longrightarrow> distinct (apply_change c keys)"
  by (simp add: apply_change_def distinct_fold_add_key distinct_fold_remove_key)

lemma distinct_fold_apply_change: "distinct keys \<Longrightarrow> distinct (fold apply_change cs keys)"
  by (induction cs arbitrary: keys) (simp_all add: distinct_apply_change)

lemma fold_apply_change_keeps:
  "k \<in> set keys \<Longrightarrow> (\<And>c. c \<in> set cs \<Longrightarrow> k \<notin> set (vc_removes c)) \<Longrightarrow> k \<in> set (fold apply_change cs keys)"
  by (induction cs arbitrary: keys) (auto simp: set_apply_change)

lemma active_keys_record_future:
  "height < vc_activation_height c \<Longrightarrow> active_keys (registry_record reg c) height = active_keys reg height"
  by (auto simp: active_keys_def registry_record_def dest: leD)

lemma active_keys_fold_future:
  "(\<And>c. c \<in> set cs \<Longrightarrow> height < vc_activation_height c) \<Longrightarrow>
   active_keys (fold (\<lambda>c reg. registry_record reg c) cs reg) height = active_keys reg height"
  by (induction cs arbitrary: reg) (auto simp: active_keys_record_future)

lemma fold_registry_record:
  "fold (\<lambda>c reg. registry_record reg c) cs reg = reg\<lparr>reg_changes := reg_changes reg @ cs\<rparr>"
  by (induction cs arbitrary: reg) (simp_all add: registry_record_def)

section \<open>The authorization tally\<close>

interpretation gov: tally "authorize_loop P current msg" "vk_id P" "vs_contains current"
  "\<lambda>v s. vk_verify P v msg s ctx_GOVERNANCE" for P current msg
  by unfold_locales auto

definition approvers :: "prims \<Rightarrow> SignedValidatorChange \<Rightarrow> ValidatorSet \<Rightarrow> VerifyingKey set" where
  "approvers P g current =
     {vs_validator a | a. a \<in> set (svc_approvals g) \<and> vs_contains current (vs_validator a)
        \<and> vk_verify P (vs_validator a) (change_signing_bytes (svc_change g)) (vs_signature a) ctx_GOVERNANCE}"

lemma approvers_eq:
  "approvers P g current = gov.signers current P (change_signing_bytes (svc_change g)) (svc_approvals g)"
  by (simp add: approvers_def gov.signers_def)

lemma is_authorized_approvers:
  "is_authorized P g current \<Longrightarrow> set_threshold current \<le> card (approvers P g current)"
  using gov.loop_le_signers [where P = P and current = current
      and msg = "change_signing_bytes (svc_change g)" and as = "svc_approvals g"]
  by (auto simp: is_authorized_def approvers_eq split: if_splits)

end
