(* ===== verification/Notary_Proof.thy ===== *)
theory Notary_Proof
  imports Governance
begin

text \<open>
  The portable notarization proof (\<^verbatim>\<open>crates/ledger/src/proof.rs\<close>): extracting it from a block
  and verifying its three layers offline.
\<close>

type_synonym SlcBlock = "SignedValidatorChange Block"

record NotarizationProof =
  np_attestation :: Attestation
  np_path :: MerklePath
  np_header :: BlockHeader
  np_qc :: QuorumCertificate

definition proof_from_block :: "prims \<Rightarrow> SlcBlock \<Rightarrow> nat \<Rightarrow> NotarizationProof option" where
  "proof_from_block P block index =
     (let leaves = map (leaf_hash P) (blk_attestations block);
          tree = merkle_build P leaves
      in do {
        path \<leftarrow> merkle_proof tree index;
        attestation \<leftarrow> (if index < length (blk_attestations block)
                        then Some (blk_attestations block ! index) else None);
        Some \<lparr>np_attestation = attestation, np_path = path,
              np_header = blk_header block, np_qc = blk_qc block\<rparr>
      })"

definition proof_hash :: "NotarizationProof \<Rightarrow> Hash" where
  "proof_hash p = att_hash (np_attestation p)"

definition proof_timestamp :: "NotarizationProof \<Rightarrow> u64" where
  "proof_timestamp p = bh_timestamp (np_header p)"

definition proof_verify :: "prims \<Rightarrow> NotarizationProof \<Rightarrow> ValidatorSet \<Rightarrow> LedgerError + unit" where
  "proof_verify P p vset =
     (if \<not> attestation_verify P (np_attestation p) then Inl InvalidAttestation
      else if compute_root P (np_path p) (leaf_hash P (np_attestation p)) \<noteq> bh_merkle_root (np_header p)
      then Inl NotIncluded
      else case qc_verify P (np_qc p) (np_header p) vset of
        Inl e \<Rightarrow> Inl e | Inr _ \<Rightarrow> Inr ())"

lemma proof_verify_Inr_iff:
  "proof_verify P p vset = Inr () \<longleftrightarrow>
     attestation_verify P (np_attestation p)
     \<and> compute_root P (np_path p) (leaf_hash P (np_attestation p)) = bh_merkle_root (np_header p)
     \<and> qc_verify P (np_qc p) (np_header p) vset = Inr ()"
  by (auto simp: proof_verify_def split: sum.splits)

lemma proof_from_block_eq:
  assumes "i < length (blk_attestations b)"
  shows "\<exists>path. proof_from_block P b i =
      Some \<lparr>np_attestation = blk_attestations b ! i, np_path = path, np_header = blk_header b, np_qc = blk_qc b\<rparr>
    \<and> compute_root P path (leaf_hash P (blk_attestations b ! i))
        = merkle_root_of P (merkle_build P (map (leaf_hash P) (blk_attestations b)))"
proof -
  let ?leaves = "map (leaf_hash P) (blk_attestations b)"
  have i: "i < length ?leaves" using assms by simp
  have "merkle_root_of P (merkle_build P ?leaves) = pair_all (hash_node P) ?leaves ! 0"
    using i by (intro merkle_root_nonempty) auto
  with climb_proof_loop [OF i, of P] assms merkle_proof_in_range [OF i, of P] show ?thesis
    by (simp add: proof_from_block_def compute_root_def)
qed

lemma proof_from_block_None: "length (blk_attestations b) \<le> i \<Longrightarrow> proof_from_block P b i = None"
  by (simp add: proof_from_block_def merkle_proof_def levels_merkle_build)

end
