(* ===== verification/Messages.thy ===== *)
theory Messages
  imports Notary_Proof
begin

text \<open>
  The consensus messages of \<^verbatim>\<open>crates/consensus/src/messages.rs\<close>: candidate blocks and their
  validity, proposals, votes, the bytes they sign and the rule that a non-nil precommit signs
  the bare block id under the certificate's context.
\<close>

section \<open>Candidate blocks\<close>

record Proposed =
  pr_header :: BlockHeader
  pr_attestations :: "Attestation list"
  pr_governance :: "SignedValidatorChange list"

definition proposed_id :: "prims \<Rightarrow> Proposed \<Rightarrow> Hash" where
  "proposed_id P v = header_id P (pr_header v)"

definition proposed_is_valid :: "prims \<Rightarrow> Proposed \<Rightarrow> Hash \<Rightarrow> u64 \<Rightarrow> ValidatorSet \<Rightarrow> bool" where
  "proposed_is_valid P v tip height current =
     (if pr_attestations v = [] \<and> pr_governance v = [] then False
      else if bh_height (pr_header v) \<noteq> height \<or> bh_prev_hash (pr_header v) \<noteq> tip then False
      else if unat (bh_tx_count (pr_header v)) \<noteq> length (pr_attestations v) then False
      else if list_ex (\<lambda>a. \<not> attestation_verify P a) (pr_attestations v) then False
      else if merkle_root_of P (merkle_build P (map (leaf_hash P) (pr_attestations v)))
        \<noteq> bh_merkle_root (pr_header v) then False
      else if governance_root P (pr_governance v) \<noteq> bh_gov_root (pr_header v) then False
      else list_all (\<lambda>g. is_authorized P g current \<and> \<not> vc_activation_height (svc_change g) \<le> height)
        (pr_governance v))"

section \<open>Messages\<close>

datatype VoteType = VPrevote | VPrecommit

record ProposalMsg =
  pm_height :: u64
  pm_round :: u64
  pm_valid_round :: "u64 option"
  pm_value :: Proposed
  pm_proposer :: VerifyingKey
  pm_sig :: Signature

record VoteMsg =
  vm_height :: u64
  vm_round :: u64
  vm_vote_type :: VoteType
  vm_block_id :: "Hash option"
  vm_voter :: VerifyingKey
  vm_sig :: Signature

datatype ConsensusMsg = Proposal ProposalMsg | Vote VoteMsg

section \<open>What is signed\<close>

definition proposal_signing_bytes :: "u64 \<Rightarrow> u64 \<Rightarrow> Hash \<Rightarrow> u64 option \<Rightarrow> byte list" where
  "proposal_signing_bytes height round block_id valid_round =
     u64_be height @ u64_be round @ as_bytes block_id
     @ (case valid_round of Some vr \<Rightarrow> 1 # u64_be vr | None \<Rightarrow> [0])"

definition vote_signing_bytes :: "u64 \<Rightarrow> u64 \<Rightarrow> VoteType \<Rightarrow> Hash option \<Rightarrow> byte list" where
  "vote_signing_bytes height round vote_type block_id =
     u64_be height @ u64_be round
     @ [case vote_type of VPrevote \<Rightarrow> 0 | VPrecommit \<Rightarrow> 1]
     @ (case block_id of Some bid \<Rightarrow> 1 # as_bytes bid | None \<Rightarrow> [0])"

text \<open>\<open>None\<close> is the panic of \<^verbatim>\<open>expect\<close> when signing fails.\<close>

definition expect_ok :: "'e + 'a \<Rightarrow> 'a option" where
  "expect_ok r = (case r of Inl _ \<Rightarrow> None | Inr x \<Rightarrow> Some x)"

definition proposal_create ::
  "prims \<Rightarrow> SigningKey \<Rightarrow> VerifyingKey \<Rightarrow> u64 \<Rightarrow> u64 \<Rightarrow> u64 option \<Rightarrow> Proposed \<Rightarrow> ProposalMsg option" where
  "proposal_create P sk proposer height round valid_round value =
     do {
       sig \<leftarrow> expect_ok (sk_sign P sk
         (proposal_signing_bytes height round (proposed_id P value) valid_round) ctx_PROPOSAL);
       Some \<lparr>pm_height = height, pm_round = round, pm_valid_round = valid_round,
             pm_value = value, pm_proposer = proposer, pm_sig = sig\<rparr>
     }"

definition proposal_verify_sig :: "prims \<Rightarrow> ProposalMsg \<Rightarrow> bool" where
  "proposal_verify_sig P pm =
     vk_verify P (pm_proposer pm)
       (proposal_signing_bytes (pm_height pm) (pm_round pm) (proposed_id P (pm_value pm)) (pm_valid_round pm))
       (pm_sig pm) ctx_PROPOSAL"

definition sign_vote ::
  "prims \<Rightarrow> SigningKey \<Rightarrow> u64 \<Rightarrow> u64 \<Rightarrow> VoteType \<Rightarrow> Hash option \<Rightarrow> Signature option" where
  "sign_vote P sk height round vote_type block_id =
     expect_ok (case (vote_type, block_id) of
         (VPrecommit, Some bid) \<Rightarrow> sk_sign P sk (as_bytes bid) ctx_BLOCK
       | _ \<Rightarrow> sk_sign P sk (vote_signing_bytes height round vote_type block_id) ctx_VOTE)"

definition verify_vote ::
  "prims \<Rightarrow> VerifyingKey \<Rightarrow> u64 \<Rightarrow> u64 \<Rightarrow> VoteType \<Rightarrow> Hash option \<Rightarrow> Signature \<Rightarrow> bool" where
  "verify_vote P pk height round vote_type block_id sig =
     (case (vote_type, block_id) of
         (VPrecommit, Some bid) \<Rightarrow> vk_verify P pk (as_bytes bid) sig ctx_BLOCK
       | _ \<Rightarrow> vk_verify P pk (vote_signing_bytes height round vote_type block_id) sig ctx_VOTE)"

definition vote_create ::
  "prims \<Rightarrow> SigningKey \<Rightarrow> VerifyingKey \<Rightarrow> u64 \<Rightarrow> u64 \<Rightarrow> VoteType \<Rightarrow> Hash option \<Rightarrow> VoteMsg option" where
  "vote_create P sk voter height round vote_type block_id =
     do {
       sig \<leftarrow> sign_vote P sk height round vote_type block_id;
       Some \<lparr>vm_height = height, vm_round = round, vm_vote_type = vote_type,
             vm_block_id = block_id, vm_voter = voter, vm_sig = sig\<rparr>
     }"

definition vote_verify_sig :: "prims \<Rightarrow> VoteMsg \<Rightarrow> bool" where
  "vote_verify_sig P vm =
     verify_vote P (vm_voter vm) (vm_height vm) (vm_round vm) (vm_vote_type vm) (vm_block_id vm) (vm_sig vm)"

section \<open>Lemmas\<close>

lemma proposed_is_valid_iff:
  "proposed_is_valid P v tip height current \<longleftrightarrow>
     (pr_attestations v \<noteq> [] \<or> pr_governance v \<noteq> [])
     \<and> bh_height (pr_header v) = height \<and> bh_prev_hash (pr_header v) = tip
     \<and> unat (bh_tx_count (pr_header v)) = length (pr_attestations v)
     \<and> (\<forall>a\<in>set (pr_attestations v). attestation_verify P a)
     \<and> merkle_root_of P (merkle_build P (map (leaf_hash P) (pr_attestations v))) = bh_merkle_root (pr_header v)
     \<and> governance_root P (pr_governance v) = bh_gov_root (pr_header v)
     \<and> (\<forall>g\<in>set (pr_governance v). is_authorized P g current \<and> height < vc_activation_height (svc_change g))"
  by (auto simp: proposed_is_valid_def list_ex_iff list_all_iff not_le)

lemma expect_ok_Some [simp]: "expect_ok r = Some x \<longleftrightarrow> r = Inr x"
  by (auto simp: expect_ok_def split: sum.splits)

lemma vote_create_Some:
  assumes "vote_create P sk voter h r vt bid = Some vm"
  shows "vm_height vm = h" "vm_round vm = r" "vm_vote_type vm = vt" "vm_block_id vm = bid" "vm_voter vm = voter"
  using assms by (auto simp: vote_create_def bind_eq_Some_conv)

lemma vote_create_verifies:
  "mldsa_correct P sk pk \<Longrightarrow> vote_create P sk pk h r vt bid = Some vm \<Longrightarrow> vote_verify_sig P vm"
  by (auto simp: vote_create_def vote_verify_sig_def verify_vote_def sign_vote_def bind_eq_Some_conv
      sk_sign_verifies split: VoteType.splits option.splits)

lemma proposal_create_Some:
  assumes "proposal_create P sk proposer h r vr v = Some pm"
  shows "pm_height pm = h" "pm_round pm = r" "pm_valid_round pm = vr" "pm_value pm = v" "pm_proposer pm = proposer"
  using assms by (auto simp: proposal_create_def bind_eq_Some_conv)

lemma proposal_create_verifies:
  "mldsa_correct P sk pk \<Longrightarrow> proposal_create P sk pk h r vr v = Some pm \<Longrightarrow> proposal_verify_sig P pm"
  by (auto simp: proposal_create_def proposal_verify_sig_def bind_eq_Some_conv sk_sign_verifies)

lemma vote_signing_bytes_inject:
  assumes "vote_signing_bytes h r vt b = vote_signing_bytes h' r' vt' b'"
  shows "h = h' \<and> r = r' \<and> vt = vt' \<and> b = b'"
  using assms by (auto simp: vote_signing_bytes_def split: VoteType.splits option.splits)

lemma proposal_signing_bytes_inject:
  assumes "proposal_signing_bytes h r b vr = proposal_signing_bytes h' r' b' vr'"
    and "length (as_bytes b) = HASH_LEN" "length (as_bytes b') = HASH_LEN"
  shows "h = h' \<and> r = r' \<and> b = b' \<and> vr = vr'"
  using assms by (auto simp: proposal_signing_bytes_def split: option.splits)

end
