(* ===== verification/Engine_Advance.thy ===== *)
theory Engine_Advance
  imports Consensus_Engine
begin

text \<open>
  The rule loop \<^verbatim>\<open>advance\<close> of \<^verbatim>\<open>crates/consensus/src/engine.rs\<close>. The transition rules are
  first related to the step relation \<open>rule_step\<close>, one constructor per way a rule fires, which
  carries the proofs by rule induction here and in the invariants; then a lexicographic measure
  shows that the loop ends, whatever messages the engine holds.
\<close>

section \<open>The rules as a step relation\<close>

inductive rule_step :: "prims \<Rightarrow> Engine \<Rightarrow> Engine \<Rightarrow> Effect list \<Rightarrow> bool" for P where
  commit_rule: "hm_get (e_proposals e) r = Some pm \<Longrightarrow>
    e_quorum e \<le> count_precommits e r (MId (proposed_id P (pm_value pm))) \<Longrightarrow>
    proposed_is_valid P (pm_value pm) (e_tip e) (e_height e) (e_current_set e) \<Longrightarrow>
    commit P r (proposed_id P (pm_value pm)) (pm_value pm) e = Some (e', out) \<Longrightarrow>
    rule_step P e e' out"
| skip_rule: "e_round e < r \<Longrightarrow> r \<in> set (hm_keys (e_prevotes e) @ hm_keys (e_precommits e)) \<Longrightarrow>
    e_f e < card (store_ids (e_prevotes e) r \<union> store_ids (e_precommits e) r) \<Longrightarrow>
    start_round P r e = Some (e', out) \<Longrightarrow>
    rule_step P e e' out"
| prevote_rule: "e_step e = StPropose \<Longrightarrow> hm_get (e_proposals e) (e_round e) = Some pm \<Longrightarrow>
    (bid \<noteq> None \<Longrightarrow> bid = Some (proposed_id P (pm_value pm))
       \<and> proposed_is_valid P (pm_value pm) (e_tip e) (e_height e) (e_current_set e)
       \<and> (e_locked_round e = None \<or> locked_id P e = bid
          \<or> (\<exists>vr lr. pm_valid_round pm = Some vr \<and> vr < e_round e \<and> e_locked_round e = Some lr \<and> lr \<le> vr
                  \<and> e_quorum e \<le> count_prevotes e vr (MId (proposed_id P (pm_value pm)))))) \<Longrightarrow>
    emit_prevote P bid e = Some (e1, out) \<Longrightarrow>
    rule_step P e (e1\<lparr>e_step := StPrevote\<rparr>) out"
| prevote_timer: "e_step e = StPrevote \<Longrightarrow> e_round e \<notin> e_prevote_timeout_started e \<Longrightarrow>
    e_quorum e \<le> count_prevotes e (e_round e) MAny \<Longrightarrow>
    rule_step P e (e\<lparr>e_prevote_timeout_started := insert (e_round e) (e_prevote_timeout_started e)\<rparr>)
      [ScheduleTimeout (e_height e) (e_round e) ToPrevote]"
| polka_lock: "e_step e = StPrevote \<Longrightarrow> e_round e \<notin> e_polka_applied e \<Longrightarrow>
    hm_get (e_proposals e) (e_round e) = Some pm \<Longrightarrow>
    e_quorum e \<le> count_prevotes e (e_round e) (MId (proposed_id P (pm_value pm))) \<Longrightarrow>
    proposed_is_valid P (pm_value pm) (e_tip e) (e_height e) (e_current_set e) \<Longrightarrow>
    emit_precommit P (Some (proposed_id P (pm_value pm)))
      (e\<lparr>e_polka_applied := insert (e_round e) (e_polka_applied e),
         e_locked_value := Some (pm_value pm), e_locked_round := Some (e_round e)\<rparr>) = Some (e1, out) \<Longrightarrow>
    rule_step P e
      (e1\<lparr>e_step := StPrecommit, e_valid_value := Some (pm_value pm), e_valid_round := Some (e_round e)\<rparr>) out"
| polka_late: "e_step e = StPrecommit \<Longrightarrow> e_round e \<notin> e_polka_applied e \<Longrightarrow>
    hm_get (e_proposals e) (e_round e) = Some pm \<Longrightarrow>
    e_quorum e \<le> count_prevotes e (e_round e) (MId (proposed_id P (pm_value pm))) \<Longrightarrow>
    proposed_is_valid P (pm_value pm) (e_tip e) (e_height e) (e_current_set e) \<Longrightarrow>
    rule_step P e (e\<lparr>e_polka_applied := insert (e_round e) (e_polka_applied e),
        e_valid_value := Some (pm_value pm), e_valid_round := Some (e_round e)\<rparr>) []"
| precommit_nil_rule: "e_step e = StPrevote \<Longrightarrow> e_quorum e \<le> count_prevotes e (e_round e) MNil \<Longrightarrow>
    emit_precommit P None e = Some (e1, out) \<Longrightarrow>
    rule_step P e (e1\<lparr>e_step := StPrecommit\<rparr>) out"
| precommit_timer: "e_round e \<notin> e_precommit_timeout_started e \<Longrightarrow>
    e_quorum e \<le> count_precommits e (e_round e) MAny \<Longrightarrow>
    rule_step P e (e\<lparr>e_precommit_timeout_started := insert (e_round e) (e_precommit_timeout_started e)\<rparr>)
      [ScheduleTimeout (e_height e) (e_round e) ToPrecommit]"

text \<open>A rule that did not fire left the engine alone; one that fired took a step of the relation.\<close>

definition rule_sound :: "prims \<Rightarrow> (Engine \<Rightarrow> rule_result) \<Rightarrow> bool" where
  "rule_sound P f \<longleftrightarrow> (\<forall>e changed e' out. f e = Some (changed, e', out) \<longrightarrow>
     (if changed then rule_step P e e' out else e' = e \<and> out = []))"

lemma rule_soundI:
  "(\<And>e changed e' out. f e = Some (changed, e', out) \<Longrightarrow>
     (if changed then rule_step P e e' out else e' = e \<and> out = [])) \<Longrightarrow> rule_sound P f"
  by (simp add: rule_sound_def)

lemma rule_sound_or_else: "rule_sound P f \<Longrightarrow> rule_sound P g \<Longrightarrow> rule_sound P (or_else f g)"
proof (rule rule_soundI)
  fix e changed e' out
  assume f: "rule_sound P f" and g: "rule_sound P g" and "or_else f g e = Some (changed, e', out)"
  then obtain c1 e1 out1 where fe: "f e = Some (c1, e1, out1)"
    and rest: "if c1 then changed \<and> e' = e1 \<and> out = out1
      else (\<exists>out2. g e1 = Some (changed, e', out2) \<and> out = out1 @ out2)"
    by (auto simp: or_else_def bind_eq_Some_conv split: if_splits)
  show "if changed then rule_step P e e' out else e' = e \<and> out = []"
  proof (cases c1)
    case True
    with f fe rest show ?thesis by (auto simp: rule_sound_def)
  next
    case False
    with f fe have "e1 = e" "out1 = []" by (auto simp: rule_sound_def)
    with False g rest show ?thesis by (auto simp: rule_sound_def)
  qed
qed

lemma try_commit_loop_sound:
  assumes "try_commit_loop P cs e = Some (changed, e', out)"
    and "\<forall>(r, bid)\<in>set cs. \<forall>pm. hm_get (e_proposals e) r = Some pm \<longrightarrow> bid = proposed_id P (pm_value pm)"
  shows "if changed then rule_step P e e' out else e' = e \<and> out = []"
  using assms
proof (induction cs)
  case Nil
  then show ?case by simp
next
  case (Cons c cs)
  obtain r bid where c: "c = (r, bid)" by force
  from Cons.prems(2) have IH: "try_commit_loop P cs e = Some (changed, e', out) \<Longrightarrow> ?case"
    using Cons.IH by simp
  show ?case
  proof (cases "e_quorum e \<le> count_precommits e r (MId bid)")
    case q: True
    with Cons.prems(1) obtain pm where pm: "hm_get (e_proposals e) r = Some pm"
      by (auto simp: c bind_eq_Some_conv)
    with Cons.prems(2) have bid: "bid = proposed_id P (pm_value pm)" by (simp add: c)
    show ?thesis
    proof (cases "proposed_is_valid P (pm_value pm) (e_tip e) (e_height e) (e_current_set e)")
      case True
      with Cons.prems(1) q pm have "changed" and "commit P r bid (pm_value pm) e = Some (e', out)"
        by (auto simp: c bind_eq_Some_conv)
      with True q pm bid show ?thesis by (auto intro: rule_step.commit_rule)
    next
      case False
      with Cons.prems(1) q pm show ?thesis by (intro IH) (simp add: c)
    qed
  next
    case False
    with Cons.prems(1) show ?thesis by (intro IH) (simp add: c)
  qed
qed

lemma try_skip_loop_sound:
  assumes "try_skip_loop P rs e = Some (changed, e', out)"
    and "\<And>r. r \<in> set rs \<Longrightarrow> e_round e < r \<and> r \<in> set (hm_keys (e_prevotes e) @ hm_keys (e_precommits e))"
  shows "if changed then rule_step P e e' out else e' = e \<and> out = []"
  using assms
  by (induction rs) (auto simp: bind_eq_Some_conv split: if_splits intro!: rule_step.skip_rule)

lemma try_commit_sound: "rule_sound P (try_commit P)"
  unfolding try_commit_def
  by (rule rule_soundI, rule try_commit_loop_sound) (auto simp: hm_iter_def hm_get_def)

lemma try_skip_sound: "rule_sound P (try_skip P)"
  unfolding try_skip_def
  by (rule rule_soundI, rule try_skip_loop_sound) (auto simp: skip_rounds_def)

lemma prevote_for_step:
  assumes "prevote_for P (pm_value pm) acceptable e = Some (changed, e', out)"
    and "e_step e = StPropose" and "hm_get (e_proposals e) (e_round e) = Some pm"
    and "acceptable \<Longrightarrow> e_locked_round e = None \<or> locked_id P e = Some (proposed_id P (pm_value pm))
          \<or> (\<exists>vr lr. pm_valid_round pm = Some vr \<and> vr < e_round e \<and> e_locked_round e = Some lr \<and> lr \<le> vr
                  \<and> e_quorum e \<le> count_prevotes e vr (MId (proposed_id P (pm_value pm))))"
  shows "changed \<and> rule_step P e e' out"
proof -
  define bid where "bid = (if proposed_is_valid P (pm_value pm) (e_tip e) (e_height e) (e_current_set e)
    \<and> acceptable then Some (proposed_id P (pm_value pm)) else None)"
  from assms(1) obtain e1 where "changed" and e': "e' = e1\<lparr>e_step := StPrevote\<rparr>"
    and emit: "emit_prevote P bid e = Some (e1, out)"
    by (auto simp: prevote_for_def bid_def bind_eq_Some_conv Let_def)
  moreover have "rule_step P e (e1\<lparr>e_step := StPrevote\<rparr>) out"
    by (rule rule_step.prevote_rule [OF assms(2,3) _ emit])
      (use assms(4) in \<open>auto simp: bid_def split: if_splits\<close>)
  ultimately show ?thesis by simp
qed

lemma try_prevote_on_proposal_sound: "rule_sound P (try_prevote_on_proposal P)"
  by (rule rule_soundI)
    (auto simp: try_prevote_on_proposal_def split: if_splits option.splits dest: prevote_for_step)

lemma try_prevote_on_reproposal_sound: "rule_sound P (try_prevote_on_reproposal P)"
  by (rule rule_soundI)
    (auto simp: try_prevote_on_reproposal_def not_less
      split: if_splits option.splits dest: prevote_for_step)

lemma try_schedule_prevote_timeout_sound: "rule_sound P (try_schedule_prevote_timeout P)"
  by (rule rule_soundI)
    (auto simp: try_schedule_prevote_timeout_def split: if_splits intro: rule_step.prevote_timer)

lemma StPrevote_le: "StPrevote \<le> s \<longleftrightarrow> s = StPrevote \<or> s = StPrecommit"
  by (cases s) (auto simp: less_eq_Step_def)

lemma emit_precommit_round: "emit_precommit P bid e = Some (e', out) \<Longrightarrow> e_round e' = e_round e"
  by (auto simp: emit_precommit_def bind_eq_Some_conv)

lemma try_precommit_on_polka_sound: "rule_sound P (try_precommit_on_polka P)"
  by (rule rule_soundI)
    (auto simp: try_precommit_on_polka_def bind_eq_Some_conv Let_def StPrevote_le not_less
      emit_precommit_round
      split: if_splits option.splits intro: rule_step.polka_lock rule_step.polka_late)

lemma try_precommit_nil_sound: "rule_sound P (try_precommit_nil P)"
  by (rule rule_soundI)
    (auto simp: try_precommit_nil_def bind_eq_Some_conv split: if_splits
      intro: rule_step.precommit_nil_rule)

lemma try_schedule_precommit_timeout_sound: "rule_sound P (try_schedule_precommit_timeout P)"
  by (rule rule_soundI)
    (auto simp: try_schedule_precommit_timeout_def split: if_splits intro: rule_step.precommit_timer)

lemmas rules_sound = try_commit_sound try_skip_sound try_prevote_on_proposal_sound
  try_prevote_on_reproposal_sound try_schedule_prevote_timeout_sound try_precommit_on_polka_sound
  try_precommit_nil_sound try_schedule_precommit_timeout_sound

lemma advance_once_sound: "rule_sound P (advance_once P)"
  unfolding advance_once_def by (intro rule_sound_or_else rules_sound)

lemma advance_once_step: "advance_once P e = Some (True, e', out) \<Longrightarrow> rule_step P e e' out"
  using advance_once_sound [of P] by (auto simp: rule_sound_def split: if_splits)

lemma advance_once_stop: "advance_once P e = Some (False, e', out) \<Longrightarrow> e' = e \<and> out = []"
  using advance_once_sound [of P] by (auto simp: rule_sound_def split: if_splits)

section \<open>Termination of the rule loop\<close>

text \<open>
  Every rule lowers a lexicographic measure. A commit empties the proposals, so from then on every
  proposal is one the engine drew from its own pools (\<open>own_pool\<close>), and a further commit,
  which is never of an empty block, takes something out of them; a skip leaves fewer rounds
  above the current one; every other rule moves the step or sets a flag of the round.
\<close>

definition from_pool :: "Engine \<Rightarrow> Proposed \<Rightarrow> bool" where
  "from_pool e v \<longleftrightarrow> set (pr_attestations v) \<subseteq> set (e_mempool e) \<and> set (pr_governance v) \<subseteq> set (e_gov_mempool e)"

definition own_pool :: "Engine \<Rightarrow> bool" where
  "own_pool e \<longleftrightarrow> (\<forall>r pm. hm_get (e_proposals e) r = Some pm \<longrightarrow> from_pool e (pm_value pm))
     \<and> (\<forall>v. e_valid_value e = Some v \<longrightarrow> from_pool e v)"

definition rounds_above :: "Engine \<Rightarrow> u64 set" where
  "rounds_above e = {r \<in> set (hm_keys (e_prevotes e)) \<union> set (hm_keys (e_precommits e)). e_round e < r}"

definition round_work :: "Engine \<Rightarrow> nat" where
  "round_work e = 2 - step_rank (e_step e)
     + (if e_round e \<in> e_prevote_timeout_started e then 0 else 1)
     + (if e_round e \<in> e_precommit_timeout_started e then 0 else 1)
     + (if e_round e \<in> e_polka_applied e then 0 else 1)"

definition advance_order :: "(Engine \<times> Engine) set" where
  "advance_order = measures
     [\<lambda>e. if own_pool e then 0 else 1,
      \<lambda>e. length (e_mempool e) + length (e_gov_mempool e),
      \<lambda>e. card (rounds_above e),
      round_work]"

lemma wf_advance_order: "wf advance_order"
  by (simp add: advance_order_def)

lemma from_pool_get_value: "from_pool e (get_value P e)"
  by (auto simp: from_pool_def get_value_def Let_def dest: in_set_takeD)

lemma enter_propose_SomeE:
  assumes "enter_propose P r e = Some (e', out)"
  obtains (proposed) pm val vr where "is_proposer e r = Some True"
      "val = (case e_valid_value e of Some v \<Rightarrow> v | None \<Rightarrow> get_value P e)"
      "vr = (case e_valid_value e of Some v \<Rightarrow> e_valid_round e | None \<Rightarrow> None)"
      "pr_attestations val \<noteq> [] \<or> pr_governance val \<noteq> []"
      "proposal_create P (e_me_sk e) (e_me_pk e) (e_height e) r vr val = Some pm"
      "e' = e\<lparr>e_proposals := hm_or_insert r pm (e_proposals e)\<rparr>" "out = [Broadcast (Proposal pm)]"
    | (waits) "e' = e" "out = [ScheduleTimeout (e_height e) r ToPropose]"
  using assms
  by (auto simp: enter_propose_def bind_eq_Some_conv Let_def split: if_splits option.splits prod.splits)

lemma own_pool_enter_propose:
  assumes "own_pool e" and "enter_propose P r e = Some (e', out)"
  shows "own_pool e'"
  using assms(2)
proof (cases rule: enter_propose_SomeE)
  case (proposed pm val vr)
  have "from_pool e val"
    using assms(1) proposed(2) from_pool_get_value by (auto simp: own_pool_def split: option.splits)
  with assms(1) proposed(5,6) show ?thesis
    by (auto simp: own_pool_def from_pool_def hm_get_or_insert dest: proposal_create_Some split: if_splits)
next
  case waits
  with assms(1) show ?thesis by simp
qed

lemma enter_propose_frame:
  assumes "enter_propose P r e = Some (e', out)"
  shows "\<exists>props. e' = e\<lparr>e_proposals := props\<rparr>"
  using assms by (cases rule: enter_propose_SomeE) (auto intro: exI [of _ "e_proposals e"])

lemma start_round_frame:
  assumes "start_round P r e = Some (e', out)"
  shows "\<exists>props parked. e' = e\<lparr>e_round := r, e_step := StPropose, e_parked := parked, e_proposals := props\<rparr>"
proof (cases "r = 0 \<and> e_valid_value e = None \<and> e_mempool e = [] \<and> e_gov_mempool e = []")
  case True
  with assms have "e' = e\<lparr>e_round := r, e_step := StPropose, e_parked := True, e_proposals := e_proposals e\<rparr>"
    by (auto simp: start_round_def)
  then show ?thesis by blast
next
  case False
  with assms have "enter_propose P r (e\<lparr>e_round := r, e_step := StPropose, e_parked := False\<rparr>) = Some (e', out)"
    by (auto simp: start_round_def split: if_splits)
  from enter_propose_frame [OF this] show ?thesis by blast
qed

lemma own_pool_start_round:
  assumes "own_pool e" and "start_round P r e = Some (e', out)"
  shows "own_pool e'"
proof -
  have "own_pool (e\<lparr>e_round := r, e_step := StPropose, e_parked := b\<rparr>)" for b
    using assms(1) by (simp add: own_pool_def from_pool_def)
  with assms(2) show ?thesis
    by (auto simp: start_round_def Let_def split: if_splits dest: own_pool_enter_propose)
qed

text \<open>The engine at the next height, before its first round starts.\<close>

definition rolled :: "prims \<Rightarrow> Proposed \<Rightarrow> Hash \<Rightarrow> ValidatorSet \<Rightarrow> Engine \<Rightarrow> Engine" where
  "rolled P v bid s e = reset_height_state (e\<lparr>
     e_mempool := filter (\<lambda>a. leaf_hash P a \<notin> leaf_hash P ` set (pr_attestations v)) (e_mempool e),
     e_registry := record_governance (pr_governance v) (e_registry e),
     e_gov_mempool := filter (\<lambda>g. commitment P g \<notin> commitment P ` set (pr_governance v)) (e_gov_mempool e),
     e_height := e_height e + 1, e_tip := bid, e_current_set := s,
     e_validators_sorted := sort_key (vk_id P) (set_validators s)\<rparr>)"

lemma commit_SomeE:
  assumes "commit P r bid v e = Some (e', out)"
  obtains s out' where "active_set (record_governance (pr_governance v) (e_registry e)) (e_height e + 1) = Some s"
    "start_round P 0 (rolled P v bid s e) = Some (e', out')"
    "out = Committed \<lparr>blk_header = pr_header v, blk_attestations = pr_attestations v,
       blk_governance = pr_governance v, blk_qc = build_qc P e r bid\<rparr> # out'"
  using assms by (auto simp: commit_def Let_def reload_set_def rolled_def bind_eq_Some_conv)

lemma filter_image_less:
  "x \<in> set xs \<Longrightarrow> x \<in> S \<Longrightarrow> length (filter (\<lambda>a. f a \<notin> f ` S) xs) < length xs"
  by (rule length_filter_less [of x]) auto

lemma commit_decreases:
  assumes "commit P r bid v e = Some (e', out)"
    and "pr_attestations v \<noteq> [] \<or> pr_governance v \<noteq> []"
    and "own_pool e \<Longrightarrow> from_pool e v"
  shows "(e', e) \<in> advance_order"
  using assms(1)
proof (cases rule: commit_SomeE)
  case (1 s out')
  have "own_pool (rolled P v bid s e)" by (simp add: own_pool_def rolled_def reset_height_state_def)
  then have own: "own_pool e'" using 1(2) by (rule own_pool_start_round)
  have mp: "e_mempool e' = filter (\<lambda>a. leaf_hash P a \<notin> leaf_hash P ` set (pr_attestations v)) (e_mempool e)"
    and gp: "e_gov_mempool e' = filter (\<lambda>g. commitment P g \<notin> commitment P ` set (pr_governance v)) (e_gov_mempool e)"
    using start_round_frame [OF 1(2)] by (auto simp: rolled_def reset_height_state_def)
  have "length (e_mempool e') + length (e_gov_mempool e') < length (e_mempool e) + length (e_gov_mempool e)"
    if "from_pool e v"
  proof (cases "pr_attestations v")
    case (Cons a as)
    with that have "length (e_mempool e') < length (e_mempool e)"
      unfolding mp by (intro filter_image_less [of a]) (auto simp: from_pool_def)
    moreover have "length (e_gov_mempool e') \<le> length (e_gov_mempool e)" by (simp add: gp)
    ultimately show ?thesis by simp
  next
    case Nil
    with assms(2) obtain g gs where "pr_governance v = g # gs" by (cases "pr_governance v") auto
    with that have "length (e_gov_mempool e') < length (e_gov_mempool e)"
      unfolding gp by (intro filter_image_less [of g]) (auto simp: from_pool_def)
    moreover have "length (e_mempool e') \<le> length (e_mempool e)" by (simp add: mp)
    ultimately show ?thesis by simp
  qed
  with own assms(3) show ?thesis by (auto simp: advance_order_def)
qed

lemma skip_decreases:
  assumes "start_round P r e = Some (e', out)" and "e_round e < r"
    and "r \<in> set (hm_keys (e_prevotes e) @ hm_keys (e_precommits e))"
  shows "(e', e) \<in> advance_order"
proof -
  obtain props b where e': "e' = e\<lparr>e_round := r, e_step := StPropose, e_parked := b, e_proposals := props\<rparr>"
    using start_round_frame [OF assms(1)] by blast
  have "rounds_above e' \<subset> rounds_above e"
    using assms(2,3) by (auto simp: e' rounds_above_def)
  moreover have "finite (rounds_above e)" by (simp add: rounds_above_def)
  ultimately have "card (rounds_above e') < card (rounds_above e)" by (rule psubset_card_mono [rotated])
  then show ?thesis
    using own_pool_start_round [OF _ assms(1)] by (simp add: e' advance_order_def)
qed

lemma same_round_decreases:
  assumes "e_mempool e' = e_mempool e" "e_gov_mempool e' = e_gov_mempool e" "e_proposals e' = e_proposals e"
    and "e_valid_value e' = e_valid_value e
       \<or> (\<exists>r pm. hm_get (e_proposals e) r = Some pm \<and> e_valid_value e' = Some (pm_value pm))"
    and "rounds_above e' = rounds_above e" and "round_work e' < round_work e"
  shows "(e', e) \<in> advance_order"
proof -
  have "from_pool e' = from_pool e" using assms(1,2) by (simp add: from_pool_def fun_eq_iff)
  with assms(3,4) have "own_pool e \<Longrightarrow> own_pool e'" by (auto simp: own_pool_def)
  with assms show ?thesis by (simp add: advance_order_def)
qed

lemma hm_keys_store_own_vote: "set (hm_keys (store_own_vote P e vm st)) = insert (e_round e) (set (hm_keys st))"
  by (simp add: store_own_vote_def)

lemma rule_step_decreases: "rule_step P e e' out \<Longrightarrow> (e', e) \<in> advance_order"
proof (induction rule: rule_step.induct)
  case (commit_rule e r pm e' out)
  then show ?case
    by (intro commit_decreases) (auto simp: proposed_is_valid_iff own_pool_def)
next
  case (skip_rule e r e' out)
  then show ?case by (intro skip_decreases)
next
  case (prevote_rule e pm bid e1 out)
  then show ?case
    by (intro same_round_decreases)
      (auto simp: emit_prevote_def bind_eq_Some_conv rounds_above_def
        hm_keys_store_own_vote round_work_def)
next
  case (prevote_timer e)
  then show ?case
    by (intro same_round_decreases) (auto simp: rounds_above_def round_work_def)
next
  case (polka_lock e pm e1 out)
  then show ?case
    by (intro same_round_decreases)
      (auto simp: emit_precommit_def bind_eq_Some_conv rounds_above_def
        hm_keys_store_own_vote round_work_def)
next
  case (polka_late e pm)
  then show ?case
    by (intro same_round_decreases) (auto simp: rounds_above_def round_work_def)
next
  case (precommit_nil_rule e e1 out)
  then show ?case
    by (intro same_round_decreases)
      (auto simp: emit_precommit_def bind_eq_Some_conv rounds_above_def
        hm_keys_store_own_vote round_work_def)
next
  case (precommit_timer e)
  then show ?case
    by (intro same_round_decreases) (auto simp: rounds_above_def round_work_def)
qed

function advance :: "prims \<Rightarrow> Engine \<Rightarrow> (Engine \<times> Effect list) option" where
  "advance P e =
     (case advance_once P e of
        None \<Rightarrow> None
      | Some (changed, e1, out1) \<Rightarrow>
          if changed then do { (e2, out2) \<leftarrow> advance P e1; Some (e2, out1 @ out2) }
          else Some (e1, out1))"
  by pat_completeness auto
termination
  by (relation "inv_image advance_order snd")
    (auto simp: wf_advance_order intro: wf_inv_image rule_step_decreases dest: advance_once_step)

declare advance.simps [simp del]

text \<open>The loop stops only in a state where no rule is enabled.\<close>

lemma advance_quiescent: "advance P e = Some (e', out) \<Longrightarrow> advance_once P e' = Some (False, e', [])"
proof (induction P e arbitrary: out rule: advance.induct)
  case (1 P e)
  from "1.prems" obtain c e1 out1 where once: "advance_once P e = Some (c, e1, out1)"
    by (subst (asm) advance.simps) (auto split: option.splits)
  show ?case
  proof (cases c)
    case True
    with "1.prems" once obtain out2 where "advance P e1 = Some (e', out2)"
      by (subst (asm) advance.simps) (auto simp: bind_eq_Some_conv)
    with "1.IH" once True show ?thesis by blast
  next
    case False
    with once advance_once_stop [of P e e1 out1] "1.prems" show ?thesis
      by (subst (asm) advance.simps) auto
  qed
qed

end
