(* ===== verification/Engine_Handlers.thy ===== *)
theory Engine_Handlers
  imports Engine_Advance
begin

text \<open>
  The driver-facing operations of \<^verbatim>\<open>crates/consensus/src/engine.rs\<close>, each a step on the local
  state followed by the rule loop, and their decomposition into the atomic steps of
  \<open>engine_step\<close>, over which the invariants are proved by rule induction.
\<close>

section \<open>Operations\<close>

definition record_validator_change :: "prims \<Rightarrow> ValidatorChange \<Rightarrow> Engine \<Rightarrow> Engine option" where
  "record_validator_change P c e = reload_set P (e\<lparr>e_registry := registry_record (e_registry e) c\<rparr>)"

definition set_time :: "u64 \<Rightarrow> Engine \<Rightarrow> Engine" where
  "set_time now e = e\<lparr>e_now := now\<rparr>"

text \<open>A step followed by the rule loop, their effects in order.\<close>

definition then_advance :: "prims \<Rightarrow> (Engine \<times> Effect list) option \<Rightarrow> (Engine \<times> Effect list) option" where
  "then_advance P r =
     do { (e1, out1) \<leftarrow> r; (e2, out2) \<leftarrow> advance P e1; Some (e2, out1 @ out2) }"

definition add_attestation :: "prims \<Rightarrow> Attestation \<Rightarrow> Engine \<Rightarrow> (Engine \<times> Effect list) option" where
  "add_attestation P att e =
     (let e1 = e\<lparr>e_mempool := e_mempool e @ [att]\<rparr> in
      if e_parked e1 then then_advance P (unpark P e1) else Some (e1, []))"

definition governance_acceptable :: "prims \<Rightarrow> SignedValidatorChange \<Rightarrow> Engine \<Rightarrow> bool" where
  "governance_acceptable P change e \<longleftrightarrow>
     is_authorized P change (e_current_set e)
     \<and> e_height e < vc_activation_height (svc_change change)
     \<and> \<not> list_ex (\<lambda>g. commitment P g = commitment P change) (e_gov_mempool e)"

definition add_governance ::
  "prims \<Rightarrow> SignedValidatorChange \<Rightarrow> Engine \<Rightarrow> (bool \<times> Engine \<times> Effect list) option" where
  "add_governance P change e =
     (let ok = governance_acceptable P change e in
      if ok then
        (let e1 = e\<lparr>e_gov_mempool := e_gov_mempool e @ [change]\<rparr> in
         if e_parked e1 then
           do { (e2, out) \<leftarrow> then_advance P (unpark P e1); Some (ok, e2, out) }
         else Some (ok, e1, []))
      else Some (ok, e, []))"

datatype SyncError = WrongHeight u64 u64 | NotOnTip | StructurallyInvalid | BadCertificate LedgerError

definition block_value :: "SlcBlock \<Rightarrow> Proposed" where
  "block_value block = \<lparr>pr_header = blk_header block, pr_attestations = blk_attestations block,
     pr_governance = blk_governance block\<rparr>"

text \<open>The outer \<open>None\<close> is the panic of \<^verbatim>\<open>reload_set\<close> on an empty roster.\<close>

definition apply_synced_block :: "prims \<Rightarrow> SlcBlock \<Rightarrow> Engine \<Rightarrow> (SyncError + Engine) option" where
  "apply_synced_block P block e =
     (if bh_height (blk_header block) \<noteq> e_height e
      then Some (Inl (WrongHeight (e_height e) (bh_height (blk_header block))))
      else if bh_prev_hash (blk_header block) \<noteq> e_tip e then Some (Inl NotOnTip)
      else if \<not> proposed_is_valid P (block_value block) (e_tip e) (e_height e) (e_current_set e)
      then Some (Inl StructurallyInvalid)
      else case qc_verify P (blk_qc block) (blk_header block) (e_current_set e) of
        Inl err \<Rightarrow> Some (Inl (BadCertificate err))
      | Inr _ \<Rightarrow>
          (let sealed = leaf_hash P ` set (blk_attestations block) in
           do {
             e1 \<leftarrow> reload_set P
               (e\<lparr>e_registry := record_governance (blk_governance block) (e_registry e),
                  e_mempool := filter (\<lambda>a. leaf_hash P a \<notin> sealed) (e_mempool e),
                  e_height := e_height e + 1, e_tip := header_id P (blk_header block)\<rparr>);
             Some (Inr ((reset_height_state e1)\<lparr>e_parked := False\<rparr>))
           }))"

definition start :: "prims \<Rightarrow> Engine \<Rightarrow> (Engine \<times> Effect list) option" where
  "start P e = then_advance P (start_round P 0 e)"

definition resume :: "prims \<Rightarrow> Engine \<Rightarrow> (Engine \<times> Effect list) option" where
  "resume P e = then_advance P (start_round P 0 e)"

definition own_stored_vote :: "prims \<Rightarrow> Engine \<Rightarrow> vote_store \<Rightarrow> VoteMsg option" where
  "own_stored_vote P e store =
     do { m \<leftarrow> hm_get store (e_round e); hm_get m (vk_id P (e_me_pk e)) }"

definition regossip :: "prims \<Rightarrow> Engine \<Rightarrow> Effect list" where
  "regossip P e =
     (if e_parked e then []
      else (case hm_get (e_proposals e) (e_round e) of
              None \<Rightarrow> []
            | Some pm \<Rightarrow> if pm_proposer pm = e_me_pk e then [Broadcast (Proposal pm)] else [])
        @ (case own_stored_vote P e (e_prevotes e) of None \<Rightarrow> [] | Some vm \<Rightarrow> [Broadcast (Vote vm)])
        @ (case own_stored_vote P e (e_precommits e) of None \<Rightarrow> [] | Some vm \<Rightarrow> [Broadcast (Vote vm)]))"

definition ingest :: "prims \<Rightarrow> ConsensusMsg \<Rightarrow> Engine \<Rightarrow> Engine option" where
  "ingest P msg e =
     (case msg of Proposal pm \<Rightarrow> ingest_proposal P pm e | Vote vm \<Rightarrow> Some (ingest_vote P vm e))"

definition on_message :: "prims \<Rightarrow> ConsensusMsg \<Rightarrow> Engine \<Rightarrow> (Engine \<times> Effect list) option" where
  "on_message P msg e =
     (let wake = (case msg of Proposal pm \<Rightarrow> pm_height pm = e_height e | Vote _ \<Rightarrow> False) in
      do {
        e1 \<leftarrow> ingest P msg e;
        then_advance P
          (if e_parked e1 \<and> wake \<and> hm_get (e_proposals e1) (e_round e1) \<noteq> None
           then unpark P e1 else Some (e1, []))
      })"

definition timeout_action :: "prims \<Rightarrow> TimeoutKind \<Rightarrow> Engine \<Rightarrow> (Engine \<times> Effect list) option" where
  "timeout_action P kind e =
     (case kind of
        ToPropose \<Rightarrow>
          if e_step e = StPropose
          then do { (e1, out) \<leftarrow> emit_prevote P None e; Some (e1\<lparr>e_step := StPrevote\<rparr>, out) }
          else Some (e, [])
      | ToPrevote \<Rightarrow>
          if e_step e = StPrevote
          then do { (e1, out) \<leftarrow> emit_precommit P None e; Some (e1\<lparr>e_step := StPrecommit\<rparr>, out) }
          else Some (e, [])
      | ToPrecommit \<Rightarrow> start_round P (e_round e + 1) e)"

definition on_timeout ::
  "prims \<Rightarrow> u64 \<Rightarrow> u64 \<Rightarrow> TimeoutKind \<Rightarrow> Engine \<Rightarrow> (Engine \<times> Effect list) option" where
  "on_timeout P height round kind e =
     then_advance P
       (if height = e_height e \<and> round = e_round e then timeout_action P kind e else Some (e, []))"

section \<open>Atomic steps\<close>

text \<open>
  A round is entered from its propose step only where the driver calls \<^verbatim>\<open>start\<close> or
  \<^verbatim>\<open>resume\<close>: on a fresh engine or right after a synced block. A step is labelled with the
  effects it emits; adopting a finalized block from a peer, which emits none, is labelled with
  the block, so that the labels of a run list the blocks the engine has built on, in order. What
  comes in from other nodes, a message or a finalized block, is restricted by a predicate \<open>F\<close>: the
  assumptions on the environment.
\<close>

datatype Input = InMsg ConsensusMsg | InBlock SlcBlock

inductive fed_step :: "(Input \<Rightarrow> bool) \<Rightarrow> prims \<Rightarrow> Engine \<Rightarrow> Engine \<Rightarrow> Effect list \<Rightarrow> bool" for F P where
  by_rule: "rule_step P e e' out \<Longrightarrow> fed_step F P e e' out"
| by_entry: "e_round e = 0 \<Longrightarrow> e_step e = StPropose \<Longrightarrow> start_round P 0 e = Some (e', out) \<Longrightarrow>
    fed_step F P e e' out"
| by_unpark: "unpark P e = Some (e', out) \<Longrightarrow> fed_step F P e e' out"
| by_timeout: "timeout_action P kind e = Some (e', out) \<Longrightarrow> (kind = ToPrecommit \<Longrightarrow> e_round e \<noteq> - 1) \<Longrightarrow>
    fed_step F P e e' out"
| by_message: "ingest P msg e = Some e' \<Longrightarrow> F (InMsg msg) \<Longrightarrow> fed_step F P e e' []"
| by_attestation: "fed_step F P e (e\<lparr>e_mempool := e_mempool e @ [att]\<rparr>) []"
| by_governance: "governance_acceptable P g e \<Longrightarrow>
    fed_step F P e (e\<lparr>e_gov_mempool := e_gov_mempool e @ [g]\<rparr>) []"
| by_clock: "fed_step F P e (set_time now e) []"
| by_sync: "apply_synced_block P block e = Some (Inr e') \<Longrightarrow> F (InBlock block) \<Longrightarrow>
    fed_step F P e e' [Committed block]"

inductive fed_steps :: "(Input \<Rightarrow> bool) \<Rightarrow> prims \<Rightarrow> Engine \<Rightarrow> Engine \<Rightarrow> Effect list \<Rightarrow> bool" for F P where
  idle: "fed_steps F P e e []"
| more: "fed_steps F P e e1 out1 \<Longrightarrow> fed_step F P e1 e2 out2 \<Longrightarrow> fed_steps F P e e2 (out1 @ out2)"

text \<open>An engine in any environment.\<close>

abbreviation engine_step :: "prims \<Rightarrow> Engine \<Rightarrow> Engine \<Rightarrow> Effect list \<Rightarrow> bool" where
  "engine_step \<equiv> fed_step (\<lambda>_. True)"

abbreviation engine_steps :: "prims \<Rightarrow> Engine \<Rightarrow> Engine \<Rightarrow> Effect list \<Rightarrow> bool" where
  "engine_steps \<equiv> fed_steps (\<lambda>_. True)"

lemma fed_step_any: "fed_step F P e e' out \<Longrightarrow> engine_step P e e' out"
  by (induction rule: fed_step.induct) (auto intro: fed_step.intros)

lemma fed_steps_any: "fed_steps F P e e' out \<Longrightarrow> engine_steps P e e' out"
  by (induction rule: fed_steps.induct) (auto intro: fed_steps.intros fed_step_any)

lemma fed_steps_single: "fed_step F P e e' out \<Longrightarrow> fed_steps F P e e' out"
  using fed_steps.more [OF fed_steps.idle] by fastforce

lemma fed_steps_trans:
  "fed_steps F P e1 e2 out2 \<Longrightarrow> fed_steps F P e e1 out1 \<Longrightarrow> fed_steps F P e e2 (out1 @ out2)"
proof (induction arbitrary: out1 rule: fed_steps.induct)
  case (idle e1)
  then show ?case by simp
next
  case (more e1 e2 out2 e3 out3)
  from fed_steps.more [OF more.IH [OF more.prems] more.hyps(2)] show ?case by simp
qed

lemma advance_steps: "advance P e = Some (e', out) \<Longrightarrow> fed_steps F P e e' out"
proof (induction P e arbitrary: out rule: advance.induct)
  case (1 P e)
  from "1.prems" obtain c e1 out1 where once: "advance_once P e = Some (c, e1, out1)"
    by (subst (asm) advance.simps) (auto split: option.splits)
  show ?case
  proof (cases c)
    case True
    with "1.prems" once obtain out2 where rest: "advance P e1 = Some (e', out2)" and out: "out = out1 @ out2"
      by (subst (asm) advance.simps) (auto simp: bind_eq_Some_conv)
    have "fed_steps F P e e1 out1"
      using once True by (auto intro: fed_steps_single fed_step.by_rule advance_once_step)
    moreover have "fed_steps F P e1 e' out2" using "1.IH" once True rest by blast
    ultimately show ?thesis unfolding out by (rule fed_steps_trans [rotated])
  next
    case False
    with once advance_once_stop [of P e e1 out1] "1.prems" show ?thesis
      by (subst (asm) advance.simps) (auto intro: fed_steps.idle)
  qed
qed

lemma then_advance_SomeE:
  assumes "then_advance P r = Some (e', out)"
  obtains e1 out1 out2 where "r = Some (e1, out1)" "advance P e1 = Some (e', out2)" "out = out1 @ out2"
  using assms by (auto simp: then_advance_def bind_eq_Some_conv)

lemma then_advance_steps:
  assumes "then_advance P r = Some (e', out)"
    and "\<And>e1 out1. r = Some (e1, out1) \<Longrightarrow> fed_steps F P e e1 out1"
  shows "fed_steps F P e e' out"
  using assms(1)
  by (rule then_advance_SomeE) (auto intro: fed_steps_trans advance_steps assms(2))

lemma start_steps:
  "start P e = Some (e', out) \<Longrightarrow> e_round e = 0 \<Longrightarrow> e_step e = StPropose \<Longrightarrow> fed_steps F P e e' out"
  unfolding start_def by (erule then_advance_steps) (auto intro: fed_steps_single fed_step.by_entry)

lemma resume_steps:
  "resume P e = Some (e', out) \<Longrightarrow> e_round e = 0 \<Longrightarrow> e_step e = StPropose \<Longrightarrow> fed_steps F P e e' out"
  unfolding resume_def by (erule then_advance_steps) (auto intro: fed_steps_single fed_step.by_entry)

lemma add_attestation_steps:
  assumes "add_attestation P att e = Some (e', out)"
  shows "fed_steps F P e e' out"
proof -
  let ?e1 = "e\<lparr>e_mempool := e_mempool e @ [att]\<rparr>"
  have push: "fed_steps F P e ?e1 []" by (rule fed_steps_single [OF fed_step.by_attestation])
  show ?thesis
  proof (cases "e_parked e")
    case True
    with assms have "then_advance P (unpark P ?e1) = Some (e', out)" by (simp add: add_attestation_def)
    then have "fed_steps F P ?e1 e' out"
      by (rule then_advance_steps) (auto intro: fed_steps_single fed_step.by_unpark)
    from fed_steps_trans [OF this push] show ?thesis by simp
  next
    case False
    with assms push show ?thesis by (auto simp: add_attestation_def)
  qed
qed

lemma add_governance_steps:
  assumes "add_governance P g e = Some (ok, e', out)"
  shows "fed_steps F P e e' out"
proof (cases "governance_acceptable P g e")
  case acc: True
  let ?e1 = "e\<lparr>e_gov_mempool := e_gov_mempool e @ [g]\<rparr>"
  have push: "fed_steps F P e ?e1 []"
    by (rule fed_steps_single [OF fed_step.by_governance [OF acc]])
  show ?thesis
  proof (cases "e_parked e")
    case True
    with assms acc have "then_advance P (unpark P ?e1) = Some (e', out)"
      by (auto simp: add_governance_def bind_eq_Some_conv)
    then have "fed_steps F P ?e1 e' out"
      by (rule then_advance_steps) (auto intro: fed_steps_single fed_step.by_unpark)
    from fed_steps_trans [OF this push] show ?thesis by simp
  next
    case False
    with assms acc push show ?thesis by (auto simp: add_governance_def)
  qed
next
  case False
  with assms show ?thesis by (auto simp: add_governance_def intro: fed_steps.idle)
qed

lemma on_message_steps:
  assumes "on_message P msg e = Some (e', out)" and fed: "F (InMsg msg)"
  shows "fed_steps F P e e' out"
proof -
  from assms(1) obtain e1 r where ing: "ingest P msg e = Some e1"
    and adv: "then_advance P r = Some (e', out)" and r: "r = unpark P e1 \<or> r = Some (e1, [])"
    by (auto simp: on_message_def bind_eq_Some_conv split: if_splits)
  from adv r have "fed_steps F P e1 e' out"
    by (elim then_advance_steps) (auto intro: fed_steps_single fed_step.by_unpark [OF sym] fed_steps.idle)
  from fed_steps_trans [OF this fed_steps_single [OF fed_step.by_message [of P msg e e1 F, OF ing fed]]]
  show ?thesis by simp
qed

lemma on_timeout_steps:
  assumes "on_timeout P h r kind e = Some (e', out)" and "r \<noteq> - 1"
  shows "fed_steps F P e e' out"
  using assms(1) unfolding on_timeout_def
  by (rule then_advance_steps)
    (use assms(2) in \<open>auto intro: fed_steps_single fed_step.by_timeout fed_steps.idle split: if_splits\<close>)

lemma set_time_steps: "fed_steps F P e (set_time now e) []"
  by (rule fed_steps_single [OF fed_step.by_clock])

lemma apply_synced_block_steps:
  "apply_synced_block P b e = Some (Inr e') \<Longrightarrow> F (InBlock b) \<Longrightarrow> fed_steps F P e e' [Committed b]"
  by (rule fed_steps_single [OF fed_step.by_sync])

lemmas handler_steps = start_steps resume_steps add_attestation_steps add_governance_steps
  on_message_steps on_timeout_steps set_time_steps apply_synced_block_steps

end
