(* ===== verification/Engine_Inv.thy ===== *)
theory Engine_Inv
  imports Engine_Handlers
begin

text \<open>
  The invariant of the consensus engine and its preservation by every atomic step: the current
  set is the registry's set at the height, the stored votes are signed votes of this height
  filed under their round and their voter's id, the stored proposals come from the round's
  designated proposer, and the locked and valid values are valid blocks of earlier rounds.
\<close>

section \<open>The invariant\<close>

definition vote_ok :: "prims \<Rightarrow> u64 \<Rightarrow> VerifyingKey \<Rightarrow> ValidatorSet \<Rightarrow> VoteType \<Rightarrow> u64 \<Rightarrow> Hash \<Rightarrow> VoteMsg \<Rightarrow> bool" where
  "vote_ok P h me vset vt r k vm \<longleftrightarrow>
     k = vk_id P (vm_voter vm) \<and> vm_height vm = h \<and> vm_round vm = r \<and> vm_vote_type vm = vt
     \<and> vote_verify_sig P vm \<and> (vs_contains vset (vm_voter vm) \<or> vm_voter vm = me)"

definition store_ok :: "prims \<Rightarrow> u64 \<Rightarrow> VerifyingKey \<Rightarrow> ValidatorSet \<Rightarrow> VoteType \<Rightarrow> vote_store \<Rightarrow> bool" where
  "store_ok P h me vset vt store \<longleftrightarrow>
     (\<forall>r m. hm_get store r = Some m \<longrightarrow>
        hm_wf m \<and> (\<forall>k vm. hm_get m k = Some vm \<longrightarrow> vote_ok P h me vset vt r k vm))"

definition proposal_ok :: "prims \<Rightarrow> u64 \<Rightarrow> VerifyingKey list \<Rightarrow> u64 \<Rightarrow> ProposalMsg \<Rightarrow> bool" where
  "proposal_ok P h roster r pm \<longleftrightarrow>
     pm_height pm = h \<and> pm_round pm = r \<and> proposal_verify_sig P pm
     \<and> roster \<noteq> [] \<and> pm_proposer pm = roster ! (unat (h + r) mod length roster)"

definition proposals_ok :: "prims \<Rightarrow> u64 \<Rightarrow> VerifyingKey list \<Rightarrow> (u64, ProposalMsg) hashmap \<Rightarrow> bool" where
  "proposals_ok P h roster props \<longleftrightarrow> (\<forall>r pm. hm_get props r = Some pm \<longrightarrow> proposal_ok P h roster r pm)"

definition roster_ok :: "prims \<Rightarrow> Engine \<Rightarrow> bool" where
  "roster_ok P e \<longleftrightarrow> active_set (e_registry e) (e_height e) = Some (e_current_set e)
     \<and> e_validators_sorted e = sort_key (vk_id P) (set_validators (e_current_set e))"

definition locks_ok :: "prims \<Rightarrow> Engine \<Rightarrow> bool" where
  "locks_ok P e \<longleftrightarrow>
     (e_locked_value e = None \<longleftrightarrow> e_locked_round e = None)
     \<and> (e_valid_value e = None \<longleftrightarrow> e_valid_round e = None)
     \<and> (\<forall>lr. e_locked_round e = Some lr \<longrightarrow> (\<exists>vr. e_valid_round e = Some vr \<and> lr \<le> vr))
     \<and> (\<forall>vr. e_valid_round e = Some vr \<longrightarrow> vr \<le> e_round e)
     \<and> (\<forall>v. e_locked_value e = Some v \<or> e_valid_value e = Some v \<longrightarrow>
           proposed_is_valid P v (e_tip e) (e_height e) (e_current_set e))"

definition engine_inv :: "prims \<Rightarrow> Engine \<Rightarrow> bool" where
  "engine_inv P e \<longleftrightarrow>
     mldsa_correct P (e_me_sk e) (e_me_pk e) \<and> roster_ok P e \<and> locks_ok P e
     \<and> store_ok P (e_height e) (e_me_pk e) (e_current_set e) VPrevote (e_prevotes e)
     \<and> store_ok P (e_height e) (e_me_pk e) (e_current_set e) VPrecommit (e_precommits e)
     \<and> proposals_ok P (e_height e) (e_validators_sorted e) (e_proposals e)"

section \<open>Building blocks\<close>

lemma roster_ok_frame [simp]:
  "roster_ok P (e\<lparr>e_proposals := x0\<rparr>) = roster_ok P e"
  "roster_ok P (e\<lparr>e_prevotes := x1\<rparr>) = roster_ok P e"
  "roster_ok P (e\<lparr>e_precommits := x2\<rparr>) = roster_ok P e"
  "roster_ok P (e\<lparr>e_step := x3\<rparr>) = roster_ok P e"
  "roster_ok P (e\<lparr>e_parked := x4\<rparr>) = roster_ok P e"
  "roster_ok P (e\<lparr>e_now := x5\<rparr>) = roster_ok P e"
  "roster_ok P (e\<lparr>e_mempool := x6\<rparr>) = roster_ok P e"
  "roster_ok P (e\<lparr>e_gov_mempool := x7\<rparr>) = roster_ok P e"
  "roster_ok P (e\<lparr>e_prevote_timeout_started := x8\<rparr>) = roster_ok P e"
  "roster_ok P (e\<lparr>e_precommit_timeout_started := x9\<rparr>) = roster_ok P e"
  "roster_ok P (e\<lparr>e_polka_applied := x10\<rparr>) = roster_ok P e"
  "roster_ok P (e\<lparr>e_round := x11\<rparr>) = roster_ok P e"
  "roster_ok P (e\<lparr>e_locked_value := x12\<rparr>) = roster_ok P e"
  "roster_ok P (e\<lparr>e_locked_round := x13\<rparr>) = roster_ok P e"
  "roster_ok P (e\<lparr>e_valid_value := x14\<rparr>) = roster_ok P e"
  "roster_ok P (e\<lparr>e_valid_round := x15\<rparr>) = roster_ok P e"
  by (simp_all add: roster_ok_def)

lemma locks_ok_frame [simp]:
  "locks_ok P (e\<lparr>e_proposals := x0\<rparr>) = locks_ok P e"
  "locks_ok P (e\<lparr>e_prevotes := x1\<rparr>) = locks_ok P e"
  "locks_ok P (e\<lparr>e_precommits := x2\<rparr>) = locks_ok P e"
  "locks_ok P (e\<lparr>e_step := x3\<rparr>) = locks_ok P e"
  "locks_ok P (e\<lparr>e_parked := x4\<rparr>) = locks_ok P e"
  "locks_ok P (e\<lparr>e_now := x5\<rparr>) = locks_ok P e"
  "locks_ok P (e\<lparr>e_mempool := x6\<rparr>) = locks_ok P e"
  "locks_ok P (e\<lparr>e_gov_mempool := x7\<rparr>) = locks_ok P e"
  "locks_ok P (e\<lparr>e_prevote_timeout_started := x8\<rparr>) = locks_ok P e"
  "locks_ok P (e\<lparr>e_precommit_timeout_started := x9\<rparr>) = locks_ok P e"
  "locks_ok P (e\<lparr>e_polka_applied := x10\<rparr>) = locks_ok P e"
  by (simp_all add: locks_ok_def)

lemma store_ok_Nil [simp]: "store_ok P h me vset vt []"
  by (simp add: store_ok_def)

lemma proposals_ok_Nil [simp]: "proposals_ok P h roster []"
  by (simp add: proposals_ok_def)

lemma store_ok_slot:
  assumes "store_ok P h me vset vt st"
  shows "hm_wf (case hm_get st r of None \<Rightarrow> [] | Some m \<Rightarrow> m)"
    and "hm_get (case hm_get st r of None \<Rightarrow> [] | Some m \<Rightarrow> m) k = Some vm \<Longrightarrow> vote_ok P h me vset vt r k vm"
  using assms by (auto simp: store_ok_def split: option.splits)

lemma store_ok_put:
  assumes "store_ok P h me vset vt st" and "hm_wf m"
    and "\<And>k vm. hm_get m k = Some vm \<Longrightarrow> vote_ok P h me vset vt r k vm"
  shows "store_ok P h me vset vt (hm_insert r m st)"
  using assms by (auto simp: store_ok_def)

lemma store_ok_own:
  assumes st: "store_ok P (e_height e) (e_me_pk e) vset vt st"
    and "mldsa_correct P (e_me_sk e) (e_me_pk e)"
    and "vote_create P (e_me_sk e) (e_me_pk e) (e_height e) (e_round e) vt bid = Some vm"
  shows "store_ok P (e_height e) (e_me_pk e) vset vt (store_own_vote P e vm st)"
proof -
  have "vote_ok P (e_height e) (e_me_pk e) vset vt (e_round e) (vk_id P (e_me_pk e)) vm"
    using vote_create_Some [OF assms(3)] vote_create_verifies [OF assms(2,3)] by (simp add: vote_ok_def)
  then show ?thesis
    unfolding store_own_vote_def
    by (intro store_ok_put [OF st]) (auto simp: store_ok_slot [OF st] split: if_splits)
qed

lemma store_ok_ingest:
  assumes st: "store_ok P h me vset (vm_vote_type vm) st"
    and "vm_height vm = h" "vs_contains vset (vm_voter vm)" "vote_verify_sig P vm"
  shows "store_ok P h me vset (vm_vote_type vm) (store_vote P vm st)"
proof -
  have "vote_ok P h me vset (vm_vote_type vm) (vm_round vm) (vk_id P (vm_voter vm)) vm"
    using assms by (simp add: vote_ok_def)
  then show ?thesis
    unfolding store_vote_def
    by (intro store_ok_put [OF st])
      (auto simp: store_ok_slot [OF st] hm_get_or_insert split: if_splits)
qed

lemma engine_inv_emit_prevote:
  "engine_inv P e \<Longrightarrow> emit_prevote P bid e = Some (e1, out) \<Longrightarrow> engine_inv P (e1\<lparr>e_step := s\<rparr>)"
  by (auto simp: engine_inv_def emit_prevote_def bind_eq_Some_conv store_ok_own)

lemma engine_inv_emit_precommit:
  "engine_inv P e \<Longrightarrow> emit_precommit P bid e = Some (e1, out) \<Longrightarrow> engine_inv P (e1\<lparr>e_step := s\<rparr>)"
  by (auto simp: engine_inv_def emit_precommit_def bind_eq_Some_conv store_ok_own)

lemma engine_inv_enter_propose:
  assumes inv: "engine_inv P e" and "enter_propose P r e = Some (e', out)"
  shows "engine_inv P e'"
  using assms(2)
proof (cases rule: enter_propose_SomeE)
  case (proposed pm val vr)
  from proposed(1) have "e_validators_sorted e \<noteq> []"
    and "e_me_pk e = e_validators_sorted e ! (unat (e_height e + r) mod length (e_validators_sorted e))"
    by (auto simp: is_proposer_def proposer_def e_n_def bind_eq_Some_conv split: if_splits)
  moreover have "proposal_verify_sig P pm"
    using inv proposed(5) by (auto simp: engine_inv_def intro: proposal_create_verifies)
  ultimately have "proposal_ok P (e_height e) (e_validators_sorted e) r pm"
    using proposal_create_Some [OF proposed(5)] by (simp add: proposal_ok_def)
  with inv proposed(6) show ?thesis
    by (auto simp: engine_inv_def proposals_ok_def hm_get_or_insert split: if_splits)
next
  case waits
  with inv show ?thesis by simp
qed

lemma locks_ok_later:
  assumes "locks_ok P e" and "e_round e \<le> r"
  shows "locks_ok P (e\<lparr>e_round := r, e_step := s, e_parked := b\<rparr>)"
  using assms by (auto simp: locks_ok_def)

lemma engine_inv_start_round:
  assumes inv: "engine_inv P e" and "e_round e \<le> r" and "start_round P r e = Some (e', out)"
  shows "engine_inv P e'"
proof -
  have "engine_inv P (e\<lparr>e_round := r, e_step := StPropose, e_parked := b\<rparr>)" for b
    using inv locks_ok_later [OF _ assms(2)] by (auto simp: engine_inv_def roster_ok_def)
  with assms(3) show ?thesis
    by (auto simp: start_round_def Let_def split: if_splits dest: engine_inv_enter_propose)
qed

lemma engine_inv_unpark:
  assumes "engine_inv P e" and "unpark P e = Some (e', out)"
  shows "engine_inv P e'"
proof -
  have "engine_inv P (e\<lparr>e_parked := b\<rparr>)" for b
    using assms(1) by (auto simp: engine_inv_def)
  with assms show ?thesis by (auto simp: unpark_def split: if_splits dest: engine_inv_enter_propose)
qed

lemma ingest_proposal_cases:
  assumes "ingest_proposal P pm e = Some e'"
  obtains "e' = e"
  | "pm_height pm = e_height e" "proposer e (pm_round pm) = Some (pm_proposer pm)" "proposal_verify_sig P pm"
    "e' = e\<lparr>e_proposals := hm_or_insert (pm_round pm) pm (e_proposals e)\<rparr>"
proof (cases "pm_height pm = e_height e")
  case True
  with assms obtain p where p: "proposer e (pm_round pm) = Some p"
    and e': "(if p \<noteq> pm_proposer pm \<or> \<not> proposal_verify_sig P pm then Some e
      else Some (e\<lparr>e_proposals := hm_or_insert (pm_round pm) pm (e_proposals e)\<rparr>)) = Some e'"
    by (auto simp: ingest_proposal_def bind_eq_Some_conv)
  show ?thesis
  proof (cases "p = pm_proposer pm \<and> proposal_verify_sig P pm")
    case ok: True
    with e' have "e' = e\<lparr>e_proposals := hm_or_insert (pm_round pm) pm (e_proposals e)\<rparr>" by simp
    with True ok p show ?thesis by (intro that(2)) simp_all
  next
    case False
    with e' have "Some e = Some e'" by (simp only: de_Morgan_conj if_True)
    then show ?thesis by (intro that(1)) simp
  qed
next
  case False
  with assms show ?thesis by (intro that(1)) (simp add: ingest_proposal_def)
qed

lemma proposal_ok_proposer:
  assumes "pm_height pm = e_height e" "proposer e (pm_round pm) = Some (pm_proposer pm)" "proposal_verify_sig P pm"
  shows "proposal_ok P (e_height e) (e_validators_sorted e) (pm_round pm) pm"
proof -
  from assms(2) have "e_n e \<noteq> 0" by (auto simp: proposer_def split: if_splits)
  with assms show ?thesis by (simp add: proposal_ok_def proposer_def e_n_def)
qed

lemma engine_inv_ingest:
  assumes "engine_inv P e" and "ingest P msg e = Some e'"
  shows "engine_inv P e'"
proof (cases msg)
  case (Proposal pm)
  with assms(2) have "ingest_proposal P pm e = Some e'" by (simp add: ingest_def)
  then show ?thesis
  proof (cases rule: ingest_proposal_cases)
    case 2
    from assms(1) proposal_ok_proposer [OF 2(1-3)] show ?thesis
      unfolding 2(4) by (auto simp: engine_inv_def proposals_ok_def hm_get_or_insert split: if_splits)
  qed (use assms(1) in simp)
next
  case (Vote vm)
  show ?thesis
  proof (cases "vm_height vm \<noteq> e_height e \<or> \<not> vs_contains (e_current_set e) (vm_voter vm) \<or> \<not> vote_verify_sig P vm")
    case True
    with Vote assms show ?thesis by (simp add: ingest_def ingest_vote_def)
  next
    case False
    then have "store_ok P (e_height e) (e_me_pk e) (e_current_set e) (vm_vote_type vm) st \<Longrightarrow>
        store_ok P (e_height e) (e_me_pk e) (e_current_set e) (vm_vote_type vm) (store_vote P vm st)" for st
      by (auto intro: store_ok_ingest)
    with False Vote assms show ?thesis
      by (cases "vm_vote_type vm")
        (auto simp: ingest_def ingest_vote_def engine_inv_def)
  qed
qed

lemma engine_inv_fresh:
  assumes "mldsa_correct P (e_me_sk e) (e_me_pk e)" and "roster_ok P e"
    and "e_proposals e = []" "e_prevotes e = []" "e_precommits e = []"
    and "e_locked_value e = None" "e_locked_round e = None" "e_valid_value e = None" "e_valid_round e = None"
  shows "engine_inv P e"
  using assms by (simp add: engine_inv_def locks_ok_def)

lemma engine_inv_rolled:
  assumes "engine_inv P e"
    and "active_set (record_governance (pr_governance v) (e_registry e)) (e_height e + 1) = Some s"
  shows "engine_inv P (rolled P v bid s e)"
  using assms by (intro engine_inv_fresh) (auto simp: engine_inv_def roster_ok_def rolled_def reset_height_state_def)

lemma engine_inv_synced:
  assumes "engine_inv P e" and "apply_synced_block P b e = Some (Inr e')"
  shows "engine_inv P e'"
  using assms
  by (intro engine_inv_fresh)
    (auto simp: apply_synced_block_def reload_set_def reset_height_state_def engine_inv_def roster_ok_def
      bind_eq_Some_conv Let_def split: if_splits sum.splits)

section \<open>Preservation\<close>

lemma engine_inv_rule: "rule_step P e e' out \<Longrightarrow> engine_inv P e \<Longrightarrow> engine_inv P e'"
proof (induction rule: rule_step.induct)
  case (commit_rule e r pm e' out)
  from commit_rule(4) show ?case
  proof (cases rule: commit_SomeE)
    case (1 s out')
    from engine_inv_rolled [OF commit_rule.prems 1(1)] _ 1(2) show ?thesis
      by (rule engine_inv_start_round) (simp add: rolled_def reset_height_state_def)
  qed
next
  case (skip_rule e r e' out)
  from skip_rule(5) less_imp_le [OF skip_rule(1)] skip_rule(4) show ?case by (rule engine_inv_start_round)
next
  case (prevote_rule e pm bid e1 out)
  then show ?case by (intro engine_inv_emit_prevote)
next
  case (prevote_timer e)
  then show ?case by (simp add: engine_inv_def)
next
  case (polka_lock e pm e1 out)
  from polka_lock(6,7) have "store_ok P (e_height e) (e_me_pk e) (e_current_set e) VPrecommit (e_precommits e1)"
    by (auto simp: emit_precommit_def bind_eq_Some_conv engine_inv_def store_own_vote_def
        dest: store_ok_own)
  with polka_lock show ?case
    by (auto simp: emit_precommit_def bind_eq_Some_conv engine_inv_def) (auto simp: locks_ok_def)
next
  case (polka_late e pm)
  then have "locks_ok P (e\<lparr>e_polka_applied := insert (e_round e) (e_polka_applied e), e_valid_value := Some (pm_value pm), e_valid_round := Some (e_round e)\<rparr>)"
    by (auto simp: engine_inv_def locks_ok_def intro: order_trans)
  with polka_late show ?case by (simp add: engine_inv_def)
next
  case (precommit_nil_rule e e1 out)
  then show ?case by (intro engine_inv_emit_precommit)
next
  case (precommit_timer e)
  then show ?case by (simp add: engine_inv_def)
qed

lemma engine_inv_timeout:
  assumes "engine_inv P e" and "timeout_action P kind e = Some (e', out)"
    and "kind = ToPrecommit \<Longrightarrow> e_round e \<noteq> - 1"
  shows "engine_inv P e'"
  using assms word_less_plus_one [of "e_round e"]
  by (cases kind)
    (auto simp: timeout_action_def bind_eq_Some_conv split: if_splits
      intro: engine_inv_emit_prevote engine_inv_emit_precommit engine_inv_start_round [OF _ less_imp_le])

lemma engine_inv_step: "engine_step P e e' out \<Longrightarrow> engine_inv P e \<Longrightarrow> engine_inv P e'"
proof (induction rule: fed_step.induct)
  case (by_attestation e att)
  then show ?case by (auto simp: engine_inv_def)
next
  case (by_governance g e)
  then show ?case by (auto simp: engine_inv_def)
next
  case (by_clock e now)
  then show ?case by (auto simp: engine_inv_def set_time_def)
qed (auto intro: engine_inv_rule engine_inv_start_round engine_inv_unpark engine_inv_timeout
      engine_inv_ingest engine_inv_synced)

lemma engine_inv_steps: "engine_steps P e e' out \<Longrightarrow> engine_inv P e \<Longrightarrow> engine_inv P e'"
  by (induction rule: fed_steps.induct) (auto intro: engine_inv_step)

lemma engine_inv_with_registry:
  assumes "engine_with_registry P reg sk pk tip h = Some e" and "mldsa_correct P sk pk"
  shows "engine_inv P e"
  using assms by (intro engine_inv_fresh) (auto simp: engine_with_registry_def roster_ok_def bind_eq_Some_conv)

end
