(* ===== verification/Engine_Safety.thy ===== *)
theory Engine_Safety
  imports Engine_Inv "HOL-Library.Product_Lexorder"
begin

text \<open>
  What a run of the engine leaves behind. The blocks it commits or adopts form a chain whose every
  certificate verifies under the validator set of its height, and the votes it sends take
  strictly increasing slots, so that it never votes twice for one height, round and type.
\<close>

section \<open>Certificates\<close>

lemma build_qc_fold:
  "foldl (\<lambda>qc (k, vm). if vm_block_id vm = Some bid then qc_add qc (vm_voter vm) (vm_sig vm) else qc)
     \<lparr>qc_block_id = bid, qc_signatures = sigs\<rparr> kvs
   = \<lparr>qc_block_id = bid, qc_signatures = sigs @
        map (\<lambda>(k, vm). \<lparr>vs_validator = vm_voter vm, vs_signature = vm_sig vm\<rparr>)
          (filter (\<lambda>(k, vm). vm_block_id vm = Some bid) kvs)\<rparr>"
  by (induction kvs arbitrary: sigs) (auto simp: qc_add_def)

lemma build_qc_eq:
  "build_qc P e r bid = \<lparr>qc_block_id = bid, qc_signatures =
     map (\<lambda>(k, vm). \<lparr>vs_validator = vm_voter vm, vs_signature = vm_sig vm\<rparr>)
       (filter (\<lambda>(k, vm). vm_block_id vm = Some bid)
         (case hm_get (e_precommits e) r of None \<Rightarrow> [] | Some m \<Rightarrow> hm_iter (iter_ids P) m))\<rparr>"
  by (simp add: build_qc_def qc_new_def build_qc_fold hm_iter_def split: option.splits)

lemma build_qc_final:
  assumes inv: "engine_inv P e" and it: "iter_ok P" and me: "vs_contains (e_current_set e) (e_me_pk e)"
    and q: "e_quorum e \<le> count_precommits e r (MId bid)"
  shows "qc_is_final P (build_qc P e r bid) (e_current_set e)"
proof (cases "hm_get (e_precommits e) r")
  case None
  with q show ?thesis by (simp add: qc_is_final_def count_precommits_def count_votes_def e_quorum_def)
next
  case (Some m)
  let ?vset = "e_current_set e"
  let ?kvs = "filter (\<lambda>(k, vm). vm_block_id vm = Some bid) (hm_iter (iter_ids P) m)"
  let ?sig = "\<lambda>(k, vm). \<lparr>vs_validator = vm_voter vm, vs_signature = vm_sig vm\<rparr>"
  have ord: "reorders (iter_ids P)" using it by (simp add: iter_ok_def)
  from inv Some have wf: "hm_wf m"
    and ok: "\<And>k vm. hm_get m k = Some vm \<Longrightarrow> vote_ok P (e_height e) (e_me_pk e) ?vset VPrecommit r k vm"
    by (auto simp: engine_inv_def store_ok_def)
  have kv: "k = vk_id P (vm_voter vm) \<and> vs_contains ?vset (vm_voter vm)
      \<and> vk_verify P (vm_voter vm) (as_bytes bid) (vm_sig vm) ctx_BLOCK"
    if "(k, vm) \<in> set ?kvs" for k vm
    using that ok [of k vm] me
    by (auto simp: set_hm_iter [OF ord wf] hm_mem_get [OF wf] vote_ok_def vote_verify_sig_def verify_vote_def)
  have "map (vk_id P \<circ> vs_validator) (map ?sig ?kvs) = map fst ?kvs" using kv by auto
  also have "distinct \<dots>" using distinct_hm_iter [OF ord wf] by (rule distinct_map_filter)
  finally have "distinct (map (vk_id P \<circ> vs_validator) (map ?sig ?kvs))" .
  then have "qc_count_valid P (build_qc P e r bid) ?vset =
      length (filter (\<lambda>a. vs_contains ?vset (vs_validator a)
        \<and> vk_verify P (vs_validator a) (as_bytes bid) (vs_signature a) ctx_BLOCK) (map ?sig ?kvs))"
    by (simp add: qc_count_valid_def build_qc_eq Some qct.loop_complete del: map_map)
  also have "\<dots> = length ?kvs" using kv by (subst filter_True) auto
  also have "\<dots> = length (filter (\<lambda>(k, vm). vm_block_id vm = Some bid) m)"
    by (rule length_filter_hm_iter [OF ord wf])
  also have "\<dots> = count_precommits e r (MId bid)"
    by (simp add: count_precommits_def count_votes_def Some hm_values_def filter_map comp_def case_prod_unfold)
  finally show ?thesis using q by (simp add: qc_is_final_def e_quorum_def)
qed

section \<open>The chain of committed blocks\<close>

text \<open>
  What a ledger promises: every block is valid on top of the one before, and its certificate
  verifies under the validator set that the genesis and the governance of the blocks before it
  give for its height. A chain is read from a registry, a tip and a height.
\<close>

type_synonym chain_state = "ValidatorRegistry \<times> Hash \<times> u64"

fun chain_step :: "prims \<Rightarrow> chain_state \<Rightarrow> SlcBlock \<Rightarrow> chain_state" where
  "chain_step P (reg, tip, h) b =
     (record_governance (blk_governance b) reg, header_id P (blk_header b), h + 1)"

fun block_accepted :: "prims \<Rightarrow> chain_state \<Rightarrow> SlcBlock \<Rightarrow> bool" where
  "block_accepted P (reg, tip, h) b =
     (case active_set reg h of
        None \<Rightarrow> False
      | Some s \<Rightarrow> proposed_is_valid P (block_value b) tip h s
                \<and> qc_verify P (blk_qc b) (blk_header b) s = Inr ())"

primrec chain_valid :: "prims \<Rightarrow> chain_state \<Rightarrow> SlcBlock list \<Rightarrow> bool" where
  "chain_valid P st [] = True"
| "chain_valid P st (b # bs) = (block_accepted P st b \<and> chain_valid P (chain_step P st b) bs)"

lemma chain_valid_append:
  "chain_valid P st (xs @ ys) \<longleftrightarrow> chain_valid P st xs \<and> chain_valid P (foldl (chain_step P) st xs) ys"
  by (induction xs arbitrary: st) auto

definition chain_of :: "Engine \<Rightarrow> chain_state" where
  "chain_of e = (e_registry e, e_tip e, e_height e)"

fun committed_blocks :: "Effect list \<Rightarrow> SlcBlock list" where
  "committed_blocks [] = []"
| "committed_blocks (Committed b # out) = b # committed_blocks out"
| "committed_blocks (_ # out) = committed_blocks out"

lemma committed_blocks_append [simp]: "committed_blocks (xs @ ys) = committed_blocks xs @ committed_blocks ys"
  by (induction xs rule: committed_blocks.induct) auto

lemma committed_emit [simp]:
  "emit_prevote P bid e = Some (e', out) \<Longrightarrow> committed_blocks out = []"
  "emit_precommit P bid e = Some (e', out) \<Longrightarrow> committed_blocks out = []"
  by (auto simp: emit_prevote_def emit_precommit_def bind_eq_Some_conv)

lemma committed_enter_propose: "enter_propose P r e = Some (e', out) \<Longrightarrow> committed_blocks out = []"
  by (erule enter_propose_SomeE) auto

lemma committed_start_round: "start_round P r e = Some (e', out) \<Longrightarrow> committed_blocks out = []"
  by (auto simp: start_round_def Let_def split: if_splits dest: committed_enter_propose)

lemma chain_of_emit:
  "emit_prevote P bid e = Some (e', out) \<Longrightarrow> chain_of (e'\<lparr>e_step := s\<rparr>) = chain_of e"
  "emit_precommit P bid e = Some (e', out) \<Longrightarrow> chain_of (e'\<lparr>e_step := s\<rparr>) = chain_of e"
  by (auto simp: emit_prevote_def emit_precommit_def bind_eq_Some_conv chain_of_def)

lemma chain_of_start_round: "start_round P r e = Some (e', out) \<Longrightarrow> chain_of e' = chain_of e"
  by (drule start_round_frame) (auto simp: chain_of_def)

lemma chain_of_unpark:
  assumes "unpark P e = Some (e', out)"
  shows "chain_of e' = chain_of e \<and> committed_blocks out = []"
proof (cases "e_parked e")
  case True
  with assms have "enter_propose P (e_round e) (e\<lparr>e_parked := False\<rparr>) = Some (e', out)" by (simp add: unpark_def)
  from enter_propose_frame [OF this] committed_enter_propose [OF this] show ?thesis
    by (auto simp: chain_of_def)
next
  case False
  with assms show ?thesis by (simp add: unpark_def)
qed

text \<open>The engine is a member of its set.\<close>

definition member_ok :: "Engine \<Rightarrow> bool" where
  "member_ok e \<longleftrightarrow> vs_contains (e_current_set e) (e_me_pk e)"

lemma commit_chain:
  assumes "commit P r (proposed_id P v) v e = Some (e', out)"
  shows "committed_blocks out = [\<lparr>blk_header = pr_header v, blk_attestations = pr_attestations v,
       blk_governance = pr_governance v, blk_qc = build_qc P e r (proposed_id P v)\<rparr>]"
    and "chain_of e' = foldl (chain_step P) (chain_of e) (committed_blocks out)"
  using assms
  by (auto elim!: commit_SomeE simp: committed_start_round chain_of_start_round)
    (simp add: chain_of_def rolled_def reset_height_state_def proposed_id_def)

lemma commit_accepted:
  assumes inv: "engine_inv P e" and it: "iter_ok P" and me: "member_ok e"
    and q: "e_quorum e \<le> count_precommits e r (MId (proposed_id P v))"
    and valid: "proposed_is_valid P v (e_tip e) (e_height e) (e_current_set e)"
    and c: "commit P r (proposed_id P v) v e = Some (e', out)"
  shows "chain_valid P (chain_of e) (committed_blocks out)"
proof -
  have "qc_verify P (build_qc P e r (proposed_id P v)) (pr_header v) (e_current_set e) = Inr ()"
    using build_qc_final [OF inv it _ q] me
    by (simp add: qc_verify_Inr_iff member_ok_def) (simp add: build_qc_eq proposed_id_def)
  with inv valid show ?thesis
    unfolding commit_chain(1) [OF c]
    by (cases v) (simp add: chain_of_def engine_inv_def roster_ok_def block_value_def)
qed

lemma synced_chain:
  assumes "apply_synced_block P b e = Some (Inr e')"
  shows "chain_of e' = chain_step P (chain_of e) b"
    and "engine_inv P e \<Longrightarrow> block_accepted P (chain_of e) b"
  using assms
  by (auto simp: apply_synced_block_def reload_set_def reset_height_state_def engine_inv_def roster_ok_def
      chain_of_def bind_eq_Some_conv Let_def split: if_splits sum.splits)

lemma rule_step_chain:
  "rule_step P e e' out \<Longrightarrow> chain_of e' = foldl (chain_step P) (chain_of e) (committed_blocks out)"
proof (induction rule: rule_step.induct)
  case (commit_rule e r pm e' out)
  then show ?case by (intro commit_chain(2))
next
  case (skip_rule e r e' out)
  then show ?case by (simp add: committed_start_round chain_of_start_round)
next
  case (polka_lock e pm e1 out)
  then show ?case by (auto simp: emit_precommit_def bind_eq_Some_conv chain_of_def)
qed (simp_all add: chain_of_emit, simp_all add: chain_of_def)

lemma timeout_chain:
  "timeout_action P kind e = Some (e', out) \<Longrightarrow> chain_of e' = chain_of e \<and> committed_blocks out = []"
  by (cases kind)
    (auto simp: timeout_action_def bind_eq_Some_conv chain_of_emit chain_of_start_round committed_start_round
      split: if_splits)

lemma ingest_chain: "ingest P msg e = Some e' \<Longrightarrow> chain_of e' = chain_of e"
  by (cases msg)
    (auto simp: ingest_def ingest_vote_def chain_of_def split: VoteType.splits elim: ingest_proposal_cases)

lemma engine_step_chain:
  "engine_step P e e' out \<Longrightarrow> chain_of e' = foldl (chain_step P) (chain_of e) (committed_blocks out)"
proof (induction rule: fed_step.induct)
  case (by_rule e e' out)
  then show ?case by (rule rule_step_chain)
next
  case (by_entry e e' out)
  then show ?case by (simp add: committed_start_round chain_of_start_round)
next
  case (by_unpark e e' out)
  then show ?case by (simp add: chain_of_unpark)
next
  case (by_timeout kind e e' out)
  then show ?case by (simp add: timeout_chain)
next
  case (by_message msg e e')
  then show ?case by (simp add: ingest_chain)
next
  case (by_sync block e e')
  then show ?case using synced_chain(1) by simp
qed (simp_all add: chain_of_def set_time_def)

lemma rule_step_valid:
  assumes "rule_step P e e' out" and "engine_inv P e" "iter_ok P" "member_ok e"
  shows "chain_valid P (chain_of e) (committed_blocks out)"
  using assms
  by (induction rule: rule_step.induct)
    (auto simp: committed_start_round intro: commit_accepted)

lemma engine_step_valid:
  assumes "engine_step P e e' out" and "engine_inv P e" "iter_ok P" "member_ok e"
  shows "chain_valid P (chain_of e) (committed_blocks out)"
  using assms
  by (induction rule: fed_step.induct)
    (auto simp: committed_start_round chain_of_unpark timeout_chain synced_chain(2) intro: rule_step_valid)

text \<open>
  Membership: a key of the genesis set that no recorded change removes is in the set of every
  height.
\<close>

definition never_removed :: "VerifyingKey \<Rightarrow> ValidatorRegistry \<Rightarrow> bool" where
  "never_removed k reg \<longleftrightarrow> k \<in> set (reg_genesis reg) \<and> (\<forall>c\<in>set (reg_changes reg). k \<notin> set (vc_removes c))"

definition block_keeps :: "VerifyingKey \<Rightarrow> SlcBlock \<Rightarrow> bool" where
  "block_keeps k b \<longleftrightarrow> (\<forall>g\<in>set (blk_governance b). k \<notin> set (vc_removes (svc_change g)))"

lemma record_governance_eq:
  "record_governance gs reg = reg\<lparr>reg_changes := reg_changes reg @ map svc_change gs\<rparr>"
  by (induction gs arbitrary: reg) (simp_all add: record_governance_def registry_record_def)

lemma never_removed_active: "never_removed k reg \<Longrightarrow> k \<in> set (active_keys reg h)"
  by (auto simp: never_removed_def active_keys_def intro: fold_apply_change_keeps)

lemma never_removed_record:
  "never_removed k reg \<Longrightarrow> block_keeps k b \<Longrightarrow> never_removed k (record_governance (blk_governance b) reg)"
  by (auto simp: never_removed_def block_keeps_def record_governance_eq)

lemma never_removed_chain:
  "never_removed k (fst st) \<Longrightarrow> \<forall>b\<in>set bs. block_keeps k b \<Longrightarrow>
   never_removed k (fst (foldl (chain_step P) st bs))"
proof (induction bs arbitrary: st)
  case (Cons b bs)
  then show ?case by (cases st) (auto intro!: Cons.IH never_removed_record)
qed simp

lemma member_okI: "engine_inv P e \<Longrightarrow> never_removed (e_me_pk e) (e_registry e) \<Longrightarrow> member_ok e"
  using never_removed_active [of "e_me_pk e" "e_registry e" "e_height e"]
  by (auto simp: member_ok_def engine_inv_def roster_ok_def active_set_def bft_Some_iff)

lemma rule_step_me: "rule_step P e e' out \<Longrightarrow> e_me_pk e' = e_me_pk e"
proof (induction rule: rule_step.induct)
  case (commit_rule e r pm e' out)
  from commit_rule(4) show ?case
    by (cases rule: commit_SomeE) (auto simp: rolled_def reset_height_state_def dest!: start_round_frame)
qed (auto simp: emit_prevote_def emit_precommit_def bind_eq_Some_conv dest: start_round_frame)

lemma engine_step_me: "engine_step P e e' out \<Longrightarrow> e_me_pk e' = e_me_pk e"
proof (induction rule: fed_step.induct)
  case (by_timeout kind e e' out)
  then show ?case
    by (cases kind) (auto simp: timeout_action_def emit_prevote_def emit_precommit_def bind_eq_Some_conv
        split: if_splits dest: start_round_frame)
next
  case (by_message msg e e')
  then show ?case
    by (cases msg) (auto simp: ingest_def ingest_vote_def split: VoteType.splits elim: ingest_proposal_cases)
qed (auto simp: unpark_def set_time_def apply_synced_block_def reload_set_def reset_height_state_def
      bind_eq_Some_conv Let_def split: if_splits sum.splits
      dest: start_round_frame enter_propose_frame rule_step_me)

lemma engine_steps_me: "engine_steps P e e' out \<Longrightarrow> e_me_pk e' = e_me_pk e"
  by (induction rule: fed_steps.induct) (auto dest: engine_step_me)

lemma engine_steps_chain:
  "engine_steps P e e' out \<Longrightarrow> chain_of e' = foldl (chain_step P) (chain_of e) (committed_blocks out)"
  by (induction rule: fed_steps.induct) (auto dest: engine_step_chain)

lemma engine_steps_valid:
  assumes "engine_steps P e e' out" and "engine_inv P e" and "iter_ok P"
    and "never_removed (e_me_pk e) (e_registry e)" and "\<forall>b\<in>set (committed_blocks out). block_keeps (e_me_pk e) b"
  shows "chain_valid P (chain_of e) (committed_blocks out)"
  using assms
proof (induction rule: fed_steps.induct)
  case (idle e)
  then show ?case by simp
next
  case (more e e1 out1 e2 out2)
  then have IH: "chain_valid P (chain_of e) (committed_blocks out1)" and inv: "engine_inv P e1"
    by (auto intro: engine_inv_steps)
  note e1 = engine_steps_chain [OF more.hyps(1)]
  have "never_removed (e_me_pk e) (fst (chain_of e1))"
    unfolding e1 using more.prems by (intro never_removed_chain) (auto simp: chain_of_def)
  then have "member_ok e1"
    using inv engine_steps_me [OF more.hyps(1)] by (intro member_okI) (auto simp: chain_of_def)
  from engine_step_valid [OF more.hyps(2) inv \<open>iter_ok P\<close> this] IH e1 show ?case
    by (simp add: chain_valid_append)
qed

section \<open>The order of a validator's votes\<close>

text \<open>
  The position of an engine is its height, round and step; a vote takes the slot of its height,
  round and type. The engine votes in the slot of its position and leaves it at once.
\<close>

definition position :: "Engine \<Rightarrow> nat \<times> nat \<times> nat" where
  "position e = (unat (e_height e), unat (e_round e), step_rank (e_step e))"

definition slot :: "VoteMsg \<Rightarrow> nat \<times> nat \<times> nat" where
  "slot vm = (unat (vm_height vm), unat (vm_round vm), case vm_vote_type vm of VPrevote \<Rightarrow> 0 | VPrecommit \<Rightarrow> 1)"

fun votes_sent :: "Effect list \<Rightarrow> VoteMsg list" where
  "votes_sent [] = []"
| "votes_sent (Broadcast (Vote vm) # out) = vm # votes_sent out"
| "votes_sent (_ # out) = votes_sent out"

lemma votes_sent_append [simp]: "votes_sent (xs @ ys) = votes_sent xs @ votes_sent ys"
  by (induction xs rule: votes_sent.induct) auto

lemma votes_enter_propose: "enter_propose P r e = Some (e', out) \<Longrightarrow> votes_sent out = []"
  by (erule enter_propose_SomeE) auto

lemma votes_start_round: "start_round P r e = Some (e', out) \<Longrightarrow> votes_sent out = []"
  by (auto simp: start_round_def Let_def split: if_splits dest: votes_enter_propose)

lemma slot_vote_create:
  "vote_create P sk pk h r vt bid = Some vm \<Longrightarrow>
   slot vm = (unat h, unat r, case vt of VPrevote \<Rightarrow> 0 | VPrecommit \<Rightarrow> 1)"
  by (simp add: slot_def vote_create_Some)

definition moves :: "Engine \<Rightarrow> Engine \<Rightarrow> Effect list \<Rightarrow> bool" where
  "moves e e' out \<longleftrightarrow> position e \<le> position e'
     \<and> (votes_sent out = [] \<or>
        (\<exists>vm. votes_sent out = [vm] \<and> slot vm = position e \<and> position e < position e'))"

lemma moves_quiet: "votes_sent out = [] \<Longrightarrow> position e \<le> position e' \<Longrightarrow> moves e e' out"
  by (simp add: moves_def)

lemma moves_emit_prevote:
  "e_step e = StPropose \<Longrightarrow> emit_prevote P bid e = Some (e1, out) \<Longrightarrow> moves e (e1\<lparr>e_step := StPrevote\<rparr>) out"
  by (auto simp: emit_prevote_def bind_eq_Some_conv moves_def position_def dest: slot_vote_create)

lemma moves_emit_precommit:
  "e_step e = StPrevote \<Longrightarrow> emit_precommit P bid e = Some (e1, out) \<Longrightarrow> moves e (e1\<lparr>e_step := StPrecommit\<rparr>) out"
  by (auto simp: emit_precommit_def bind_eq_Some_conv moves_def position_def dest: slot_vote_create)

lemma moves_later_round:
  assumes "start_round P r e = Some (e', out)" and "e_round e < r"
  shows "moves e e' out"
proof (rule moves_quiet)
  show "votes_sent out = []" using assms(1) by (rule votes_start_round)
  show "position e \<le> position e'"
    using start_round_frame [OF assms(1)] assms(2) by (auto simp: position_def word_less_nat_alt)
qed

lemma moves_next_height:
  assumes "start_round P 0 (rolled P v bid s e) = Some (e', out')" and "e_height e \<noteq> - 1"
  shows "moves e e' (Committed b # out')"
proof (rule moves_quiet)
  show "votes_sent (Committed b # out') = []" using assms(1) by (simp add: votes_start_round)
  have "unat (e_height e) < unat (e_height e + 1)"
    using word_less_plus_one [OF assms(2)] by (simp add: word_less_nat_alt)
  then show "position e \<le> position e'"
    using start_round_frame [OF assms(1)] by (auto simp: position_def rolled_def reset_height_state_def)
qed

lemma rule_step_moves:
  assumes "rule_step P e e' out" and "committed_blocks out \<noteq> [] \<Longrightarrow> e_height e \<noteq> - 1"
  shows "moves e e' out"
  using assms
proof (induction rule: rule_step.induct)
  case (commit_rule e r pm e' out)
  from commit_rule(4) show ?case
  proof (cases rule: commit_SomeE)
    case (1 s out')
    with commit_rule.prems show ?thesis by (auto intro: moves_next_height)
  qed
next
  case (polka_lock e pm e1 out)
  then show ?case
    by (auto simp: emit_precommit_def bind_eq_Some_conv moves_def position_def dest: slot_vote_create)
qed (auto intro: moves_later_round moves_emit_prevote moves_emit_precommit moves_quiet simp: position_def)

lemma engine_step_moves:
  assumes "engine_step P e e' out" and "committed_blocks out \<noteq> [] \<Longrightarrow> e_height e \<noteq> - 1"
  shows "moves e e' out"
  using assms
proof (induction rule: fed_step.induct)
  case (by_rule e e' out)
  then show ?case by (intro rule_step_moves)
next
  case (by_entry e e' out)
  then show ?case
    using start_round_frame [OF by_entry(3)] by (auto intro!: moves_quiet votes_start_round simp: position_def)
next
  case (by_unpark e e' out)
  then show ?case
  proof (cases "e_parked e")
    case True
    with by_unpark have "enter_propose P (e_round e) (e\<lparr>e_parked := False\<rparr>) = Some (e', out)"
      by (simp add: unpark_def)
    from enter_propose_frame [OF this] votes_enter_propose [OF this] show ?thesis
      by (auto simp: position_def intro!: moves_quiet)
  qed (auto simp: unpark_def intro!: moves_quiet)
next
  case (by_timeout kind e e' out)
  then show ?case
    using word_less_plus_one [of "e_round e"]
    by (cases kind)
      (auto simp: timeout_action_def bind_eq_Some_conv split: if_splits
        intro: moves_emit_prevote moves_emit_precommit moves_later_round moves_quiet)
next
  case (by_message msg e e')
  then show ?case
    by (cases msg)
      (auto simp: ingest_def ingest_vote_def position_def intro!: moves_quiet split: VoteType.splits
        elim: ingest_proposal_cases)
next
  case (by_sync block e e')
  then have "e_height e \<noteq> - 1" by simp
  then have "unat (e_height e) < unat (e_height e + 1)"
    using word_less_plus_one by (simp add: word_less_nat_alt)
  with by_sync show ?case
    by (auto simp: apply_synced_block_def reload_set_def reset_height_state_def position_def
      bind_eq_Some_conv Let_def split: if_splits sum.splits intro!: moves_quiet)
qed (auto intro!: moves_quiet simp: position_def set_time_def)

text \<open>Heights do not wrap as long as the run commits fewer blocks than there are heights left.\<close>

lemma chain_height: "snd (snd (foldl (chain_step P) st bs)) = snd (snd st) + of_nat (length bs)"
  by (induction bs arbitrary: st) (auto simp: algebra_simps)

lemma engine_steps_height:
  assumes "engine_steps P e e' out"
  shows "e_height e' = e_height e + of_nat (length (committed_blocks out))"
  using chain_height [of P "chain_of e" "committed_blocks out", folded engine_steps_chain [OF assms]]
  by (simp add: chain_of_def)

lemma height_below_max:
  fixes h :: u64
  assumes "unat h + n < 2 ^ 64 - 1"
  shows "h + of_nat n \<noteq> - 1"
proof
  assume "h + of_nat n = - 1"
  moreover have "unat (h + of_nat n) = unat h + n"
    using assms by (simp add: unat_word_ariths unat_of_nat take_bit_nat_eq_self)
  moreover have "unat (- 1 :: u64) = 2 ^ 64 - 1" by (simp add: unsigned_minus_1_eq_mask mask_eq_exp_minus_1)
  ultimately show False using assms by simp
qed

lemma engine_steps_votes:
  assumes "engine_steps P e e' out"
    and "unat (e_height e) + length (committed_blocks out) < 2 ^ 64"
  shows "position e \<le> position e' \<and> sorted_wrt (<) (map slot (votes_sent out))
    \<and> (\<forall>vm\<in>set (votes_sent out). slot vm < position e')"
  using assms
proof (induction rule: fed_steps.induct)
  case (idle e)
  then show ?case by simp
next
  case (more e e1 out1 e2 out2)
  then have IH: "position e \<le> position e1" "sorted_wrt (<) (map slot (votes_sent out1))"
      "\<And>vm. vm \<in> set (votes_sent out1) \<Longrightarrow> slot vm < position e1" by auto
  have "moves e1 e2 out2"
  proof (rule engine_step_moves [OF more.hyps(2)])
    assume "committed_blocks out2 \<noteq> []"
    then have "1 \<le> length (committed_blocks out2)" by (simp add: Suc_le_eq)
    moreover have "length (committed_blocks (out1 @ out2)) = length (committed_blocks out1) + length (committed_blocks out2)"
      by simp
    ultimately have "unat (e_height e) + length (committed_blocks out1) < 2 ^ 64 - 1"
      using more.prems by linarith
    then show "e_height e1 \<noteq> - 1"
      unfolding engine_steps_height [OF more.hyps(1)] by (rule height_below_max)
  qed
  with IH show ?case
    by (auto simp: moves_def sorted_wrt_append dest: less_le_trans le_less_trans)
qed

section \<open>Valid chains that meet\<close>

lemma chain_valid_nth:
  assumes "chain_valid P st bs" and "i < length bs"
  shows "block_accepted P (foldl (chain_step P) st (take i bs)) (bs ! i)"
  using assms
proof (induction bs arbitrary: st i)
  case (Cons b bs)
  then show ?case by (cases i) auto
qed simp

lemma chain_step_value:
  assumes "block_value b = block_value b'"
  shows "chain_step P st b = chain_step P st b'"
  using assms by (cases st) (auto simp: block_value_def)

lemma foldl_chain_step_values:
  assumes "map block_value xs = map block_value ys"
  shows "foldl (chain_step P) st xs = foldl (chain_step P) st ys"
  using assms
proof (induction xs arbitrary: ys st)
  case (Cons x xs)
  then obtain y ys' where "ys = y # ys'" "block_value x = block_value y" "map block_value xs = map block_value ys'"
    by (cases ys) auto
  with Cons.IH chain_step_value [of x y P st] show ?case by simp
qed simp

lemma chains_fork_signers:
  assumes "chain_valid P st xs" and "chain_valid P st ys" and "i < length xs" and "i < length ys"
    and "map block_value (take i xs) = map block_value (take i ys)"
  shows "\<exists>vals. (length vals - 1) div 3 < card {v \<in> set vals.
      (\<exists>s. vk_verify P v (as_bytes (header_id P (blk_header (xs ! i)))) s ctx_BLOCK)
      \<and> (\<exists>s. vk_verify P v (as_bytes (header_id P (blk_header (ys ! i)))) s ctx_BLOCK)}
    \<and> (case foldl (chain_step P) st (take i xs) of (reg, tip, h) \<Rightarrow> vals = active_keys reg h)"
proof -
  obtain reg tip h where st: "foldl (chain_step P) st (take i xs) = (reg, tip, h)" by (metis prod_cases3)
  have "block_accepted P (reg, tip, h) (xs ! i)" "block_accepted P (reg, tip, h) (ys ! i)"
    using chain_valid_nth [OF assms(1,3)] chain_valid_nth [OF assms(2,4)] st
      foldl_chain_step_values [OF assms(5), of P st] by simp_all
  then obtain s where s: "active_set reg h = Some s"
    and "qc_verify P (blk_qc (xs ! i)) (blk_header (xs ! i)) s = Inr ()"
      "qc_verify P (blk_qc (ys ! i)) (blk_header (ys ! i)) s = Inr ()"
    by (auto split: option.splits)
  from qc_overlap [OF s [unfolded active_set_def] this(2,3)] st show ?thesis by auto
qed

end
