(* ===== verification/Node_Io.thy ===== *)
theory Node_Io
  imports Engine_Safety
begin

text \<open>
  The node's input and output as pure functions (\<^verbatim>\<open>crates/node/src\<close>): length-prefixed frames
  (\<^verbatim>\<open>frame.rs\<close>) and the reader of a peer connection (\<^verbatim>\<open>transport.rs\<close>), the peer list,
  the block store (\<^verbatim>\<open>storage.rs\<close>), the genesis file (\<^verbatim>\<open>config.rs\<close>). The JSON codec
  \<^verbatim>\<open>serde_json\<close> is an argument: \<open>ser\<close> prints, \<open>de\<close> parses.
\<close>

section \<open>Frames\<close>

datatype IoError = InvalidData string | UnexpectedEof

definition MAX_FRAME :: nat where
  "MAX_FRAME = 32 * 1024 * 1024"

definition from_be_bytes :: "byte list \<Rightarrow> u32" where
  "from_be_bytes bs = foldl (\<lambda>acc b. acc * 256 + ucast b) 0 bs"

text \<open>The bytes that \<^verbatim>\<open>write_frame\<close> puts on the stream.\<close>

definition write_frame :: "('m \<Rightarrow> string + byte list) \<Rightarrow> 'm \<Rightarrow> IoError + byte list" where
  "write_frame ser msg =
     (case ser msg of
        Inl e \<Rightarrow> Inl (InvalidData e)
      | Inr bytes \<Rightarrow> Inr (u32_be (len_as_u32 bytes) @ bytes))"

definition read_exact :: "nat \<Rightarrow> byte list \<Rightarrow> IoError + (byte list \<times> byte list)" where
  "read_exact n stream =
     (if n \<le> length stream then Inr (take n stream, drop n stream) else Inl UnexpectedEof)"

definition read_frame :: "(byte list \<Rightarrow> string + 'm) \<Rightarrow> byte list \<Rightarrow> IoError + ('m \<times> byte list)" where
  "read_frame de stream =
     (case read_exact 4 stream of
        Inl e \<Rightarrow> Inl e
      | Inr (len_buf, rest) \<Rightarrow>
          (let len = unat (from_be_bytes len_buf) in
           if MAX_FRAME < len then Inl (InvalidData ''frame too large'')
           else case read_exact len rest of
             Inl e \<Rightarrow> Inl e
           | Inr (buf, rest') \<Rightarrow>
               (case de buf of Inl e \<Rightarrow> Inl (InvalidData e) | Inr m \<Rightarrow> Inr (m, rest'))))"

lemma read_frame_shorter: "read_frame de stream = Inr (m, rest) \<Longrightarrow> length rest < length stream"
  by (auto simp: read_frame_def read_exact_def Let_def split: sum.splits if_splits prod.splits)

text \<open>The messages a connection delivers until the peer closes it or sends garbage.\<close>

function reader_loop :: "(byte list \<Rightarrow> string + 'm) \<Rightarrow> byte list \<Rightarrow> 'm list" where
  "reader_loop de stream =
     (case read_frame de stream of Inl _ \<Rightarrow> [] | Inr (m, rest) \<Rightarrow> m # reader_loop de rest)"
  by pat_completeness auto
termination
  by (relation "measure (length \<circ> snd)") (auto dest: read_frame_shorter)

declare reader_loop.simps [simp del]

section \<open>Peers\<close>

record Transport =
  t_peers :: "string list"
  t_outbound :: "bool list"

text \<open>\<open>t_outbound\<close> says which of the lazily opened connections are up.\<close>

definition set_peers :: "string list \<Rightarrow> Transport \<Rightarrow> Transport" where
  "set_peers peers t = t\<lparr>t_outbound := map (\<lambda>_. False) peers, t_peers := peers\<rparr>"

definition add_peer :: "string \<Rightarrow> Transport \<Rightarrow> Transport" where
  "add_peer addr t =
     (if addr \<in> set (t_peers t) then t
      else t\<lparr>t_peers := t_peers t @ [addr], t_outbound := t_outbound t @ [False]\<rparr>)"

section \<open>The block store\<close>

text \<open>\<open>bs_lines\<close> are the lines of the store's file.\<close>

record BlockStore =
  bs_path :: "string option"
  bs_lines :: "string list"
  bs_blocks :: "SlcBlock list"

definition store_open :: "(string \<Rightarrow> SlcBlock option) \<Rightarrow> string option \<Rightarrow> string list \<Rightarrow> BlockStore" where
  "store_open parse path lines =
     \<lparr>bs_path = path, bs_lines = lines,
      bs_blocks = (case path of None \<Rightarrow> [] | Some _ \<Rightarrow> List.map_filter parse lines)\<rparr>"

text \<open>\<open>ser\<close> prints a block on one line; \<open>write_ok\<close> says whether the file takes it.\<close>

definition store_append :: "(SlcBlock \<Rightarrow> string option) \<Rightarrow> bool \<Rightarrow> SlcBlock \<Rightarrow> BlockStore \<Rightarrow> BlockStore" where
  "store_append ser write_ok block st =
     (let st1 = st\<lparr>bs_blocks := bs_blocks st @ [block]\<rparr> in
      case (bs_path st1, ser block) of
        (Some _, Some line) \<Rightarrow> if write_ok then st1\<lparr>bs_lines := bs_lines st1 @ [line]\<rparr> else st1
      | _ \<Rightarrow> st1)"

definition snapshot :: "BlockStore \<Rightarrow> SlcBlock list" where
  "snapshot st = bs_blocks st"

definition store_tip :: "prims \<Rightarrow> BlockStore \<Rightarrow> Hash \<times> u64" where
  "store_tip P st =
     (if bs_blocks st = [] then (zero_hash, 0)
      else (header_id P (blk_header (last (bs_blocks st))), bh_height (blk_header (last (bs_blocks st)))))"

section \<open>The genesis\<close>

record ValidatorInfo =
  vi_pubkey :: VerifyingKey
  vi_addr :: string

record GenesisConfig =
  gc_chain_id :: string
  gc_validators :: "ValidatorInfo list"

definition validator_keys :: "GenesisConfig \<Rightarrow> VerifyingKey list" where
  "validator_keys g = map vi_pubkey (gc_validators g)"

definition peer_addrs :: "GenesisConfig \<Rightarrow> VerifyingKey \<Rightarrow> string list" where
  "peer_addrs g me = map vi_addr (filter (\<lambda>v. vi_pubkey v \<noteq> me) (gc_validators g))"

section \<open>Lemmas\<close>

lemma ucast_byte_of: "(ucast (ucast (drop_bit k w) :: byte) :: u32) = of_nat (unat w div 2 ^ k mod 256)" for w :: u32
proof -
  have "unat (ucast (drop_bit k w) :: byte) = unat w div 2 ^ k mod 256"
    using unsigned_less [of w, where ?'a = nat]
    by (simp add: unsigned_ucast_eq unsigned_drop_bit_eq) (simp add: drop_bit_eq_div take_bit_eq_mod)
  then show ?thesis by (metis of_nat_unat)
qed

lemma base_256:
  assumes "(n::nat) < 2 ^ 32"
  shows "((n div 16777216 mod 256 * 256 + n div 65536 mod 256) * 256 + n div 256 mod 256) * 256 + n mod 256 = n"
proof -
  define a b c where "a = n div 256" and "b = a div 256" and "c = b div 256"
  have "n div 65536 = b" "n div 16777216 = c" by (simp_all add: a_def b_def c_def div_mult2_eq [symmetric])
  moreover have "c < 256" using assms by (simp add: a_def b_def c_def div_mult2_eq [symmetric] less_mult_imp_div_less)
  moreover have "n = a * 256 + n mod 256" "a = b * 256 + a mod 256" "b = c * 256 + b mod 256"
    by (simp_all add: a_def b_def c_def)
  ultimately show ?thesis by (simp flip: a_def)
qed

lemma from_be_bytes_u32_be: "from_be_bytes (u32_be w) = w"
proof -
  let ?n = "unat w"
  have bytes: "u32_be w = [ucast (drop_bit 24 w), ucast (drop_bit 16 w), ucast (drop_bit 8 w), ucast (drop_bit 0 w)]"
    by (simp add: to_be_bytes_def upt_rec numeral_eq_Suc)
  have "from_be_bytes (u32_be w) =
      of_nat (((?n div 16777216 mod 256 * 256 + ?n div 65536 mod 256) * 256 + ?n div 256 mod 256) * 256 + ?n mod 256)"
    unfolding bytes from_be_bytes_def using ucast_byte_of [of 24 w] ucast_byte_of [of 16 w] ucast_byte_of [of 8 w] ucast_byte_of [of 0 w]
    by simp
  also have "\<dots> = of_nat ?n"
    using unsigned_less [of w, where ?'a = nat] by (subst base_256) simp_all
  finally show ?thesis by simp
qed
lemma unat_len_as_u32: "length bs < 2 ^ 32 \<Longrightarrow> unat (len_as_u32 bs) = length bs"
  by (simp add: len_as_u32_def unat_of_nat take_bit_nat_eq_self)

lemma read_write_frame:
  assumes "ser m = Inr bytes" and "length bytes \<le> MAX_FRAME" and "de bytes = Inr m"
  shows "\<exists>fr. write_frame ser m = Inr fr \<and> read_frame de (fr @ rest) = Inr (m, rest)"
proof -
  have "unat (len_as_u32 bytes) = length bytes"
    using assms(2) by (intro unat_len_as_u32) (simp add: MAX_FRAME_def)
  with assms show ?thesis
    by (simp add: write_frame_def read_frame_def read_exact_def from_be_bytes_u32_be Let_def)
qed

text \<open>What a sender that writes \<open>ms\<close> one after the other puts on the stream.\<close>

definition sent_bytes :: "('m \<Rightarrow> string + byte list) \<Rightarrow> 'm list \<Rightarrow> byte list" where
  "sent_bytes ser ms = concat (map (\<lambda>m. case write_frame ser m of Inl _ \<Rightarrow> [] | Inr fr \<Rightarrow> fr) ms)"

definition fits :: "('m \<Rightarrow> string + byte list) \<Rightarrow> (byte list \<Rightarrow> string + 'm) \<Rightarrow> 'm \<Rightarrow> bool" where
  "fits ser de m \<longleftrightarrow> (case ser m of Inl _ \<Rightarrow> False | Inr bytes \<Rightarrow> length bytes \<le> MAX_FRAME \<and> de bytes = Inr m)"

lemma reader_loop_sent:
  assumes "\<forall>m\<in>set ms. fits ser de m" and "read_frame de rest = Inl e"
  shows "reader_loop de (sent_bytes ser ms @ rest) = ms"
  using assms(1)
proof (induction ms)
  case Nil
  with assms(2) show ?case by (simp add: sent_bytes_def reader_loop.simps)
next
  case (Cons m ms)
  then obtain bytes where "ser m = Inr bytes" "length bytes \<le> MAX_FRAME" "de bytes = Inr m"
    by (auto simp: fits_def split: sum.splits)
  from read_write_frame [of ser m bytes de "sent_bytes ser ms @ rest", OF this] obtain fr where
    "write_frame ser m = Inr fr" "read_frame de (fr @ sent_bytes ser ms @ rest) = Inr (m, sent_bytes ser ms @ rest)"
    by blast
  with Cons show ?case by (simp add: sent_bytes_def reader_loop.simps [of de "fr @ _"])
qed

text \<open>The file mirrors the memory as long as every write succeeds.\<close>

definition store_synced :: "(string \<Rightarrow> SlcBlock option) \<Rightarrow> BlockStore \<Rightarrow> bool" where
  "store_synced parse st \<longleftrightarrow> (bs_path st \<noteq> None \<longrightarrow> bs_blocks st = List.map_filter parse (bs_lines st))"

lemma store_append_blocks [simp]: "bs_blocks (store_append ser ok b st) = bs_blocks st @ [b]"
  by (simp add: store_append_def Let_def split: option.splits)

lemma store_append_synced:
  assumes "store_synced parse st" and "ser b = Some line" and "parse line = Some b"
  shows "store_synced parse (store_append ser True b st)"
  using assms by (auto simp: store_synced_def store_append_def map_filter_def Let_def split: option.splits)

lemma store_reopen:
  "store_synced parse st \<Longrightarrow> bs_path st = Some p \<Longrightarrow> store_open parse (bs_path st) (bs_lines st) = st"
  by (cases st) (simp add: store_synced_def store_open_def)

lemma peers_aligned: "length (t_outbound t) = length (t_peers t) \<Longrightarrow>
    length (t_outbound (add_peer a t)) = length (t_peers (add_peer a t))"
  by (simp add: add_peer_def)

end
