(* ===== verification/Anchor.thy ===== *)
theory Anchor
  imports Notary_Proof
begin

text \<open>
  Public-chain anchoring (\<^verbatim>\<open>crates/anchor/src\<close>): checkpoints over block ids
  (\<^verbatim>\<open>checkpoint.rs\<close>), the \<^verbatim>\<open>OP_RETURN\<close> encoding (\<^verbatim>\<open>opreturn.rs\<close>), the backends
  (\<^verbatim>\<open>backend.rs\<close>, \<^verbatim>\<open>notaryhash.rs\<close>), the service that batches blocks
  (\<^verbatim>\<open>service.rs\<close>) and the anchored proof (\<^verbatim>\<open>proof.rs\<close>). What the file system, the
  notarization service and the \<^verbatim>\<open>base64\<close> crate answer is the argument \<open>W\<close> of the
  operation that asks them, so that two calls may get two answers.
\<close>

section \<open>Checkpoints\<close>

definition checkpoint_leaf :: "prims \<Rightarrow> Hash \<Rightarrow> Hash" where
  "checkpoint_leaf P block_id = hash_leaf P (as_bytes block_id)"

record Checkpoint =
  cp_from_height :: u64
  cp_to_height :: u64
  cp_block_ids :: "Hash list"
  cp_tree :: MerkleTree
  cp_root :: Hash

definition from_block_ids :: "prims \<Rightarrow> Hash list \<Rightarrow> u64 \<Rightarrow> u64 \<Rightarrow> Checkpoint option" where
  "from_block_ids P block_ids from_height to_height =
     (if block_ids = [] then None
      else let leaves = map (checkpoint_leaf P) block_ids;
               tree = merkle_build P leaves;
               root = merkle_root_of P tree
           in Some \<lparr>cp_from_height = from_height, cp_to_height = to_height,
                    cp_block_ids = block_ids, cp_tree = tree, cp_root = root\<rparr>)"

record CheckpointInclusion =
  ci_block_id :: Hash
  ci_path :: MerklePath

text \<open>\<^verbatim>\<open>iter().position\<close>: the index of the first element that satisfies the predicate.\<close>

fun position_of :: "('a \<Rightarrow> bool) \<Rightarrow> 'a list \<Rightarrow> nat option" where
  "position_of p [] = None"
| "position_of p (x # xs) = (if p x then Some 0 else map_option Suc (position_of p xs))"

definition checkpoint_inclusion :: "Checkpoint \<Rightarrow> Hash \<Rightarrow> CheckpointInclusion option" where
  "checkpoint_inclusion cp block_id =
     do {
       idx \<leftarrow> position_of (\<lambda>b. b = block_id) (cp_block_ids cp);
       path \<leftarrow> merkle_proof (cp_tree cp) idx;
       Some \<lparr>ci_block_id = block_id, ci_path = path\<rparr>
     }"

definition inclusion_verify :: "prims \<Rightarrow> CheckpointInclusion \<Rightarrow> Hash \<Rightarrow> bool" where
  "inclusion_verify P ci root \<longleftrightarrow> compute_root P (ci_path ci) (checkpoint_leaf P (ci_block_id ci)) = root"

section \<open>The OP\_RETURN encoding\<close>

definition OP_FALSE :: byte where
  "OP_FALSE = 0x00"

definition OP_RETURN :: byte where
  "OP_RETURN = 0x6a"

definition MAGIC :: "byte list" where
  "MAGIC = ascii ''SLC1''"

definition VERSION :: byte where
  "VERSION = 1"

definition payload :: "Hash \<Rightarrow> byte list" where
  "payload root = MAGIC @ [VERSION] @ as_bytes root"

definition script :: "Hash \<Rightarrow> byte list" where
  "script root = (let data = payload root in [OP_FALSE, OP_RETURN, of_nat (length data)] @ data)"

definition strip_prefix :: "'a list \<Rightarrow> 'a list \<Rightarrow> 'a list option" where
  "strip_prefix pre xs = (if take (length pre) xs = pre then Some (drop (length pre) xs) else None)"

definition split_first :: "'a list \<Rightarrow> ('a \<times> 'a list) option" where
  "split_first xs = (case xs of [] \<Rightarrow> None | x # rest \<Rightarrow> Some (x, rest))"

definition get_to :: "nat \<Rightarrow> 'a list \<Rightarrow> 'a list option" where
  "get_to n xs = (if n \<le> length xs then Some (take n xs) else None)"

definition parse_root :: "byte list \<Rightarrow> Hash option" where
  "parse_root s =
     do {
       rest \<leftarrow> strip_prefix [OP_FALSE, OP_RETURN] s;
       (len, rest) \<leftarrow> split_first rest;
       data \<leftarrow> get_to (unat len) rest;
       data \<leftarrow> strip_prefix MAGIC data;
       (version, data) \<leftarrow> split_first data;
       if version \<noteq> VERSION \<or> length data \<noteq> HASH_LEN then None else Some (Hash data)
     }"

section \<open>Backends\<close>

datatype AnchorError =
    Io string
  | Notarization LedgerError
  | BlockMismatch
  | NotInCheckpoint
  | ReceiptMismatch

record Receipt =
  rc_backend :: string
  rc_reference :: string
  rc_checkpoint_root :: Hash

fun show_nat :: "nat \<Rightarrow> string" where
  "show_nat n = (if n < 10 then [char_of (48 + n)] else show_nat (n div 10) @ [char_of (48 + n mod 10)])"

declare show_nat.simps [simp del]

record MockAnchor =
  mock_published :: "Hash list"

definition mock_new :: MockAnchor where
  "mock_new = \<lparr>mock_published = []\<rparr>"

definition mock_anchor :: "prims \<Rightarrow> MockAnchor \<Rightarrow> Checkpoint \<Rightarrow> (AnchorError + Receipt) \<times> MockAnchor" where
  "mock_anchor P b cp =
     (let root = cp_root cp;
          published = mock_published b @ [root]
      in (Inr \<lparr>rc_backend = ''mock'',
               rc_reference = ''mock:'' @ show_nat (length published - 1) @ '':'' @ hash_to_hex P root,
               rc_checkpoint_root = root\<rparr>,
          b\<lparr>mock_published := published\<rparr>))"

text \<open>The JSON line of a file anchor, field by field.\<close>

record AnchorLine =
  al_from_height :: u64
  al_to_height :: u64
  al_checkpoint_root :: string
  al_op_return_script :: string

record FileAnchor =
  fa_path :: string
  fa_count :: u64

definition file_new :: "string \<Rightarrow> FileAnchor" where
  "file_new path = \<lparr>fa_path = path, fa_count = 0\<rparr>"

text \<open>The \<^verbatim>\<open>POST\<close> body of the notarization service and what is read off its answer.\<close>

record NotarizeBody =
  nb_algorithm :: string
  nb_hashAlgorithm :: string
  nb_payloadHash :: string
  nb_publicKey :: string
  nb_signature :: string
  nb_encoding :: string
  nb_mode :: "string option"

record NotarizeReply =
  nr_txid :: "string option"
  nr_id :: "string option"

record anchor_world =
  w_open :: "string \<Rightarrow> string option"
  w_writeln :: "string \<Rightarrow> AnchorLine \<Rightarrow> string option"
  w_post :: "string \<Rightarrow> string \<Rightarrow> NotarizeBody \<Rightarrow> string + string"
  w_into_json :: "string \<Rightarrow> string + NotarizeReply"
  w_base64 :: "byte list \<Rightarrow> string"

definition file_anchor ::
  "prims \<Rightarrow> anchor_world \<Rightarrow> FileAnchor \<Rightarrow> Checkpoint \<Rightarrow> (AnchorError + Receipt) \<times> FileAnchor" where
  "file_anchor P W b cp =
     (let root = cp_root cp;
          line = \<lparr>al_from_height = cp_from_height cp, al_to_height = cp_to_height cp,
                  al_checkpoint_root = hash_to_hex P root,
                  al_op_return_script = hex_encode P (script root)\<rparr>
      in case w_open W (fa_path b) of
           Some err \<Rightarrow> (Inl (Io err), b)
         | None \<Rightarrow>
             (case w_writeln W (fa_path b) line of
                Some err \<Rightarrow> (Inl (Io err), b)
              | None \<Rightarrow>
                  (Inr \<lparr>rc_backend = ''file'',
                        rc_reference = ''file:'' @ fa_path b @ ''#'' @ show_nat (unat (fa_count b)),
                        rc_checkpoint_root = root\<rparr>,
                   b\<lparr>fa_count := fa_count b + 1\<rparr>)))"

record NotaryHashAnchor =
  nh_endpoint :: string
  nh_api_key :: string
  nh_signing_key :: SigningKey
  nh_public_key :: VerifyingKey
  nh_mode :: "string option"

definition notaryhash_new :: "string \<Rightarrow> string \<Rightarrow> SigningKey \<Rightarrow> VerifyingKey \<Rightarrow> NotaryHashAnchor" where
  "notaryhash_new endpoint api_key sk pk =
     \<lparr>nh_endpoint = endpoint, nh_api_key = api_key, nh_signing_key = sk, nh_public_key = pk, nh_mode = None\<rparr>"

definition with_mode :: "string \<Rightarrow> NotaryHashAnchor \<Rightarrow> NotaryHashAnchor" where
  "with_mode mode a = a\<lparr>nh_mode := Some mode\<rparr>"

definition show_crypto_error :: "CryptoError \<Rightarrow> string" where
  "show_crypto_error e =
     (case e of KeyGen \<Rightarrow> ''key generation failed'' | Sign \<Rightarrow> ''signing failed''
      | Encoding \<Rightarrow> ''invalid encoding or length'')"

definition notarize_body ::
  "prims \<Rightarrow> anchor_world \<Rightarrow> NotaryHashAnchor \<Rightarrow> Hash \<Rightarrow> AnchorError + NotarizeBody" where
  "notarize_body P W b root =
     (case sk_sign P (nh_signing_key b) (as_bytes root) [] of
        Inl e \<Rightarrow> Inl (Io (''anchor signing failed: '' @ show_crypto_error e))
      | Inr signature \<Rightarrow>
          Inr \<lparr>nb_algorithm = ''ML-DSA-65'', nb_hashAlgorithm = ''SHA-256'',
               nb_payloadHash = hash_to_hex P root,
               nb_publicKey = w_base64 W (vk_bytes (nh_public_key b)),
               nb_signature = w_base64 W (sig_bytes signature),
               nb_encoding = ''base64'', nb_mode = nh_mode b\<rparr>)"

definition trim_end :: "char \<Rightarrow> string \<Rightarrow> string" where
  "trim_end c s = rev (dropWhile (\<lambda>x. x = c) (rev s))"

definition notarize_reference :: "NotarizeReply \<Rightarrow> string" where
  "notarize_reference reply =
     (let txid = (case nr_txid reply of Some t \<Rightarrow> t | None \<Rightarrow> [])
      in if txid \<noteq> [] then ''bsv-mainnet:'' @ txid
         else case nr_id reply of
           Some i \<Rightarrow> ''notaryhash:cert:'' @ i
         | None \<Rightarrow> ''notaryhash:pending'')"

definition notaryhash_anchor ::
  "prims \<Rightarrow> anchor_world \<Rightarrow> NotaryHashAnchor \<Rightarrow> Checkpoint \<Rightarrow> (AnchorError + Receipt) \<times> NotaryHashAnchor" where
  "notaryhash_anchor P W b cp =
     (case notarize_body P W b (cp_root cp) of
        Inl e \<Rightarrow> (Inl e, b)
      | Inr body \<Rightarrow>
          (case w_post W (trim_end (CHR ''/'') (nh_endpoint b) @ ''/v1/notarize'') (nh_api_key b) body of
             Inl err \<Rightarrow> (Inl (Io (''notarize request failed: '' @ err)), b)
           | Inr response \<Rightarrow>
               (case w_into_json W response of
                  Inl err \<Rightarrow> (Inl (Io (''bad notarize response: '' @ err)), b)
                | Inr reply \<Rightarrow>
                    (Inr \<lparr>rc_backend = ''notaryhash-bsv'', rc_reference = notarize_reference reply,
                          rc_checkpoint_root = cp_root cp\<rparr>, b))))"

text \<open>\<^verbatim>\<open>Box<dyn AnchorBackend>\<close>: one of the three implementations.\<close>

datatype AnchorBackend = Mock MockAnchor | File FileAnchor | NotaryHash NotaryHashAnchor

definition backend_name :: "AnchorBackend \<Rightarrow> string" where
  "backend_name b = (case b of Mock _ \<Rightarrow> ''mock'' | File _ \<Rightarrow> ''file'' | NotaryHash _ \<Rightarrow> ''notaryhash-bsv'')"

definition backend_anchor ::
  "prims \<Rightarrow> anchor_world \<Rightarrow> AnchorBackend \<Rightarrow> Checkpoint \<Rightarrow> (AnchorError + Receipt) \<times> AnchorBackend" where
  "backend_anchor P W b cp =
     (case b of
        Mock m \<Rightarrow> map_prod id Mock (mock_anchor P m cp)
      | File f \<Rightarrow> map_prod id File (file_anchor P W f cp)
      | NotaryHash n \<Rightarrow> map_prod id NotaryHash (notaryhash_anchor P W n cp))"

section \<open>The anchored proof\<close>

record AnchorRecord =
  ar_from_height :: u64
  ar_to_height :: u64
  ar_checkpoint_root :: Hash
  ar_receipt :: Receipt

record AnchoredProof =
  ap_notarization :: NotarizationProof
  ap_checkpoint :: CheckpointInclusion
  ap_record :: AnchorRecord

definition anchored_verify :: "prims \<Rightarrow> AnchoredProof \<Rightarrow> ValidatorSet \<Rightarrow> AnchorError + unit" where
  "anchored_verify P ap vset =
     (case proof_verify P (ap_notarization ap) vset of
        Inl e \<Rightarrow> Inl (Notarization e)
      | Inr _ \<Rightarrow>
          if ci_block_id (ap_checkpoint ap) \<noteq> header_id P (np_header (ap_notarization ap))
          then Inl BlockMismatch
          else if \<not> inclusion_verify P (ap_checkpoint ap) (ar_checkpoint_root (ap_record ap))
          then Inl NotInCheckpoint
          else if rc_checkpoint_root (ar_receipt (ap_record ap)) \<noteq> ar_checkpoint_root (ap_record ap)
          then Inl ReceiptMismatch
          else Inr ())"

section \<open>The service\<close>

record Window =
  win_block_ids :: "Hash list"
  win_from_height :: u64
  win_to_height :: u64
  win_record :: AnchorRecord

record AnchorService =
  svc_backend :: AnchorBackend
  svc_interval :: nat
  svc_pending_ids :: "Hash list"
  svc_pending_from :: "u64 option"
  svc_pending_to :: u64
  svc_history :: "Window list"

definition service_new :: "AnchorBackend \<Rightarrow> nat \<Rightarrow> AnchorService option" where
  "service_new backend interval =
     (if interval \<ge> 1 then
        Some \<lparr>svc_backend = backend, svc_interval = interval, svc_pending_ids = [],
              svc_pending_from = None, svc_pending_to = 0, svc_history = []\<rparr>
      else None)"

definition flush :: "prims \<Rightarrow> anchor_world \<Rightarrow> AnchorService \<Rightarrow> AnchorRecord option \<times> AnchorService" where
  "flush P W s =
     (case svc_pending_from s of
        None \<Rightarrow> (None, s)
      | Some from_h \<Rightarrow>
          (case from_block_ids P (svc_pending_ids s) from_h (svc_pending_to s) of
             None \<Rightarrow> (None, s)
           | Some checkpoint \<Rightarrow>
               (case backend_anchor P W (svc_backend s) checkpoint of
                  (Inl _, b) \<Rightarrow> (None, s\<lparr>svc_backend := b\<rparr>)
                | (Inr receipt, b) \<Rightarrow>
                    (let rec = \<lparr>ar_from_height = from_h, ar_to_height = svc_pending_to s,
                                ar_checkpoint_root = cp_root checkpoint, ar_receipt = receipt\<rparr>;
                         win = \<lparr>win_block_ids = svc_pending_ids s, win_from_height = from_h,
                                win_to_height = svc_pending_to s, win_record = rec\<rparr>
                     in (Some rec,
                         s\<lparr>svc_backend := b, svc_history := svc_history s @ [win],
                           svc_pending_ids := [], svc_pending_from := None\<rparr>)))))"

definition record_block ::
  "prims \<Rightarrow> anchor_world \<Rightarrow> Hash \<Rightarrow> u64 \<Rightarrow> AnchorService \<Rightarrow> AnchorRecord option \<times> AnchorService" where
  "record_block P W block_id height s =
     (let s1 = (if svc_pending_from s = None then s\<lparr>svc_pending_from := Some height\<rparr> else s);
          s2 = s1\<lparr>svc_pending_to := height, svc_pending_ids := svc_pending_ids s1 @ [block_id]\<rparr>
      in if svc_interval s2 \<le> length (svc_pending_ids s2) then flush P W s2 else (None, s2))"

definition service_records :: "AnchorService \<Rightarrow> AnchorRecord list" where
  "service_records s = map win_record (svc_history s)"

fun inclusion_loop :: "prims \<Rightarrow> Hash \<Rightarrow> Window list \<Rightarrow> (CheckpointInclusion \<times> AnchorRecord) option" where
  "inclusion_loop P block_id [] = None"
| "inclusion_loop P block_id (w # ws) =
     (if block_id \<in> set (win_block_ids w) then
        do {
          cp \<leftarrow> from_block_ids P (win_block_ids w) (win_from_height w) (win_to_height w);
          inclusion \<leftarrow> checkpoint_inclusion cp block_id;
          Some (inclusion, win_record w)
        }
      else inclusion_loop P block_id ws)"

definition inclusion_for ::
  "prims \<Rightarrow> AnchorService \<Rightarrow> Hash \<Rightarrow> (CheckpointInclusion \<times> AnchorRecord) option" where
  "inclusion_for P s block_id = inclusion_loop P block_id (svc_history s)"

definition anchor_proof :: "prims \<Rightarrow> AnchorService \<Rightarrow> NotarizationProof \<Rightarrow> AnchoredProof option" where
  "anchor_proof P s notarization =
     do {
       (checkpoint, rec) \<leftarrow> inclusion_for P s (header_id P (np_header notarization));
       Some \<lparr>ap_notarization = notarization, ap_checkpoint = checkpoint, ap_record = rec\<rparr>
     }"

section \<open>Lemmas on checkpoints\<close>

lemma position_of_Some:
  "position_of p xs = Some i \<longleftrightarrow> i < length xs \<and> p (xs ! i) \<and> (\<forall>j<i. \<not> p (xs ! j))"
proof (induction xs arbitrary: i)
  case (Cons x xs)
  then show ?case by (cases i) (auto simp: less_Suc_eq_0_disj)
qed simp

lemma position_of_None: "position_of p xs = None \<longleftrightarrow> (\<forall>x\<in>set xs. \<not> p x)"
  by (induction xs) auto

lemma position_of_mem:
  assumes "x \<in> set xs"
  obtains i where "position_of (\<lambda>y. y = x) xs = Some i" "i < length xs" "xs ! i = x"
proof -
  have "position_of (\<lambda>y. y = x) xs \<noteq> None" using assms by (auto simp: position_of_None)
  then obtain i where "position_of (\<lambda>y. y = x) xs = Some i" by auto
  then show ?thesis by (auto simp: position_of_Some intro: that)
qed

lemma from_block_ids_Some:
  "ids \<noteq> [] \<Longrightarrow> from_block_ids P ids a b = Some
     \<lparr>cp_from_height = a, cp_to_height = b, cp_block_ids = ids,
      cp_tree = merkle_build P (map (checkpoint_leaf P) ids),
      cp_root = merkle_root_of P (merkle_build P (map (checkpoint_leaf P) ids))\<rparr>"
  by (simp add: from_block_ids_def Let_def)

lemma checkpoint_inclusion_complete:
  assumes "from_block_ids P ids a b = Some cp" and "x \<in> set ids"
  shows "\<exists>ci. checkpoint_inclusion cp x = Some ci \<and> ci_block_id ci = x \<and> inclusion_verify P ci (cp_root cp)"
proof -
  from assms(1) have ids: "ids \<noteq> []" by (auto simp: from_block_ids_def)
  let ?leaves = "map (checkpoint_leaf P) ids"
  obtain i where i: "position_of (\<lambda>y. y = x) ids = Some i" "i < length ?leaves" "ids ! i = x"
    using position_of_mem [OF assms(2)] by (metis length_map)
  have cp: "cp_block_ids cp = ids" "cp_tree cp = merkle_build P ?leaves"
      "cp_root cp = merkle_root_of P (merkle_build P ?leaves)"
    using assms(1) from_block_ids_Some [OF ids, of P a b] by auto
  have "merkle_root_of P (merkle_build P ?leaves) = pair_all (hash_node P) ?leaves ! 0"
    using ids by (intro merkle_root_nonempty) simp
  with climb_proof_loop [OF i(2), of P] merkle_proof_in_range [OF i(2), of P] i cp show ?thesis
    by (auto simp: checkpoint_inclusion_def inclusion_verify_def compute_root_def)
qed

lemma checkpoint_inclusion_outsider: "x \<notin> set (cp_block_ids cp) \<Longrightarrow> checkpoint_inclusion cp x = None"
proof -
  assume "x \<notin> set (cp_block_ids cp)"
  then have "position_of (\<lambda>b. b = x) (cp_block_ids cp) = None" by (auto simp: position_of_None)
  then show ?thesis by (simp add: checkpoint_inclusion_def)
qed

text \<open>The inputs that are hashed when a checkpoint is built and when an inclusion is checked.\<close>

definition checkpoint_preimages :: "prims \<Rightarrow> Hash list \<Rightarrow> byte list set" where
  "checkpoint_preimages P ids = merkle_preimages P (map as_bytes ids)"

definition inclusion_preimages :: "prims \<Rightarrow> CheckpointInclusion \<Rightarrow> byte list set" where
  "inclusion_preimages P ci = insert (LEAF_PREFIX # as_bytes (ci_block_id ci))
     (path_preimages P (checkpoint_leaf P (ci_block_id ci)) (steps (ci_path ci)))"

lemma inclusion_sound:
  assumes "sha3_width P"
    and "collision_free P (checkpoint_preimages P ids \<union> inclusion_preimages P ci)"
    and "path_wf (ci_path ci)"
    and "from_block_ids P ids a b = Some cp" and "inclusion_verify P ci (cp_root cp)"
  shows "ci_block_id ci \<in> set ids"
proof -
  let ?t = "data_tree (map as_bytes ids)"
  from assms(4) have ids: "ids \<noteq> []" by (auto simp: from_block_ids_def)
  have "cp_root cp = merkle_root_of P (merkle_build P (map (hash_leaf P) (map as_bytes ids)))"
    using assms(4) from_block_ids_Some [OF ids, of P a b] by (auto simp: comp_def checkpoint_leaf_def [abs_def])
  also have "\<dots> = data_root P ?t" using ids by (intro merkle_root_data_root) simp
  finally have "foldl (climb P) (hash_leaf P (as_bytes (ci_block_id ci))) (steps (ci_path ci)) = data_root P ?t"
    using assms(5) by (simp add: inclusion_verify_def compute_root_def checkpoint_leaf_def)
  then have "as_bytes (ci_block_id ci) \<in> set (tips ?t)"
    using assms(2,3) ids
    by (intro path_reaches_tip [OF assms(1,2)])
      (auto simp: checkpoint_preimages_def inclusion_preimages_def merkle_preimages_def path_wf_def checkpoint_leaf_def)
  then show ?thesis using ids by (simp add: tips_data_tree image_iff)
qed

section \<open>Lemmas on the encoding\<close>

lemma strip_prefix_Some: "strip_prefix pre xs = Some ys \<longleftrightarrow> xs = pre @ ys"
  by (auto simp: strip_prefix_def) (metis append_take_drop_id)

lemma split_first_Some: "split_first xs = Some (y, ys) \<longleftrightarrow> xs = y # ys"
  by (auto simp: split_first_def split: list.splits)

lemma get_to_Some: "get_to n xs = Some ys \<longleftrightarrow> length ys = n \<and> (\<exists>zs. xs = ys @ zs)"
  by (auto simp: get_to_def) (metis append_take_drop_id)

lemma length_MAGIC [simp]: "length MAGIC = 4"
  by (simp add: MAGIC_def)

lemma parse_root_iff:
  "parse_root s = Some root \<longleftrightarrow> length (as_bytes root) = HASH_LEN \<and> (\<exists>rest. s = script root @ rest)"
proof
  assume "parse_root s = Some root"
  then obtain len data rest where s: "s = [OP_FALSE, OP_RETURN] @ len # (MAGIC @ VERSION # data) @ rest"
    and len: "length (MAGIC @ VERSION # data) = unat len" and data: "length data = HASH_LEN" "root = Hash data"
    by (auto simp: parse_root_def bind_eq_Some_conv strip_prefix_Some split_first_Some get_to_Some
        split: if_splits)
  from len data have "unat len = 37" by (simp add: HASH_LEN_def)
  then have "len = 37" by (simp add: word_unat_eq_iff)
  with s data show "length (as_bytes root) = HASH_LEN \<and> (\<exists>rest. s = script root @ rest)"
    by (simp add: script_def payload_def HASH_LEN_def)
next
  assume "length (as_bytes root) = HASH_LEN \<and> (\<exists>rest. s = script root @ rest)"
  then obtain rest where root: "length (as_bytes root) = 32" and s: "s = script root @ rest"
    by (auto simp: HASH_LEN_def)
  have "get_to 37 (payload root @ rest) = Some (payload root)"
    using root by (simp add: get_to_def payload_def)
  then show "parse_root s = Some root"
    using root by (simp add: s parse_root_def script_def Let_def strip_prefix_def split_first_def
        payload_def HASH_LEN_def)
qed

section \<open>The contract of a backend\<close>

text \<open>
  What the service relies on of \<^verbatim>\<open>AnchorBackend\<close>: a receipt names the backend and carries the
  root of the checkpoint it was asked to publish.
\<close>

locale anchor_backend =
  fixes name :: "'b \<Rightarrow> string"
    and anchor :: "anchor_world \<Rightarrow> 'b \<Rightarrow> Checkpoint \<Rightarrow> (AnchorError + Receipt) \<times> 'b"
  assumes receipt_root: "anchor W b cp = (Inr r, b') \<Longrightarrow> rc_checkpoint_root r = cp_root cp"
    and receipt_backend: "anchor W b cp = (Inr r, b') \<Longrightarrow> rc_backend r = name b"
    and name_kept: "anchor W b cp = (res, b') \<Longrightarrow> name b' = name b"
begin

text \<open>Publishing a list of checkpoints in turn, keeping the receipts of those that succeed.\<close>

primrec publish_all :: "anchor_world \<Rightarrow> 'b \<Rightarrow> Checkpoint list \<Rightarrow> (Checkpoint \<times> Receipt) list" where
  "publish_all W b [] = []"
| "publish_all W b (cp # cps) =
     (case anchor W b cp of
        (Inl _, b') \<Rightarrow> publish_all W b' cps
      | (Inr r, b') \<Rightarrow> (cp, r) # publish_all W b' cps)"

lemma publish_all_receipts:
  "(cp, r) \<in> set (publish_all W b cps) \<Longrightarrow> rc_checkpoint_root r = cp_root cp \<and> rc_backend r = name b"
proof (induction cps arbitrary: b)
  case (Cons c cps)
  obtain res b' where a: "anchor W b c = (res, b')" by force
  show ?case
  proof (cases res)
    case (Inl e)
    with Cons a name_kept [OF a] show ?thesis by simp
  next
    case (Inr r')
    with Cons a name_kept [OF a] receipt_root [of W b c] receipt_backend [of W b c] show ?thesis by auto
  qed
qed simp

end

interpretation mock_backend: anchor_backend "\<lambda>_. ''mock''" "\<lambda>W. mock_anchor P" for P
  by unfold_locales (auto simp: mock_anchor_def Let_def)

interpretation file_backend: anchor_backend "\<lambda>_. ''file''" "file_anchor P" for P
  by unfold_locales (auto simp: file_anchor_def Let_def split: option.splits)

interpretation notaryhash_backend: anchor_backend "\<lambda>_. ''notaryhash-bsv''" "notaryhash_anchor P" for P
  by unfold_locales (auto simp: notaryhash_anchor_def split: sum.splits)

interpretation dyn_backend: anchor_backend backend_name "backend_anchor P" for P
proof
  fix W b cp r b'
  assume a: "backend_anchor P W b cp = (Inr r, b')"
  show "rc_checkpoint_root r = cp_root cp"
    using a by (cases b)
      (auto simp: backend_anchor_def map_prod_def split: prod.splits
        dest: mock_backend.receipt_root file_backend.receipt_root notaryhash_backend.receipt_root)
  show "rc_backend r = backend_name b"
    using a by (cases b)
      (auto simp: backend_anchor_def backend_name_def map_prod_def split: prod.splits
        dest: mock_backend.receipt_backend file_backend.receipt_backend notaryhash_backend.receipt_backend)
next
  fix W b cp res b'
  assume "backend_anchor P W b cp = (res, b')"
  then show "backend_name b' = backend_name b"
    by (cases b) (auto simp: backend_anchor_def backend_name_def map_prod_def split: prod.splits)
qed

section \<open>The invariant of the service\<close>

definition window_ok :: "prims \<Rightarrow> Window \<Rightarrow> bool" where
  "window_ok P w \<longleftrightarrow> win_block_ids w \<noteq> []
     \<and> ar_checkpoint_root (win_record w)
         = merkle_root_of P (merkle_build P (map (checkpoint_leaf P) (win_block_ids w)))
     \<and> rc_checkpoint_root (ar_receipt (win_record w)) = ar_checkpoint_root (win_record w)
     \<and> ar_from_height (win_record w) = win_from_height w \<and> ar_to_height (win_record w) = win_to_height w"

definition service_inv :: "prims \<Rightarrow> AnchorService \<Rightarrow> bool" where
  "service_inv P s \<longleftrightarrow> 1 \<le> svc_interval s
     \<and> (svc_pending_from s = None \<longleftrightarrow> svc_pending_ids s = [])
     \<and> (\<forall>w\<in>set (svc_history s). window_ok P w)"

text \<open>Every block the service was told of, in order: the published windows, then the pending ones.\<close>

definition service_ids :: "AnchorService \<Rightarrow> Hash list" where
  "service_ids s = concat (map win_block_ids (svc_history s)) @ svc_pending_ids s"

lemma flush_cases:
  assumes "flush P W s = (r, s')"
  obtains (kept) b where "r = None" "s' = s\<lparr>svc_backend := b\<rparr>"
  | (sent) from_h cp receipt b where "svc_pending_from s = Some from_h"
      "from_block_ids P (svc_pending_ids s) from_h (svc_pending_to s) = Some cp"
      "backend_anchor P W (svc_backend s) cp = (Inr receipt, b)"
      "r = Some \<lparr>ar_from_height = from_h, ar_to_height = svc_pending_to s,
                ar_checkpoint_root = cp_root cp, ar_receipt = receipt\<rparr>"
      "s' = s\<lparr>svc_backend := b, svc_history := svc_history s @
               [\<lparr>win_block_ids = svc_pending_ids s, win_from_height = from_h,
                 win_to_height = svc_pending_to s, win_record = the r\<rparr>],
             svc_pending_ids := [], svc_pending_from := None\<rparr>"
proof -
  have "s = s\<lparr>svc_backend := svc_backend s\<rparr>" by simp
  with assms kept [of "svc_backend s"] show ?thesis
    by (auto simp: flush_def Let_def split: option.splits prod.splits sum.splits intro: kept sent)
qed

lemma flush_inv:
  assumes "service_inv P s" and "flush P W s = (r, s')"
  shows "service_inv P s'"
  using assms(2)
proof (cases rule: flush_cases)
  case (kept b)
  with assms(1) show ?thesis by (simp add: service_inv_def)
next
  case (sent from_h cp receipt b)
  with assms(1) dyn_backend.receipt_root [OF sent(3)] show ?thesis
    by (auto simp: service_inv_def window_ok_def from_block_ids_def Let_def split: if_splits)
qed

lemma flush_ids: "flush P W s = (r, s') \<Longrightarrow> service_ids s' = service_ids s"
  by (auto simp: flush_def service_ids_def Let_def split: option.splits prod.splits sum.splits)

lemma record_block_inv:
  assumes "service_inv P s" and "record_block P W bid h s = (r, s')"
  shows "service_inv P s'"
proof -
  define s2 where "s2 = s\<lparr>svc_pending_from := (if svc_pending_from s = None then Some h else svc_pending_from s),
    svc_pending_to := h, svc_pending_ids := svc_pending_ids s @ [bid]\<rparr>"
  have "service_inv P s2" using assms(1) by (auto simp: service_inv_def s2_def)
  moreover have "record_block P W bid h s = (if svc_interval s2 \<le> length (svc_pending_ids s2) then flush P W s2 else (None, s2))"
    by (cases s) (simp add: record_block_def s2_def Let_def)
  ultimately show ?thesis using assms(2) by (auto split: if_splits dest: flush_inv [OF _ sym])
qed

lemma record_block_ids:
  assumes "record_block P W bid h s = (r, s')"
  shows "service_ids s' = service_ids s @ [bid]"
  using assms
  by (auto simp: record_block_def Let_def split: if_splits dest!: flush_ids) (auto simp: service_ids_def)

lemma inclusion_loop_None:
  assumes "\<forall>w\<in>set ws. window_ok P w"
  shows "inclusion_loop P bid ws = None \<longleftrightarrow> (\<forall>w\<in>set ws. bid \<notin> set (win_block_ids w))"
  using assms
proof (induction ws)
  case (Cons w ws)
  show ?case
  proof (cases "bid \<in> set (win_block_ids w)")
    case True
    with Cons.prems obtain cp where cp: "from_block_ids P (win_block_ids w) (win_from_height w) (win_to_height w) = Some cp"
      by (auto simp: from_block_ids_Some window_ok_def)
    from checkpoint_inclusion_complete [OF this True] cp True show ?thesis by auto
  qed (use Cons in auto)
qed simp

lemma inclusion_loop_Some:
  assumes "\<forall>w\<in>set ws. window_ok P w" and "inclusion_loop P bid ws = Some (ci, rec)"
  shows "ci_block_id ci = bid \<and> inclusion_verify P ci (ar_checkpoint_root rec)
    \<and> rc_checkpoint_root (ar_receipt rec) = ar_checkpoint_root rec
    \<and> (\<exists>w\<in>set ws. rec = win_record w \<and> bid \<in> set (win_block_ids w))"
  using assms
proof (induction ws)
  case (Cons w ws)
  show ?case
  proof (cases "bid \<in> set (win_block_ids w)")
    case True
    with Cons.prems obtain cp where cp: "from_block_ids P (win_block_ids w) (win_from_height w) (win_to_height w) = Some cp"
      by (auto simp: from_block_ids_Some window_ok_def)
    moreover from cp Cons.prems(1) have "cp_root cp = ar_checkpoint_root (win_record w)"
      by (auto simp: from_block_ids_def Let_def window_ok_def split: if_splits)
    ultimately show ?thesis
      using checkpoint_inclusion_complete [OF cp True] True Cons.prems by (auto simp: window_ok_def)
  qed (use Cons in auto)
qed simp

lemma anchored_verify_Inr_iff:
  "anchored_verify P ap vset = Inr () \<longleftrightarrow>
     proof_verify P (ap_notarization ap) vset = Inr ()
     \<and> ci_block_id (ap_checkpoint ap) = header_id P (np_header (ap_notarization ap))
     \<and> inclusion_verify P (ap_checkpoint ap) (ar_checkpoint_root (ap_record ap))
     \<and> rc_checkpoint_root (ar_receipt (ap_record ap)) = ar_checkpoint_root (ap_record ap)"
  by (auto simp: anchored_verify_def split: sum.splits)

lemma anchor_proof_verifies:
  assumes "service_inv P s" and "anchor_proof P s p = Some ap" and "proof_verify P p vset = Inr ()"
  shows "anchored_verify P ap vset = Inr ()"
  using assms inclusion_loop_Some [of "svc_history s" P "header_id P (np_header p)"]
  by (auto simp: anchor_proof_def inclusion_for_def service_inv_def bind_eq_Some_conv anchored_verify_Inr_iff)

lemma anchor_proof_None_iff:
  assumes "service_inv P s"
  shows "anchor_proof P s p = None \<longleftrightarrow>
    header_id P (np_header p) \<notin> set (concat (map win_block_ids (svc_history s)))"
  using assms inclusion_loop_None [of "svc_history s" P "header_id P (np_header p)"]
  by (cases "inclusion_for P s (header_id P (np_header p))")
    (auto simp: anchor_proof_def service_inv_def inclusion_for_def)

end
