(* ===== verification/Node_Loop.thy ===== *)
theory Node_Loop
  imports Node_Io Anchor
begin

text \<open>
  The node's event loop (\<^verbatim>\<open>crates/node/src/node.rs\<close>), which drives the consensus engine,
  appends finalized blocks to the store, feeds the anchoring service and serves catch-up. The
  loop is serial: one event is handled to the end before the next is received, so a run is a
  list of events, each with what the outside world (clock, disk, anchor backend) answers then.
\<close>

section \<open>Events and messages\<close>

datatype WireMsg =
    WConsensus ConsensusMsg
  | WAttestation Attestation
  | WGovernance SignedValidatorChange
  | WGetBlocks u64
  | WBlocks "SlcBlock list"

datatype Event =
    EvWire WireMsg
  | EvTimeout u64 u64 TimeoutKind
  | EvSubmit Attestation
  | EvSubmitGovernance SignedValidatorChange
  | EvAddPeer string
  | EvRegossip
  | EvSyncPoll
  | EvShutdown

text \<open>What leaves the loop: broadcasts to the peers and timers with their delay in milliseconds.\<close>

datatype NodeOut = Send WireMsg | Arm u64 u64 TimeoutKind nat

record Node =
  nd_engine :: Engine
  nd_store :: BlockStore
  nd_transport :: Transport
  nd_base_timeout :: nat
  nd_anchor :: "AnchorService option"
  nd_anchor_records :: "AnchorRecord list"
  nd_running :: bool

record node_env =
  env_now :: u64
  env_write_ok :: bool
  env_world :: anchor_world

definition MAX_SYNC_BATCH :: u64 where
  "MAX_SYNC_BATCH = 50"

section \<open>Construction\<close>

definition replay_registry :: "VerifyingKey list \<Rightarrow> SlcBlock list \<Rightarrow> ValidatorRegistry" where
  "replay_registry keys blocks =
     fold (\<lambda>b reg. fold (\<lambda>g reg. registry_record reg (svc_change g)) (blk_governance b) reg)
       blocks (registry_new keys)"

definition node_new ::
  "prims \<Rightarrow> Transport \<Rightarrow> GenesisConfig \<Rightarrow> SigningKey \<Rightarrow> VerifyingKey \<Rightarrow> BlockStore \<Rightarrow> nat \<Rightarrow> Node option" where
  "node_new P transport genesis me_sk me_pk store base_timeout =
     (let (tip, last_height) = store_tip P store;
          registry = replay_registry (validator_keys genesis) (snapshot store)
      in do {
        engine \<leftarrow> engine_with_registry P registry me_sk me_pk tip (last_height + 1);
        Some \<lparr>nd_engine = engine, nd_store = store, nd_transport = transport,
              nd_base_timeout = base_timeout, nd_anchor = None, nd_anchor_records = [], nd_running = True\<rparr>
      })"

definition with_anchor :: "AnchorService \<Rightarrow> Node \<Rightarrow> Node" where
  "with_anchor service n = n\<lparr>nd_anchor := Some service\<rparr>"

section \<open>Effects\<close>

definition timeout_for :: "Node \<Rightarrow> u64 \<Rightarrow> nat" where
  "timeout_for n round = nd_base_timeout n * unat (ucast round + 1 :: u32)"

definition handle_committed ::
  "prims \<Rightarrow> (SlcBlock \<Rightarrow> string option) \<Rightarrow> node_env \<Rightarrow> SlcBlock \<Rightarrow> Node \<Rightarrow> Node" where
  "handle_committed P ser env block n =
     (let n1 = n\<lparr>nd_store := store_append ser (env_write_ok env) block (nd_store n)\<rparr> in
      case nd_anchor n1 of
        None \<Rightarrow> n1
      | Some service \<Rightarrow>
          (case record_block P (env_world env) (header_id P (blk_header block))
                  (bh_height (blk_header block)) service of
             (None, service') \<Rightarrow> n1\<lparr>nd_anchor := Some service'\<rparr>
           | (Some r, service') \<Rightarrow>
               n1\<lparr>nd_anchor := Some service', nd_anchor_records := nd_anchor_records n1 @ [r]\<rparr>))"

fun handle_effects ::
  "prims \<Rightarrow> (SlcBlock \<Rightarrow> string option) \<Rightarrow> node_env \<Rightarrow> Effect list \<Rightarrow> Node \<Rightarrow> Node \<times> NodeOut list" where
  "handle_effects P ser env [] n = (n, [])"
| "handle_effects P ser env (effect # rest) n =
     (let (n1, out1) =
        (case effect of
           Broadcast msg \<Rightarrow> (n, [Send (WConsensus msg)])
         | ScheduleTimeout height round kind \<Rightarrow> (n, [Arm height round kind (timeout_for n round)])
         | Committed block \<Rightarrow> (handle_committed P ser env block n, []));
          (n2, out2) = handle_effects P ser env rest n1
      in (n2, out1 @ out2))"

section \<open>The loop\<close>

fun sync_loop ::
  "prims \<Rightarrow> (SlcBlock \<Rightarrow> string option) \<Rightarrow> node_env \<Rightarrow> SlcBlock list \<Rightarrow> bool \<Rightarrow> Node \<Rightarrow> (bool \<times> Node) option" where
  "sync_loop P ser env [] applied n = Some (applied, n)"
| "sync_loop P ser env (b # rest) applied n =
     (if bh_height (blk_header b) = e_height (nd_engine n) then
        (case apply_synced_block P b (nd_engine n) of
           None \<Rightarrow> None
         | Some (Inr e') \<Rightarrow>
             sync_loop P ser env rest True
               (n\<lparr>nd_engine := e', nd_store := store_append ser (env_write_ok env) b (nd_store n)\<rparr>)
         | Some (Inl _) \<Rightarrow> Some (applied, n))
      else sync_loop P ser env rest applied n)"

definition lift_engine ::
  "(Engine \<times> Effect list) option \<Rightarrow> Node \<Rightarrow> (Node \<times> NodeOut list \<times> Effect list) option" where
  "lift_engine r n = do { (e', effects) \<leftarrow> r; Some (n\<lparr>nd_engine := e'\<rparr>, [], effects) }"

definition drop_ok :: "(bool \<times> Engine \<times> Effect list) option \<Rightarrow> (Engine \<times> Effect list) option" where
  "drop_ok r = do { (ok, e', out) \<leftarrow> r; Some (e', out) }"

definition dispatch_wire ::
  "prims \<Rightarrow> (SlcBlock \<Rightarrow> string option) \<Rightarrow> node_env \<Rightarrow> WireMsg \<Rightarrow> Node
   \<Rightarrow> (Node \<times> NodeOut list \<times> Effect list) option" where
  "dispatch_wire P ser env msg n =
     (case msg of
        WConsensus m \<Rightarrow> lift_engine (on_message P m (nd_engine n)) n
      | WAttestation att \<Rightarrow> lift_engine (add_attestation P att (nd_engine n)) n
      | WGovernance change \<Rightarrow> lift_engine (drop_ok (add_governance P change (nd_engine n))) n
      | WGetBlocks from_h \<Rightarrow>
          (let batch = filter (\<lambda>b. from_h \<le> bh_height (blk_header b)
                                 \<and> bh_height (blk_header b) < from_h + MAX_SYNC_BATCH)
                 (snapshot (nd_store n))
           in Some (n, if batch \<noteq> [] then [Send (WBlocks batch)] else [], []))
      | WBlocks blocks \<Rightarrow>
          do {
            (applied, n1) \<leftarrow> sync_loop P ser env (sort_key (\<lambda>b. bh_height (blk_header b)) blocks) False n;
            if applied then lift_engine (resume P (nd_engine n1)) n1 else Some (n1, [], [])
          })"

definition dispatch ::
  "prims \<Rightarrow> (SlcBlock \<Rightarrow> string option) \<Rightarrow> node_env \<Rightarrow> Event \<Rightarrow> Node
   \<Rightarrow> (Node \<times> NodeOut list \<times> Effect list) option" where
  "dispatch P ser env ev n =
     (case ev of
        EvWire msg \<Rightarrow> dispatch_wire P ser env msg n
      | EvTimeout h r kind \<Rightarrow> lift_engine (on_timeout P h r kind (nd_engine n)) n
      | EvSubmit att \<Rightarrow>
          do { (n1, out, effects) \<leftarrow> lift_engine (add_attestation P att (nd_engine n)) n;
               Some (n1, Send (WAttestation att) # out, effects) }
      | EvSubmitGovernance change \<Rightarrow>
          do { (n1, out, effects) \<leftarrow> lift_engine (drop_ok (add_governance P change (nd_engine n))) n;
               Some (n1, Send (WGovernance change) # out, effects) }
      | EvAddPeer addr \<Rightarrow> Some (n\<lparr>nd_transport := add_peer addr (nd_transport n)\<rparr>, [], [])
      | EvRegossip \<Rightarrow> Some (n, [], regossip P (nd_engine n))
      | EvSyncPoll \<Rightarrow> Some (n, [Send (WGetBlocks (e_height (nd_engine n)))], [])
      | EvShutdown \<Rightarrow> Some (n\<lparr>nd_running := False\<rparr>, [], []))"

definition node_event ::
  "prims \<Rightarrow> (SlcBlock \<Rightarrow> string option) \<Rightarrow> node_env \<Rightarrow> Event \<Rightarrow> Node \<Rightarrow> (Node \<times> NodeOut list) option" where
  "node_event P ser env ev n =
     (if \<not> nd_running n then Some (n, [])
      else do {
        (n1, out1, effects) \<leftarrow>
          dispatch P ser env ev (n\<lparr>nd_engine := set_time (env_now env) (nd_engine n)\<rparr>);
        let (n2, out2) = handle_effects P ser env effects n1;
        Some (n2, out1 @ out2)
      })"

definition node_start ::
  "prims \<Rightarrow> (SlcBlock \<Rightarrow> string option) \<Rightarrow> node_env \<Rightarrow> Node \<Rightarrow> (Node \<times> NodeOut list) option" where
  "node_start P ser env n =
     do {
       (e', effects) \<leftarrow> start P (set_time (env_now env) (nd_engine n));
       Some (handle_effects P ser env effects (n\<lparr>nd_engine := e'\<rparr>))
     }"

fun node_events ::
  "prims \<Rightarrow> (SlcBlock \<Rightarrow> string option) \<Rightarrow> (node_env \<times> Event) list \<Rightarrow> Node \<Rightarrow> (Node \<times> NodeOut list) option" where
  "node_events P ser [] n = Some (n, [])"
| "node_events P ser ((env, ev) # rest) n =
     do {
       (n1, out1) \<leftarrow> node_event P ser env ev n;
       (n2, out2) \<leftarrow> node_events P ser rest n1;
       Some (n2, out1 @ out2)
     }"

definition node_run ::
  "prims \<Rightarrow> (SlcBlock \<Rightarrow> string option) \<Rightarrow> node_env \<Rightarrow> (node_env \<times> Event) list \<Rightarrow> Node
   \<Rightarrow> (Node \<times> NodeOut list) option" where
  "node_run P ser env0 evs n =
     do {
       (n1, out1) \<leftarrow> node_start P ser env0 n;
       (n2, out2) \<leftarrow> node_events P ser evs n1;
       Some (n2, out1 @ out2)
     }"

section \<open>A run of the node is a run of its engine\<close>

text \<open>
  \<open>follows n n' out\<close>: the engine took steps labelled \<open>out\<close>, and the store has grown by
  exactly the blocks among the labels.
\<close>

definition follows :: "(Input \<Rightarrow> bool) \<Rightarrow> prims \<Rightarrow> Node \<Rightarrow> Node \<Rightarrow> Effect list \<Rightarrow> bool" where
  "follows F P n n' out \<longleftrightarrow> fed_steps F P (nd_engine n) (nd_engine n') out
     \<and> bs_blocks (nd_store n') = bs_blocks (nd_store n) @ committed_blocks out"

lemma follows_refl: "follows F P n n []"
  by (simp add: follows_def fed_steps.idle)

lemma follows_trans: "follows F P n n1 out1 \<Longrightarrow> follows F P n1 n2 out2 \<Longrightarrow> follows F P n n2 (out1 @ out2)"
  by (auto simp: follows_def intro: fed_steps_trans)

text \<open>The votes among what the node sends.\<close>

fun node_votes :: "NodeOut list \<Rightarrow> VoteMsg list" where
  "node_votes [] = []"
| "node_votes (Send (WConsensus (Vote vm)) # out) = vm # node_votes out"
| "node_votes (_ # out) = node_votes out"

lemma node_votes_append [simp]: "node_votes (xs @ ys) = node_votes xs @ node_votes ys"
  by (induction xs rule: node_votes.induct) auto

lemma handle_committed_frame [simp]:
  "nd_engine (handle_committed P ser env b n) = nd_engine n"
  "nd_running (handle_committed P ser env b n) = nd_running n"
  "bs_blocks (nd_store (handle_committed P ser env b n)) = bs_blocks (nd_store n) @ [b]"
  by (auto simp: handle_committed_def Let_def split: option.splits prod.splits)

lemma handle_effects_frame:
  assumes "handle_effects P ser env effects n = (n', out)"
  shows "nd_engine n' = nd_engine n" and "nd_running n' = nd_running n"
    and "bs_blocks (nd_store n') = bs_blocks (nd_store n) @ committed_blocks effects"
  using assms
  by (induction effects arbitrary: n out rule: committed_blocks.induct) (auto split: prod.splits)

lemma handle_effects_votes:
  "handle_effects P ser env effects n = (n', out) \<Longrightarrow> node_votes out = votes_sent effects"
  by (induction effects arbitrary: n out rule: votes_sent.induct) (auto split: prod.splits)

lemma apply_synced_fresh:
  "apply_synced_block P b e = Some (Inr e') \<Longrightarrow> e_round e' = 0 \<and> e_step e' = StPropose"
  by (auto simp: apply_synced_block_def reload_set_def reset_height_state_def bind_eq_Some_conv Let_def
      split: if_splits sum.splits)

lemma sync_loop_follows:
  assumes "sync_loop P ser env bs applied n = Some (applied', n')"
    and "applied \<Longrightarrow> e_round (nd_engine n) = 0 \<and> e_step (nd_engine n) = StPropose"
    and "\<forall>b\<in>set bs. F (InBlock b)"
  shows "\<exists>out. follows F P n n' out \<and> votes_sent out = []
    \<and> (applied' \<longrightarrow> e_round (nd_engine n') = 0 \<and> e_step (nd_engine n') = StPropose)"
  using assms
proof (induction bs arbitrary: applied n)
  case Nil
  then show ?case by (auto intro: follows_refl)
next
  case (Cons b bs)
  show ?case
  proof (cases "bh_height (blk_header b) = e_height (nd_engine n)")
    case here: True
    with Cons.prems(1) obtain r where r: "apply_synced_block P b (nd_engine n) = Some r"
      by (auto split: option.splits)
    show ?thesis
    proof (cases r)
      case (Inl err)
      with Cons.prems here r show ?thesis by (auto intro: follows_refl)
    next
      case (Inr e')
      let ?n1 = "n\<lparr>nd_engine := e', nd_store := store_append ser (env_write_ok env) b (nd_store n)\<rparr>"
      from Inr r Cons.prems(3) have one: "follows F P n ?n1 [Committed b]"
        by (simp add: follows_def apply_synced_block_steps)
      from Cons.IH [of True ?n1] Cons.prems(1,3) here r Inr apply_synced_fresh [of P b "nd_engine n" e'] obtain out where
        "follows F P ?n1 n' out" "votes_sent out = []"
        "applied' \<longrightarrow> e_round (nd_engine n') = 0 \<and> e_step (nd_engine n') = StPropose" by auto
      with follows_trans [OF one, of n' out] show ?thesis by (intro exI [of _ "[Committed b] @ out"]) simp
    qed
  next
    case False
    with Cons.prems(1) have "sync_loop P ser env bs applied n = Some (applied', n')" by simp
    from Cons.IH [OF this Cons.prems(2)] Cons.prems(3) show ?thesis by simp
  qed
qed

text \<open>An event other than a timeout in the last round a \<^verbatim>\<open>u64\<close> can number.\<close>

definition event_ok :: "Event \<Rightarrow> bool" where
  "event_ok ev \<longleftrightarrow> (case ev of EvTimeout h r kind \<Rightarrow> r \<noteq> - 1 | _ \<Rightarrow> True)"

text \<open>The inputs an event brings from other nodes meet the assumption on the environment.\<close>

definition event_fed :: "(Input \<Rightarrow> bool) \<Rightarrow> Event \<Rightarrow> bool" where
  "event_fed F ev \<longleftrightarrow> (case ev of
     EvWire (WConsensus m) \<Rightarrow> F (InMsg m) | EvWire (WBlocks bs) \<Rightarrow> (\<forall>b\<in>set bs. F (InBlock b)) | _ \<Rightarrow> True)"

lemma event_fed_any [simp]: "event_fed (\<lambda>_. True) ev"
  by (simp add: event_fed_def split: Event.splits WireMsg.splits)

text \<open>
  What an event does before its effects are handled: the engine's label is made of the blocks
  already stored (\<open>pre\<close>) and of the effects still to handle (\<open>lab\<close>). Only a re-gossip has
  effects that are not the label of an engine step (\<open>fresh\<close> is false).
\<close>

definition dispatched :: "bool \<Rightarrow> (Input \<Rightarrow> bool) \<Rightarrow> prims \<Rightarrow> Node \<Rightarrow> Node \<Rightarrow> Effect list \<Rightarrow> bool" where
  "dispatched fresh F P n n' effects \<longleftrightarrow> (\<exists>pre lab.
     fed_steps F P (nd_engine n) (nd_engine n') (pre @ lab)
     \<and> bs_blocks (nd_store n') = bs_blocks (nd_store n) @ committed_blocks pre
     \<and> committed_blocks effects = committed_blocks lab
     \<and> votes_sent pre = [] \<and> (fresh \<longrightarrow> lab = effects))"

lemma dispatchedI:
  "fed_steps F P (nd_engine n) (nd_engine n') (pre @ lab) \<Longrightarrow>
   bs_blocks (nd_store n') = bs_blocks (nd_store n) @ committed_blocks pre \<Longrightarrow>
   committed_blocks effects = committed_blocks lab \<Longrightarrow> votes_sent pre = [] \<Longrightarrow> (fresh \<Longrightarrow> lab = effects) \<Longrightarrow>
   dispatched fresh F P n n' effects"
  by (auto simp: dispatched_def)

lemma dispatched_engine:
  "fed_steps F P (nd_engine n) e' effects \<Longrightarrow> dispatched fresh F P n (n\<lparr>nd_engine := e'\<rparr>) effects"
  by (rule dispatchedI [where pre = "[]" and lab = effects]) simp_all

lemma dispatched_quiet:
  "nd_engine n' = nd_engine n \<Longrightarrow> nd_store n' = nd_store n \<Longrightarrow> committed_blocks effects = [] \<Longrightarrow>
   (fresh \<Longrightarrow> effects = []) \<Longrightarrow> dispatched fresh F P n n' effects"
  by (rule dispatchedI [where pre = "[]" and lab = "[]"]) (simp_all add: fed_steps.idle)

lemma lift_engine_dispatched:
  assumes "lift_engine r n = Some (n', out, effects)"
    and "\<And>e' effects. r = Some (e', effects) \<Longrightarrow> fed_steps F P (nd_engine n) e' effects"
  shows "dispatched fresh F P n n' effects"
  using assms by (auto simp: lift_engine_def bind_eq_Some_conv intro: dispatched_engine)

lemma drop_ok_steps: "drop_ok (add_governance P g e) = Some (e', out) \<Longrightarrow> fed_steps F P e e' out"
  by (auto simp: drop_ok_def bind_eq_Some_conv intro: add_governance_steps)

lemma committed_regossip: "committed_blocks (regossip P e) = []"
  by (auto simp: regossip_def split: option.splits)

lemma blocks_dispatched:
  assumes "dispatch_wire P ser env (WBlocks blocks) n = Some (n', out, effects)" and "\<forall>b\<in>set blocks. F (InBlock b)"
  shows "dispatched fresh F P n n' effects"
proof -
  from assms(1) obtain applied n1 where
    loop: "sync_loop P ser env (sort_key (\<lambda>b. bh_height (blk_header b)) blocks) False n = Some (applied, n1)"
    and rest: "(if applied then lift_engine (resume P (nd_engine n1)) n1 else Some (n1, [], [])) = Some (n', out, effects)"
    by (auto simp: dispatch_wire_def bind_eq_Some_conv)
  from sync_loop_follows [OF loop] assms(2) obtain pre where pre: "follows F P n n1 pre" "votes_sent pre = []"
    and fresh: "applied \<longrightarrow> e_round (nd_engine n1) = 0 \<and> e_step (nd_engine n1) = StPropose" by auto
  show ?thesis
  proof (cases applied)
    case True
    with rest obtain e' where r: "resume P (nd_engine n1) = Some (e', effects)" and n': "n' = n1\<lparr>nd_engine := e'\<rparr>"
      by (auto simp: lift_engine_def bind_eq_Some_conv)
    from resume_steps [OF r] fresh True have "fed_steps F P (nd_engine n1) e' effects" by simp
    with pre show ?thesis
      by (intro dispatchedI [where pre = pre and lab = effects]) (auto simp: follows_def n' intro: fed_steps_trans)
  next
    case False
    with rest pre show ?thesis
      by (intro dispatchedI [where pre = pre and lab = "[]"]) (auto simp: follows_def)
  qed
qed

lemma dispatch_dispatched:
  assumes "dispatch P ser env ev n = Some (n', out, effects)" and "event_ok ev" and "event_fed F ev"
  shows "dispatched (ev \<noteq> EvRegossip) F P n n' effects"
proof (cases ev)
  case (EvWire msg)
  with assms(1) have w: "dispatch_wire P ser env msg n = Some (n', out, effects)" by (simp add: dispatch_def)
  from EvWire assms(3) have fed: "event_fed F (EvWire msg)" by simp
  show ?thesis
  proof (cases msg)
    case (WBlocks bs)
    with w fed show ?thesis by (auto simp: event_fed_def intro: blocks_dispatched)
  qed (use w fed in \<open>auto simp: dispatch_wire_def event_fed_def Let_def elim!: lift_engine_dispatched
        intro: on_message_steps add_attestation_steps drop_ok_steps dispatched_quiet\<close>)
next
  case (EvTimeout h r kind)
  with assms show ?thesis
    by (auto simp: dispatch_def event_ok_def elim!: lift_engine_dispatched intro: on_timeout_steps)
next
  case (EvSubmit att)
  with assms(1) show ?thesis
    by (auto simp: dispatch_def bind_eq_Some_conv elim!: lift_engine_dispatched intro: add_attestation_steps)
next
  case (EvSubmitGovernance g)
  with assms(1) show ?thesis
    by (auto simp: dispatch_def bind_eq_Some_conv elim!: lift_engine_dispatched intro: drop_ok_steps)
qed (use assms(1) in \<open>auto simp: dispatch_def committed_regossip intro!: dispatched_quiet\<close>)

lemma dispatch_votes:
  assumes "dispatch P ser env ev n = Some (n', out, effects)"
  shows "node_votes out = []"
  using assms
  by (auto simp: dispatch_def dispatch_wire_def lift_engine_def bind_eq_Some_conv Let_def
      split: Event.splits WireMsg.splits if_splits)

lemma node_event_follows:
  assumes "node_event P ser env ev n = Some (n', out)" and "event_ok ev" and "event_fed F ev"
  shows "\<exists>lab. follows F P n n' lab \<and> (ev \<noteq> EvRegossip \<longrightarrow> node_votes out = votes_sent lab)"
proof (cases "nd_running n")
  case True
  let ?n0 = "n\<lparr>nd_engine := set_time (env_now env) (nd_engine n)\<rparr>"
  from True assms(1) obtain n1 out1 effects out2 where
    d: "dispatch P ser env ev ?n0 = Some (n1, out1, effects)"
    and h: "handle_effects P ser env effects n1 = (n', out2)" and out: "out = out1 @ out2"
    by (auto simp: node_event_def bind_eq_Some_conv case_prod_beta) (metis prod.collapse)
  from dispatch_dispatched [OF d assms(2,3)] obtain pre lab where
    steps: "fed_steps F P (set_time (env_now env) (nd_engine n)) (nd_engine n1) (pre @ lab)"
    and blocks: "bs_blocks (nd_store n1) = bs_blocks (nd_store n) @ committed_blocks pre"
      "committed_blocks effects = committed_blocks lab"
    and votes: "votes_sent pre = []" "ev \<noteq> EvRegossip \<longrightarrow> lab = effects"
    by (auto simp: dispatched_def)
  from fed_steps_trans [OF steps set_time_steps] blocks handle_effects_frame [OF h]
  have "follows F P n n' (pre @ lab)" by (simp add: follows_def)
  moreover have "ev \<noteq> EvRegossip \<longrightarrow> node_votes out = votes_sent (pre @ lab)"
    using votes handle_effects_votes [OF h] dispatch_votes [OF d] by (simp add: out)
  ultimately show ?thesis by blast
next
  case False
  with assms(1) show ?thesis by (auto simp: node_event_def intro!: exI [of _ "[]"] follows_refl)
qed

lemma node_start_follows:
  assumes "node_start P ser env n = Some (n', out)"
    and "e_round (nd_engine n) = 0" "e_step (nd_engine n) = StPropose"
  shows "\<exists>lab. follows F P n n' lab \<and> node_votes out = votes_sent lab"
proof -
  from assms(1) obtain e' effects where s: "start P (set_time (env_now env) (nd_engine n)) = Some (e', effects)"
    and h: "handle_effects P ser env effects (n\<lparr>nd_engine := e'\<rparr>) = (n', out)"
    by (auto simp: node_start_def bind_eq_Some_conv)
  from start_steps [OF s] assms(2,3) have "fed_steps F P (set_time (env_now env) (nd_engine n)) e' effects"
    by (simp add: set_time_def)
  from fed_steps_trans [OF this set_time_steps] handle_effects_frame [OF h]
  have "follows F P n n' effects" by (simp add: follows_def)
  with handle_effects_votes [OF h] show ?thesis by blast
qed

definition no_regossip :: "(node_env \<times> Event) list \<Rightarrow> bool" where
  "no_regossip evs \<longleftrightarrow> (\<forall>(env, ev)\<in>set evs. ev \<noteq> EvRegossip)"

lemma node_events_follows:
  assumes "node_events P ser evs n = Some (n', out)" and "\<forall>(env, ev)\<in>set evs. event_ok ev"
  shows "\<exists>lab. follows (\<lambda>_. True) P n n' lab \<and> (no_regossip evs \<longrightarrow> node_votes out = votes_sent lab)"
  using assms
proof (induction evs arbitrary: n out)
  case Nil
  then show ?case by (auto intro!: exI [of _ "[]"] follows_refl)
next
  case (Cons q evs)
  obtain env ev where q: "q = (env, ev)" by force
  from Cons.prems obtain n1 out1 out2 where one: "node_event P ser env ev n = Some (n1, out1)"
    and rest: "node_events P ser evs n1 = Some (n', out2)" and out: "out = out1 @ out2"
    and ok: "event_ok ev" "\<forall>(env, ev)\<in>set evs. event_ok ev"
    by (auto simp: q bind_eq_Some_conv)
  from node_event_follows [OF one ok(1) event_fed_any] obtain lab1 where
    l1: "follows (\<lambda>_. True) P n n1 lab1" "ev \<noteq> EvRegossip \<longrightarrow> node_votes out1 = votes_sent lab1" by blast
  from Cons.IH [OF rest ok(2)] obtain lab2 where
    l2: "follows (\<lambda>_. True) P n1 n' lab2" "no_regossip evs \<longrightarrow> node_votes out2 = votes_sent lab2" by blast
  from follows_trans [OF l1(1) l2(1)] l1(2) l2(2) show ?case
    by (intro exI [of _ "lab1 @ lab2"]) (simp add: out q no_regossip_def)
qed

lemma node_run_follows:
  assumes "node_run P ser env0 evs n = Some (n', out)" and "\<forall>(env, ev)\<in>set evs. event_ok ev"
    and "e_round (nd_engine n) = 0" "e_step (nd_engine n) = StPropose"
  shows "\<exists>lab. follows (\<lambda>_. True) P n n' lab \<and> (no_regossip evs \<longrightarrow> node_votes out = votes_sent lab)"
proof -
  from assms(1) obtain n1 out1 out2 where s: "node_start P ser env0 n = Some (n1, out1)"
    and evs: "node_events P ser evs n1 = Some (n', out2)" and out: "out = out1 @ out2"
    by (auto simp: node_run_def bind_eq_Some_conv)
  from node_start_follows [OF s assms(3,4)] obtain lab1 where
    l1: "follows (\<lambda>_. True) P n n1 lab1" "node_votes out1 = votes_sent lab1" by blast
  from node_events_follows [OF evs assms(2)] obtain lab2 where
    l2: "follows (\<lambda>_. True) P n1 n' lab2" "no_regossip evs \<longrightarrow> node_votes out2 = votes_sent lab2" by blast
  from follows_trans [OF l1(1) l2(1)] l1(2) l2(2) show ?thesis
    by (intro exI [of _ "lab1 @ lab2"]) (simp add: out)
qed

lemma node_run_votes:
  assumes run: "node_run P ser env0 evs n = Some (n', out)" "\<forall>(env, ev)\<in>set evs. event_ok ev" "no_regossip evs"
    and fresh: "e_round (nd_engine n) = 0" "e_step (nd_engine n) = StPropose"
    and room: "unat (e_height (nd_engine n)) + length (bs_blocks (nd_store n')) < 2 ^ 64"
  shows "sorted_wrt (<) (map slot (node_votes out))"
proof -
  from node_run_follows [OF run(1,2) fresh] run(3) obtain lab where
    steps: "engine_steps P (nd_engine n) (nd_engine n') lab"
    and len: "length (committed_blocks lab) \<le> length (bs_blocks (nd_store n'))"
    and votes: "node_votes out = votes_sent lab"
    by (auto simp: follows_def)
  from engine_steps_votes [OF steps] room len show ?thesis by (simp add: votes)
qed

section \<open>The node's ledger\<close>

definition genesis_state :: "VerifyingKey list \<Rightarrow> chain_state" where
  "genesis_state keys = (registry_new keys, zero_hash, 1)"

lemma replay_registry_chain: "fst (foldl (chain_step P) (genesis_state keys) bs) = replay_registry keys bs"
proof (induction bs rule: rev_induct)
  case Nil
  then show ?case by (simp add: genesis_state_def replay_registry_def)
next
  case (snoc b bs)
  then show ?case
    by (cases "foldl (chain_step P) (genesis_state keys) bs") (simp add: replay_registry_def record_governance_def)
qed

lemma store_tip_chain:
  assumes "chain_valid P (genesis_state keys) (bs_blocks st)"
  shows "snd (foldl (chain_step P) (genesis_state keys) (bs_blocks st)) = (fst (store_tip P st), snd (store_tip P st) + 1)"
proof (cases "bs_blocks st" rule: rev_cases)
  case Nil
  then show ?thesis by (simp add: genesis_state_def store_tip_def)
next
  case (snoc bs b)
  obtain reg tip h where s: "foldl (chain_step P) (genesis_state keys) bs = (reg, tip, h)"
    by (cases "foldl (chain_step P) (genesis_state keys) bs") auto
  from assms snoc s have "block_accepted P (reg, tip, h) b" by (simp add: chain_valid_append)
  then have "bh_height (blk_header b) = h"
    by (auto simp: proposed_is_valid_iff block_value_def split: option.splits)
  with s snoc show ?thesis by (simp add: store_tip_def)
qed

lemma node_new_chain:
  assumes "node_new P tr g sk pk st base = Some n"
    and "chain_valid P (genesis_state (validator_keys g)) (bs_blocks st)"
  shows "chain_of (nd_engine n) = foldl (chain_step P) (genesis_state (validator_keys g)) (bs_blocks st)"
    and "nd_store n = st" and "e_me_pk (nd_engine n) = pk"
    and "e_round (nd_engine n) = 0" and "e_step (nd_engine n) = StPropose"
    and "mldsa_correct P sk pk \<Longrightarrow> engine_inv P (nd_engine n)"
proof -
  obtain tip h where t: "store_tip P st = (tip, h)" by force
  from assms(1) obtain e where
    e: "engine_with_registry P (replay_registry (validator_keys g) (bs_blocks st)) sk pk tip (h + 1) = Some e"
    and n: "nd_engine n = e" "nd_store n = st"
    by (auto simp: node_new_def t snapshot_def bind_eq_Some_conv)
  from e have fields: "e_registry e = replay_registry (validator_keys g) (bs_blocks st)" "e_tip e = tip"
      "e_height e = h + 1" "e_me_pk e = pk" "e_round e = 0" "e_step e = StPropose"
    by (auto simp: engine_with_registry_def bind_eq_Some_conv)
  show "chain_of (nd_engine n) = foldl (chain_step P) (genesis_state (validator_keys g)) (bs_blocks st)"
    using store_tip_chain [OF assms(2)] replay_registry_chain [of P "validator_keys g" "bs_blocks st"]
    by (intro prod_eqI) (simp_all add: chain_of_def n fields t)
  show "nd_store n = st" "e_me_pk (nd_engine n) = pk" "e_round (nd_engine n) = 0" "e_step (nd_engine n) = StPropose"
    using n fields by simp_all
  show "mldsa_correct P sk pk \<Longrightarrow> engine_inv P (nd_engine n)"
    using engine_inv_with_registry [OF e] n by simp
qed

lemma node_run_ledger:
  assumes new: "node_new P tr g sk pk st base = Some n"
    and old: "chain_valid P (genesis_state (validator_keys g)) (bs_blocks st)"
    and run: "node_run P ser env0 evs n = Some (n', out)" "\<forall>(env, ev)\<in>set evs. event_ok ev"
    and keys: "mldsa_correct P sk pk" and it: "iter_ok P"
    and member: "pk \<in> set (validator_keys g)" "\<forall>b\<in>set (bs_blocks (nd_store n')). block_keeps pk b"
  shows "chain_valid P (genesis_state (validator_keys g)) (bs_blocks (nd_store n'))"
    and "chain_of (nd_engine n') = foldl (chain_step P) (genesis_state (validator_keys g)) (bs_blocks (nd_store n'))"
    and "engine_inv P (nd_engine n')"
    and "\<exists>more. bs_blocks (nd_store n') = bs_blocks st @ more"
proof -
  note n = node_new_chain [OF new old]
  from node_run_follows [OF run n(4,5)] obtain lab where
    steps: "engine_steps P (nd_engine n) (nd_engine n') lab"
    and blocks: "bs_blocks (nd_store n') = bs_blocks st @ committed_blocks lab"
    by (auto simp: follows_def n(2))
  have "never_removed pk (fst (genesis_state (validator_keys g)))"
    using member(1) by (simp add: never_removed_def genesis_state_def registry_new_def)
  then have "never_removed pk (fst (chain_of (nd_engine n)))"
    unfolding n(1) using member(2) blocks by (intro never_removed_chain) auto
  then have "chain_valid P (chain_of (nd_engine n)) (committed_blocks lab)"
    using n(3,6) keys it member(2) blocks by (intro engine_steps_valid [OF steps]) (auto simp: chain_of_def)
  with old n(1) show "chain_valid P (genesis_state (validator_keys g)) (bs_blocks (nd_store n'))"
    by (simp add: blocks chain_valid_append)
  show "chain_of (nd_engine n') = foldl (chain_step P) (genesis_state (validator_keys g)) (bs_blocks (nd_store n'))"
    using engine_steps_chain [OF steps] n(1) by (simp add: blocks)
  show "engine_inv P (nd_engine n')" using engine_inv_steps [OF steps] n(6) keys by simp
  show "\<exists>more. bs_blocks (nd_store n') = bs_blocks st @ more" using blocks by blast
qed

end
