(* ===== verification/Node_Total.thy ===== *)
theory Node_Total
  imports Node_Loop
begin

text \<open>
  When the engine and the node around it do not panic. The panics of the sources are a failed
  signature, the assertions of \<^verbatim>\<open>ValidatorSet::new\<close> on an empty roster, the remainder by
  the roster's length and a missing map entry. With a signing key that signs and one validator
  key \<open>k\<close> that no governance change in sight removes, none of them can happen.
\<close>

section \<open>The condition\<close>

definition signs_always :: "prims \<Rightarrow> SigningKey \<Rightarrow> bool" where
  "signs_always P sk \<longleftrightarrow> (\<forall>m c. mldsa_try_sign P (sk_bytes sk) m c \<noteq> None)"

definition change_keeps :: "VerifyingKey \<Rightarrow> SignedValidatorChange \<Rightarrow> bool" where
  "change_keeps k g \<longleftrightarrow> k \<notin> set (vc_removes (svc_change g))"

definition value_keeps :: "VerifyingKey \<Rightarrow> Proposed \<Rightarrow> bool" where
  "value_keeps k v \<longleftrightarrow> (\<forall>g\<in>set (pr_governance v). change_keeps k g)"

definition engine_safe :: "VerifyingKey \<Rightarrow> prims \<Rightarrow> Engine \<Rightarrow> bool" where
  "engine_safe k P e \<longleftrightarrow> signs_always P (e_me_sk e) \<and> e_validators_sorted e \<noteq> []
     \<and> never_removed k (e_registry e)
     \<and> (\<forall>r pm. hm_get (e_proposals e) r = Some pm \<longrightarrow> value_keeps k (pm_value pm))
     \<and> (\<forall>v. e_valid_value e = Some v \<longrightarrow> value_keeps k v)
     \<and> (\<forall>g\<in>set (e_gov_mempool e). change_keeps k g)"

section \<open>Operations that return\<close>

lemma sk_sign_total:
  assumes "signs_always P sk"
  obtains s where "sk_sign P sk m c = Inr s"
proof -
  from assms obtain raw where "mldsa_try_sign P (sk_bytes sk) m c = Some raw"
    unfolding signs_always_def by (metis not_None_eq)
  then show ?thesis by (intro that) (simp add: sk_sign_def)
qed

lemma vote_create_total:
  assumes "signs_always P sk"
  shows "vote_create P sk pk h r vt bid \<noteq> None"
proof -
  obtain s1 where s1: "sk_sign P sk (vote_signing_bytes h r vt bid) ctx_VOTE = Inr s1"
    using sk_sign_total [OF assms] by blast
  show ?thesis
  proof (cases "vt = VPrecommit \<and> bid \<noteq> None")
    case True
    then obtain b where b: "vt = VPrecommit" "bid = Some b" by auto
    obtain s2 where "sk_sign P sk (as_bytes b) ctx_BLOCK = Inr s2" using sk_sign_total [OF assms] by blast
    with b show ?thesis by (simp add: vote_create_def sign_vote_def expect_ok_def)
  next
    case False
    with s1 show ?thesis
      by (cases vt; cases bid; simp add: vote_create_def sign_vote_def expect_ok_def)
  qed
qed

lemma proposal_create_total:
  assumes "signs_always P sk"
  obtains pm where "proposal_create P sk pk h r vr v = Some pm"
proof -
  obtain s where "sk_sign P sk (proposal_signing_bytes h r (proposed_id P v) vr) ctx_PROPOSAL = Inr s"
    using sk_sign_total [OF assms] by blast
  then show ?thesis by (intro that) (simp add: proposal_create_def expect_ok_def)
qed

lemma emit_total:
  assumes "signs_always P (e_me_sk e)"
  shows "emit_prevote P bid e \<noteq> None" and "emit_precommit P bid e \<noteq> None"
proof -
  obtain vm where "vote_create P (e_me_sk e) (e_me_pk e) (e_height e) (e_round e) VPrevote bid = Some vm"
    using vote_create_total [OF assms] by blast
  then show "emit_prevote P bid e \<noteq> None" by (simp add: emit_prevote_def)
  obtain vm where "vote_create P (e_me_sk e) (e_me_pk e) (e_height e) (e_round e) VPrecommit bid = Some vm"
    using vote_create_total [OF assms] by blast
  then show "emit_precommit P bid e \<noteq> None" by (simp add: emit_precommit_def)
qed

lemma enter_propose_total:
  assumes sig: "signs_always P (e_me_sk e)" and n: "e_validators_sorted e \<noteq> []"
  shows "enter_propose P r e \<noteq> None"
proof -
  from n obtain mine where mine: "is_proposer e r = Some mine"
    by (simp add: is_proposer_def proposer_def e_n_def)
  obtain v vr where v: "(case e_valid_value e of Some v \<Rightarrow> (v, e_valid_round e) | None \<Rightarrow> (get_value P e, None)) = (v, vr)"
    by force
  obtain pm where "proposal_create P (e_me_sk e) (e_me_pk e) (e_height e) r vr v = Some pm"
    using proposal_create_total [OF sig] by blast
  with mine v show ?thesis by (simp add: enter_propose_def Let_def)
qed

lemma start_round_total:
  "signs_always P (e_me_sk e) \<Longrightarrow> e_validators_sorted e \<noteq> [] \<Longrightarrow> start_round P r e \<noteq> None"
  using enter_propose_total [of P "e\<lparr>e_round := r, e_step := StPropose, e_parked := False\<rparr>" r]
  by (simp add: start_round_def Let_def)

lemma unpark_total:
  "signs_always P (e_me_sk e) \<Longrightarrow> e_validators_sorted e \<noteq> [] \<Longrightarrow> unpark P e \<noteq> None"
  using enter_propose_total [of P "e\<lparr>e_parked := False\<rparr>" "e_round e"] by (simp add: unpark_def)

lemma active_set_total: "never_removed k reg \<Longrightarrow> active_set reg h \<noteq> None"
  using never_removed_active [of k reg h] by (auto simp: active_set_def bft_None_iff)

lemma sort_key_Nil_iff [simp]: "sort_key f xs = [] \<longleftrightarrow> xs = []"
  by (metis length_0_conv length_sort)

lemma active_set_roster: "active_set reg h = Some s \<Longrightarrow> set_validators s \<noteq> []"
  by (auto simp: active_set_def bft_Some_iff)

lemma never_removed_governance:
  "never_removed k reg \<Longrightarrow> \<forall>g\<in>set gs. change_keeps k g \<Longrightarrow> never_removed k (record_governance gs reg)"
  by (auto simp: never_removed_def record_governance_eq change_keeps_def)

lemma commit_total:
  assumes safe: "engine_safe k P e" and v: "value_keeps k v"
  shows "commit P r bid v e \<noteq> None"
proof -
  have "never_removed k (record_governance (pr_governance v) (e_registry e))"
    using safe v by (auto simp: engine_safe_def value_keeps_def intro: never_removed_governance)
  then obtain s where s: "active_set (record_governance (pr_governance v) (e_registry e)) (e_height e + 1) = Some s"
    using active_set_total by blast
  have "start_round P 0 (rolled P v bid s e) \<noteq> None"
    using safe active_set_roster [OF s]
    by (intro start_round_total) (auto simp: engine_safe_def rolled_def reset_height_state_def)
  then show ?thesis
    by (auto simp: commit_def Let_def reload_set_def s rolled_def)
qed

lemma try_commit_loop_total:
  assumes "engine_safe k P e" and "\<forall>(r, bid)\<in>set cs. hm_get (e_proposals e) r \<noteq> None"
  shows "try_commit_loop P cs e \<noteq> None"
  using assms(2)
proof (induction cs)
  case (Cons c cs)
  obtain r bid where c: "c = (r, bid)" by force
  with Cons.prems obtain pm where pm: "hm_get (e_proposals e) r = Some pm" by auto
  with assms(1) have "commit P r bid (pm_value pm) e \<noteq> None"
    by (intro commit_total) (auto simp: engine_safe_def)
  with Cons pm show ?case by (auto simp: c)
qed simp

lemma try_commit_total:
  assumes "engine_safe k P e" and "iter_ok P"
  shows "try_commit P e \<noteq> None"
proof -
  have "set (iter_rounds P ks) = set ks" for ks
    using assms(2) unfolding iter_ok_def reorders_def by (metis mset_eq_setD)
  then have "set (map fst (hm_iter (iter_rounds P) (e_proposals e))) = set (hm_keys (e_proposals e))"
    by (simp add: hm_iter_def hm_keys_def image_image)
  then have "\<forall>(r, bid)\<in>set (map (\<lambda>(r, pm). (r, proposed_id P (pm_value pm))) (hm_iter (iter_rounds P) (e_proposals e))).
      hm_get (e_proposals e) r \<noteq> None"
    by (fastforce simp: hm_keys_get set_eq_iff image_iff)
  then show ?thesis unfolding try_commit_def by (intro try_commit_loop_total [OF assms(1)])
qed

lemma try_skip_loop_total:
  "signs_always P (e_me_sk e) \<Longrightarrow> e_validators_sorted e \<noteq> [] \<Longrightarrow> try_skip_loop P rs e \<noteq> None"
proof (induction rs)
  case (Cons r rs)
  obtain e' out where "start_round P r e = Some (e', out)"
    using start_round_total [OF Cons.prems, of r] by auto
  with Cons show ?case by (auto intro: exI [of _ True])
qed simp

lemma try_skip_total:
  "signs_always P (e_me_sk e) \<Longrightarrow> e_validators_sorted e \<noteq> [] \<Longrightarrow> try_skip P e \<noteq> None"
  unfolding try_skip_def by (rule try_skip_loop_total)

lemma bind_not_None: "m \<noteq> None \<Longrightarrow> (\<And>x. m = Some x \<Longrightarrow> f x \<noteq> None) \<Longrightarrow> Option.bind m f \<noteq> None"
  by (cases m) auto

lemma or_else_total:
  assumes "f e \<noteq> None" and "rule_sound P f" and "g e \<noteq> None"
  shows "or_else f g e \<noteq> None"
  unfolding or_else_def
proof (rule bind_not_None [OF assms(1)])
  fix x assume x: "f e = Some x"
  obtain c e' out where c: "x = (c, e', out)" by (cases x)
  have "\<not> c \<Longrightarrow> e' = e" using assms(2) x c unfolding rule_sound_def by (metis (full_types))
  with c assms(3) show "(case x of (changed, e1, out1) \<Rightarrow>
      if changed then Some (True, e1, out1)
      else g e1 \<bind> (\<lambda>(changed2, e2, out2). Some (changed2, e2, out1 @ out2))) \<noteq> None"
    by (cases c) auto
qed

lemma prevote_for_total: "signs_always P (e_me_sk e) \<Longrightarrow> prevote_for P v acc e \<noteq> None"
  by (rule notI) (auto simp: prevote_for_def Let_def bind_eq_None_conv emit_total split: if_splits prod.splits)

lemma voting_rules_total:
  assumes "signs_always P (e_me_sk e)"
  shows "try_prevote_on_proposal P e \<noteq> None" and "try_prevote_on_reproposal P e \<noteq> None"
    and "try_schedule_prevote_timeout P e \<noteq> None" and "try_schedule_precommit_timeout P e \<noteq> None"
  using prevote_for_total [OF assms]
  by (auto simp del: not_None_eq simp: try_prevote_on_proposal_def try_prevote_on_reproposal_def try_schedule_prevote_timeout_def
      try_schedule_precommit_timeout_def split: option.splits)

lemma try_precommit_on_polka_total:
  assumes "signs_always P (e_me_sk e)"
  shows "try_precommit_on_polka P e \<noteq> None"
  using assms
  by (intro notI)
    (auto simp: try_precommit_on_polka_def Let_def bind_eq_None_conv emit_total
      split: option.splits if_splits prod.splits)

lemma try_precommit_nil_total:
  "signs_always P (e_me_sk e) \<Longrightarrow> try_precommit_nil P e \<noteq> None"
  by (rule notI) (auto simp: try_precommit_nil_def bind_eq_None_conv emit_total split: if_splits prod.splits)

lemma advance_once_total:
  assumes safe: "engine_safe k P e" and it: "iter_ok P"
  shows "advance_once P e \<noteq> None"
proof -
  have sig: "signs_always P (e_me_sk e)" and n: "e_validators_sorted e \<noteq> []"
    using safe by (auto simp: engine_safe_def)
  show ?thesis
    unfolding advance_once_def
    by (intro or_else_total [where P = P] rules_sound
        try_commit_total [OF safe it] try_skip_total [OF sig n] voting_rules_total [OF sig]
        try_precommit_on_polka_total [OF sig] try_precommit_nil_total [OF sig])
qed

section \<open>The condition is kept\<close>

lemma value_keeps_get_value: "\<forall>g\<in>set (e_gov_mempool e). change_keeps k g \<Longrightarrow> value_keeps k (get_value P e)"
  by (simp add: value_keeps_def get_value_def Let_def)

lemma engine_safe_enter_propose:
  assumes "engine_safe k P e" and "enter_propose P r e = Some (e', out)"
  shows "engine_safe k P e'"
  using assms(2)
proof (cases rule: enter_propose_SomeE)
  case (proposed pm val vr)
  have "value_keeps k val"
    using assms(1) proposed(2) value_keeps_get_value [of e k P] by (auto simp: engine_safe_def split: option.splits)
  with assms(1) proposed(5,6) show ?thesis
    by (auto simp: engine_safe_def hm_get_or_insert dest: proposal_create_Some split: if_splits)
next
  case waits
  with assms(1) show ?thesis by simp
qed

lemma engine_safe_start_round:
  assumes "engine_safe k P e" and "start_round P r e = Some (e', out)"
  shows "engine_safe k P e'"
proof -
  have "engine_safe k P (e\<lparr>e_round := r, e_step := StPropose, e_parked := b\<rparr>)" for b
    using assms(1) by (simp add: engine_safe_def)
  with assms(2) show ?thesis
    by (auto simp: start_round_def Let_def split: if_splits dest: engine_safe_enter_propose)
qed

lemma engine_safe_unpark:
  assumes "engine_safe k P e" and "unpark P e = Some (e', out)"
  shows "engine_safe k P e'"
proof -
  have "engine_safe k P (e\<lparr>e_parked := b\<rparr>)" for b using assms(1) by (simp add: engine_safe_def)
  with assms show ?thesis by (auto simp: unpark_def split: if_splits dest: engine_safe_enter_propose)
qed

lemma engine_safe_rolled:
  assumes "engine_safe k P e" and "value_keeps k v"
    and "active_set (record_governance (pr_governance v) (e_registry e)) h = Some s"
  shows "engine_safe k P (rolled P v bid s e)"
  using assms active_set_roster [OF assms(3)]
  by (auto simp: engine_safe_def rolled_def reset_height_state_def value_keeps_def intro: never_removed_governance)

lemma engine_safe_emit:
  "engine_safe k P e \<Longrightarrow> emit_prevote P bid e = Some (e1, out) \<Longrightarrow> engine_safe k P (e1\<lparr>e_step := s\<rparr>)"
  "engine_safe k P e \<Longrightarrow> emit_precommit P bid e = Some (e1, out) \<Longrightarrow> engine_safe k P (e1\<lparr>e_step := s\<rparr>)"
  by (auto simp: engine_safe_def emit_prevote_def emit_precommit_def bind_eq_Some_conv)

lemma engine_safe_rule: "rule_step P e e' out \<Longrightarrow> engine_safe k P e \<Longrightarrow> engine_safe k P e'"
proof (induction rule: rule_step.induct)
  case (commit_rule e r pm e' out)
  from commit_rule(4) show ?case
  proof (cases rule: commit_SomeE)
    case (1 s out')
    from commit_rule have "value_keeps k (pm_value pm)" by (simp add: engine_safe_def)
    from engine_safe_rolled [OF commit_rule.prems this 1(1)] 1(2) show ?thesis by (rule engine_safe_start_round)
  qed
next
  case (skip_rule e r e' out)
  then show ?case by (auto intro: engine_safe_start_round)
next
  case (polka_lock e pm e1 out)
  then show ?case by (auto simp: engine_safe_def emit_precommit_def bind_eq_Some_conv)
next
  case (prevote_rule e pm bid e1 out)
  then show ?case by (intro engine_safe_emit(1))
next
  case (precommit_nil_rule e e1 out)
  then show ?case by (intro engine_safe_emit(2))
qed (auto simp: engine_safe_def)

text \<open>The rule loop returns.\<close>

lemma advance_total:
  "engine_safe k P e \<Longrightarrow> iter_ok P \<Longrightarrow> \<exists>e' out. advance P e = Some (e', out) \<and> engine_safe k P e'"
proof (induction P e rule: advance.induct)
  case (1 P e)
  obtain c e1 out1 where once: "advance_once P e = Some (c, e1, out1)"
    using advance_once_total [OF "1.prems"] by auto
  show ?case
  proof (cases c)
    case True
    then have "engine_safe k P e1" using once "1.prems"(1) by (auto intro: engine_safe_rule advance_once_step)
    with "1.IH" once True "1.prems"(2) obtain e' out where "advance P e1 = Some (e', out)" "engine_safe k P e'"
      by blast
    with once True show ?thesis by (subst advance.simps) simp
  next
    case False
    with once advance_once_stop [of P e e1 out1] "1.prems"(1) show ?thesis by (subst advance.simps) simp
  qed
qed

lemma then_advance_total:
  assumes "r = Some (e1, out1)" and "engine_safe k P e1" and "iter_ok P"
  shows "\<exists>e' out. then_advance P r = Some (e', out) \<and> engine_safe k P e'"
  using advance_total [OF assms(2,3)] by (auto simp: then_advance_def assms(1))

section \<open>The handlers and the node\<close>

definition msg_keeps :: "VerifyingKey \<Rightarrow> ConsensusMsg \<Rightarrow> bool" where
  "msg_keeps k msg \<longleftrightarrow> (case msg of Proposal pm \<Rightarrow> value_keeps k (pm_value pm) | Vote _ \<Rightarrow> True)"

lemma ingest_total:
  assumes "engine_safe k P e" and "msg_keeps k msg"
  shows "\<exists>e'. ingest P msg e = Some e' \<and> engine_safe k P e'"
proof (cases msg)
  case (Proposal pm)
  have "e_n e \<noteq> 0" using assms(1) by (simp add: engine_safe_def e_n_def)
  then obtain p where "proposer e (pm_round pm) = Some p" by (simp add: proposer_def)
  then obtain e' where e': "ingest_proposal P pm e = Some e'"
    by (cases "p \<noteq> pm_proposer pm \<or> \<not> proposal_verify_sig P pm"; cases "pm_height pm = e_height e")
      (simp_all add: ingest_proposal_def)
  from e' have "engine_safe k P e'"
  proof (cases rule: ingest_proposal_cases)
    case 1
    with assms(1) show ?thesis by simp
  next
    case 2
    from assms Proposal show ?thesis
      unfolding 2(4) by (auto simp: engine_safe_def msg_keeps_def hm_get_or_insert split: if_splits)
  qed
  with e' Proposal show ?thesis by (simp add: ingest_def)
next
  case (Vote vm)
  with assms(1) show ?thesis
    by (simp add: ingest_def ingest_vote_def engine_safe_def split: VoteType.splits)
qed

lemma on_message_total:
  assumes "engine_safe k P e" and "iter_ok P" and "msg_keeps k msg"
  shows "\<exists>e' out. on_message P msg e = Some (e', out) \<and> engine_safe k P e'"
proof -
  from ingest_total [OF assms(1,3)] obtain e1 where e1: "ingest P msg e = Some e1" "engine_safe k P e1" by blast
  then have "unpark P e1 \<noteq> None" by (intro unpark_total) (auto simp: engine_safe_def)
  then obtain e2 out where e2: "unpark P e1 = Some (e2, out)" by auto
  with e1 have safe: "engine_safe k P e2" by (auto intro: engine_safe_unpark)
  show ?thesis
    using then_advance_total [OF e2 safe assms(2)] then_advance_total [OF HOL.refl e1(2) assms(2), of "[]"] e1(1)
    by (simp add: on_message_def Let_def)
qed

lemma timeout_action_total:
  assumes "engine_safe k P e"
  shows "\<exists>e' out. timeout_action P kind e = Some (e', out) \<and> engine_safe k P e'"
proof -
  have sig: "signs_always P (e_me_sk e)" "e_validators_sorted e \<noteq> []" using assms by (auto simp: engine_safe_def)
  obtain e1 out1 where "emit_prevote P None e = Some (e1, out1)" using emit_total(1) [OF sig(1), of None] by auto
  moreover obtain e2 out2 where "emit_precommit P None e = Some (e2, out2)" using emit_total(2) [OF sig(1), of None] by auto
  moreover obtain e3 out3 where "start_round P (e_round e + 1) e = Some (e3, out3)" using start_round_total [OF sig] by fastforce
  ultimately show ?thesis
    using assms by (cases kind) (auto simp: timeout_action_def intro: engine_safe_emit engine_safe_start_round)
qed

lemma on_timeout_total:
  assumes "engine_safe k P e" and "iter_ok P"
  shows "\<exists>e' out. on_timeout P h r kind e = Some (e', out) \<and> engine_safe k P e'"
proof (cases "h = e_height e \<and> r = e_round e")
  case True
  from timeout_action_total [OF assms(1), of kind] obtain e1 out1 where
    "timeout_action P kind e = Some (e1, out1)" "engine_safe k P e1" by blast
  with True then_advance_total [OF HOL.refl this(2) assms(2)] show ?thesis by (simp add: on_timeout_def)
next
  case False
  with then_advance_total [OF HOL.refl assms] show ?thesis by (auto simp: on_timeout_def)
qed

lemma unpark_advance_total:
  assumes "engine_safe k P e" and "iter_ok P"
  shows "\<exists>e' out. then_advance P (unpark P e) = Some (e', out) \<and> engine_safe k P e'"
proof -
  have "unpark P e \<noteq> None" using assms(1) by (intro unpark_total) (auto simp: engine_safe_def)
  then obtain e1 out where e1: "unpark P e = Some (e1, out)" by auto
  from engine_safe_unpark [OF assms(1) e1] have "engine_safe k P e1" .
  with then_advance_total [OF e1 _ assms(2)] show ?thesis by blast
qed

lemma add_attestation_total:
  assumes "engine_safe k P e" and "iter_ok P"
  shows "\<exists>e' out. add_attestation P att e = Some (e', out) \<and> engine_safe k P e'"
proof -
  have "engine_safe k P (e\<lparr>e_mempool := e_mempool e @ [att]\<rparr>)" using assms(1) by (simp add: engine_safe_def)
  with unpark_advance_total [OF this assms(2)] show ?thesis by (simp add: add_attestation_def Let_def)
qed

lemma add_governance_total:
  assumes "engine_safe k P e" and "iter_ok P" and "change_keeps k g"
  shows "\<exists>e' out. drop_ok (add_governance P g e) = Some (e', out) \<and> engine_safe k P e'"
proof -
  have safe: "engine_safe k P (e\<lparr>e_gov_mempool := e_gov_mempool e @ [g]\<rparr>)"
    using assms(1,3) by (auto simp: engine_safe_def)
  with unpark_advance_total [OF this assms(2)] assms(1) show ?thesis
    by (auto simp: add_governance_def drop_ok_def Let_def)
qed

lemma start_total:
  assumes "engine_safe k P e" and "iter_ok P"
  shows "\<exists>e' out. start P e = Some (e', out) \<and> engine_safe k P e'"
proof -
  have "start_round P 0 e \<noteq> None" using assms(1) by (intro start_round_total) (auto simp: engine_safe_def)
  then obtain e1 out where e1: "start_round P 0 e = Some (e1, out)" by auto
  with engine_safe_start_round [OF assms(1)] then_advance_total [OF e1 _ assms(2)] show ?thesis
    by (auto simp: start_def)
qed

lemma resume_eq_start: "resume P e = start P e"
  by (simp add: resume_def start_def)

lemma apply_synced_block_total:
  assumes "engine_safe k P e" and "block_keeps k b"
  obtains err where "apply_synced_block P b e = Some (Inl err)"
  | e' where "apply_synced_block P b e = Some (Inr e')" "engine_safe k P e'"
proof -
  have nr: "never_removed k (record_governance (blk_governance b) (e_registry e))"
    using assms by (auto simp: engine_safe_def block_keeps_def change_keeps_def intro: never_removed_governance)
  then obtain s where s: "active_set (record_governance (blk_governance b) (e_registry e)) (e_height e + 1) = Some s"
    using active_set_total by blast
  let ?e1 = "reset_height_state (e\<lparr>e_registry := record_governance (blk_governance b) (e_registry e),
      e_mempool := filter (\<lambda>a. leaf_hash P a \<notin> leaf_hash P ` set (blk_attestations b)) (e_mempool e),
      e_height := e_height e + 1, e_tip := header_id P (blk_header b), e_current_set := s,
      e_validators_sorted := sort_key (vk_id P) (set_validators s)\<rparr>)\<lparr>e_parked := False\<rparr>"
  have safe: "engine_safe k P ?e1"
    using assms(1) nr active_set_roster [OF s] by (auto simp: engine_safe_def reset_height_state_def)
  show ?thesis
  proof (cases "\<exists>err. apply_synced_block P b e = Some (Inl err)")
    case True
    then show ?thesis using that(1) by blast
  next
    case False
    then have "apply_synced_block P b e = Some (Inr ?e1)"
      by (auto simp: apply_synced_block_def reload_set_def s Let_def split: if_splits sum.splits)
    then show ?thesis using safe by (rule that(2))
  qed
qed

text \<open>An event that carries no change removing \<open>k\<close>.\<close>

definition wire_keeps :: "VerifyingKey \<Rightarrow> WireMsg \<Rightarrow> bool" where
  "wire_keeps k msg \<longleftrightarrow> (case msg of
       WConsensus m \<Rightarrow> msg_keeps k m
     | WGovernance g \<Rightarrow> change_keeps k g
     | WBlocks bs \<Rightarrow> \<forall>b\<in>set bs. block_keeps k b
     | _ \<Rightarrow> True)"

definition event_keeps :: "VerifyingKey \<Rightarrow> Event \<Rightarrow> bool" where
  "event_keeps k ev \<longleftrightarrow> (case ev of
       EvWire msg \<Rightarrow> wire_keeps k msg
     | EvSubmitGovernance g \<Rightarrow> change_keeps k g
     | _ \<Rightarrow> True)"

lemma sync_loop_total:
  assumes "engine_safe k P (nd_engine n)" and "\<forall>b\<in>set bs. block_keeps k b"
  shows "\<exists>applied' n'. sync_loop P ser env bs applied n = Some (applied', n') \<and> engine_safe k P (nd_engine n')"
  using assms
proof (induction bs arbitrary: applied n)
  case (Cons b bs)
  show ?case
  proof (cases "bh_height (blk_header b) = e_height (nd_engine n)")
    case here: True
    from Cons.prems have "block_keeps k b" by simp
    with Cons.prems(1) show ?thesis
    proof (cases rule: apply_synced_block_total)
      case (1 err)
      with here Cons.prems(1) show ?thesis by simp
    next
      case (2 e')
      from Cons.IH [of "n\<lparr>nd_engine := e', nd_store := store_append ser (env_write_ok env) b (nd_store n)\<rparr>" True]
      show ?thesis using 2 here Cons.prems(2) by simp
    qed
  next
    case False
    with Cons show ?thesis by simp
  qed
qed simp

lemma lift_engine_total:
  "\<exists>e' out. r = Some (e', out) \<and> engine_safe k P e' \<Longrightarrow>
   \<exists>n' outs effects. lift_engine r n = Some (n', outs, effects) \<and> engine_safe k P (nd_engine n')"
  by (auto simp: lift_engine_def)

lemma dispatch_wire_total:
  assumes "engine_safe k P (nd_engine n)" and "iter_ok P" and "wire_keeps k msg"
  shows "\<exists>n' outs effects. dispatch_wire P ser env msg n = Some (n', outs, effects) \<and> engine_safe k P (nd_engine n')"
proof (cases msg)
  case (WConsensus m)
  with assms lift_engine_total [OF on_message_total [OF assms(1,2)]] show ?thesis
    by (simp add: dispatch_wire_def wire_keeps_def)
next
  case (WAttestation att)
  with lift_engine_total [OF add_attestation_total [OF assms(1,2)]] show ?thesis
    by (simp add: dispatch_wire_def)
next
  case (WGovernance g)
  with assms lift_engine_total [OF add_governance_total [OF assms(1,2)]] show ?thesis
    by (simp add: dispatch_wire_def wire_keeps_def)
next
  case (WBlocks bs)
  with assms have "\<forall>b\<in>set (sort_key (\<lambda>b. bh_height (blk_header b)) bs). block_keeps k b"
    by (simp add: wire_keeps_def)
  from sync_loop_total [OF assms(1) this, of ser env False] obtain applied n1 where
    n1: "sync_loop P ser env (sort_key (\<lambda>b. bh_height (blk_header b)) bs) False n = Some (applied, n1)"
    and safe: "engine_safe k P (nd_engine n1)" by blast
  from lift_engine_total [OF start_total [OF safe assms(2)], of n1] n1 safe WBlocks show ?thesis
    by (simp add: dispatch_wire_def resume_eq_start)
qed (use assms in \<open>simp add: dispatch_wire_def Let_def\<close>)

lemma dispatch_total:
  assumes "engine_safe k P (nd_engine n)" and "iter_ok P" and "event_keeps k ev"
  shows "\<exists>n' outs effects. dispatch P ser env ev n = Some (n', outs, effects) \<and> engine_safe k P (nd_engine n')"
proof (cases ev)
  case (EvWire msg)
  with assms dispatch_wire_total [OF assms(1,2)] show ?thesis by (simp add: dispatch_def event_keeps_def)
next
  case (EvTimeout h r kind)
  with lift_engine_total [OF on_timeout_total [OF assms(1,2)]] show ?thesis by (simp add: dispatch_def)
next
  case (EvSubmit att)
  from lift_engine_total [OF add_attestation_total [OF assms(1,2)]] obtain n' outs effects where
    "lift_engine (add_attestation P att (nd_engine n)) n = Some (n', outs, effects)" "engine_safe k P (nd_engine n')"
    by blast
  with EvSubmit show ?thesis by (simp add: dispatch_def)
next
  case (EvSubmitGovernance g)
  with assms(3) have "change_keeps k g" by (simp add: event_keeps_def)
  from lift_engine_total [OF add_governance_total [OF assms(1,2) this]] obtain n' outs effects where
    "lift_engine (drop_ok (add_governance P g (nd_engine n))) n = Some (n', outs, effects)" "engine_safe k P (nd_engine n')"
    by blast
  with EvSubmitGovernance show ?thesis by (simp add: dispatch_def)
qed (use assms in \<open>simp_all add: dispatch_def\<close>)

lemma node_event_total:
  assumes "engine_safe k P (nd_engine n)" and "iter_ok P" and "event_keeps k ev"
  shows "\<exists>n' out. node_event P ser env ev n = Some (n', out) \<and> engine_safe k P (nd_engine n')"
proof (cases "nd_running n")
  case True
  have "engine_safe k P (nd_engine (n\<lparr>nd_engine := set_time (env_now env) (nd_engine n)\<rparr>))"
    using assms(1) by (simp add: engine_safe_def set_time_def)
  from dispatch_total [OF this assms(2,3), of ser env] obtain n1 outs effects where
    d: "dispatch P ser env ev (n\<lparr>nd_engine := set_time (env_now env) (nd_engine n)\<rparr>) = Some (n1, outs, effects)"
    and safe: "engine_safe k P (nd_engine n1)" by blast
  obtain n2 out2 where h: "handle_effects P ser env effects n1 = (n2, out2)" by force
  with d True safe handle_effects_frame(1) [OF h] show ?thesis by (simp add: node_event_def)
next
  case False
  with assms(1) show ?thesis by (simp add: node_event_def)
qed

lemma node_events_total:
  assumes "engine_safe k P (nd_engine n)" and "iter_ok P" and "\<forall>(env, ev)\<in>set evs. event_keeps k ev"
  shows "\<exists>n' out. node_events P ser evs n = Some (n', out) \<and> engine_safe k P (nd_engine n')"
  using assms(1,3)
proof (induction evs arbitrary: n)
  case (Cons q evs)
  obtain env ev where q: "q = (env, ev)" by force
  from Cons.prems(2) have "event_keeps k ev" by (simp add: q)
  from node_event_total [OF Cons.prems(1) assms(2) this, of ser env] obtain n1 out1 where
    n1: "node_event P ser env ev n = Some (n1, out1)" "engine_safe k P (nd_engine n1)" by blast
  from Cons.IH [OF n1(2)] Cons.prems(2) obtain n2 out2 where
    "node_events P ser evs n1 = Some (n2, out2)" "engine_safe k P (nd_engine n2)" by auto
  with n1 show ?case by (simp add: q)
qed simp

lemma node_run_total:
  assumes "engine_safe k P (nd_engine n)" and "iter_ok P" and "\<forall>(env, ev)\<in>set evs. event_keeps k ev"
  shows "\<exists>n' out. node_run P ser env0 evs n = Some (n', out) \<and> engine_safe k P (nd_engine n')"
proof -
  have "engine_safe k P (set_time (env_now env0) (nd_engine n))"
    using assms(1) by (simp add: engine_safe_def set_time_def)
  from start_total [OF this assms(2)] obtain e' effects where
    s: "start P (set_time (env_now env0) (nd_engine n)) = Some (e', effects)" and safe: "engine_safe k P e'" by blast
  obtain n1 out1 where h: "handle_effects P ser env0 effects (n\<lparr>nd_engine := e'\<rparr>) = (n1, out1)" by force
  with safe handle_effects_frame(1) [OF h] have "engine_safe k P (nd_engine n1)" by simp
  from node_events_total [OF this assms(2,3), of ser] h s show ?thesis
    by (auto simp: node_run_def node_start_def)
qed

lemma node_new_safe:
  assumes "signs_always P sk" and "k \<in> set (validator_keys g)" and "\<forall>b\<in>set (bs_blocks st). block_keeps k b"
  shows "\<exists>n. node_new P tr g sk pk st base = Some n \<and> engine_safe k P (nd_engine n)"
proof -
  let ?reg = "replay_registry (validator_keys g) (bs_blocks st)"
  have "never_removed k (registry_new (validator_keys g))"
    using assms(2) by (simp add: never_removed_def registry_new_def)
  then have nr: "never_removed k ?reg"
    using never_removed_chain [of k "genesis_state (validator_keys g)" "bs_blocks st" P] assms(3)
    by (simp add: replay_registry_chain) (simp add: genesis_state_def)
  obtain tip h where t: "store_tip P st = (tip, h)" by force
  obtain s where s: "active_set ?reg (h + 1) = Some s" using active_set_total [OF nr] by blast
  from nr s assms(1) active_set_roster [OF s] show ?thesis
    by (simp add: node_new_def t snapshot_def engine_with_registry_def engine_safe_def)
qed

end
