(* ===== verification/License.thy ===== *)
theory License
  imports Slc_Crypto
begin

text \<open>
  Software licenses (\<^verbatim>\<open>crates/license/src/lib.rs\<close>), their check at node start
  (\<^verbatim>\<open>crates/node/src/license.rs\<close>) and the meter that enforces the licensed volume
  (\<^verbatim>\<open>crates/node/src/meter.rs\<close>). The canonical JSON of a license
  (\<^verbatim>\<open>serde_json::to_vec\<close>) and what reading a file gives are arguments.
\<close>

section \<open>Licenses\<close>

datatype LicenseError =
    WrongIssuer
  | BadSignature
  | Expired u64 u64
  | NotYetValid u64 u64
  | WrongChain string string
  | LicenseSerialization string
  | LicenseCrypto CryptoError

record Entitlements =
  max_nodes :: "u32 option"
  max_notarizations_per_month :: "u64 option"
  anchoring :: bool
  features :: "string list"

record License =
  licensee :: string
  license_id :: string
  product :: string
  tier :: string
  entitlements :: Entitlements
  lic_chain_id :: "string option"
  issued_at :: u64
  expires_at :: u64

record SignedLicense =
  sl_license :: License
  sl_issuer :: SlhVerifyingKey
  sl_signature :: SlhSignature

definition license_verify ::
  "prims \<Rightarrow> (License \<Rightarrow> byte list) \<Rightarrow> SignedLicense \<Rightarrow> SlhVerifyingKey \<Rightarrow> u64 \<Rightarrow> string option
   \<Rightarrow> LicenseError + unit" where
  "license_verify P signing_bytes sl trusted now chain_id =
     (if sl_issuer sl \<noteq> trusted then Inl WrongIssuer
      else if \<not> slh_vk_verify P (sl_issuer sl) (signing_bytes (sl_license sl)) (sl_signature sl) ctx_LICENSE
      then Inl BadSignature
      else if now < issued_at (sl_license sl) then Inl (NotYetValid (issued_at (sl_license sl)) now)
      else if expires_at (sl_license sl) \<le> now then Inl (Expired (expires_at (sl_license sl)) now)
      else case lic_chain_id (sl_license sl) of
        None \<Rightarrow> Inr ()
      | Some bound \<Rightarrow>
          (case chain_id of
             Some actual \<Rightarrow> if actual = bound then Inr () else Inl (WrongChain bound actual)
           | None \<Rightarrow> Inl (WrongChain bound [])))"

record LicenseIssuer =
  iss_sk :: SlhSigningKey
  iss_pk :: SlhVerifyingKey

definition issuer_from_keypair :: "SlhSigningKey \<Rightarrow> SlhVerifyingKey \<Rightarrow> LicenseIssuer" where
  "issuer_from_keypair sk pk = \<lparr>iss_sk = sk, iss_pk = pk\<rparr>"

definition issuer_generate :: "prims \<Rightarrow> byte list \<Rightarrow> LicenseError + LicenseIssuer" where
  "issuer_generate P seed =
     (case slh_generate P seed of
        Inl e \<Rightarrow> Inl (LicenseCrypto e)
      | Inr (sk, pk) \<Rightarrow> Inr (issuer_from_keypair sk pk))"

definition issue ::
  "prims \<Rightarrow> (License \<Rightarrow> byte list) \<Rightarrow> LicenseIssuer \<Rightarrow> License \<Rightarrow> LicenseError + SignedLicense" where
  "issue P signing_bytes iss lic =
     (case slh_sign P (iss_sk iss) (signing_bytes lic) ctx_LICENSE of
        Inl e \<Rightarrow> Inl (LicenseCrypto e)
      | Inr s \<Rightarrow> Inr \<lparr>sl_license = lic, sl_issuer = iss_pk iss, sl_signature = s\<rparr>)"

section \<open>The check at node start\<close>

datatype CheckError =
    MissingIssuer
  | BadIssuerHex
  | ReadLicense string
  | ParseLicense LicenseError
  | InvalidLicense LicenseError

definition license_check ::
  "prims \<Rightarrow> (License \<Rightarrow> byte list) \<Rightarrow> (string \<Rightarrow> string + string) \<Rightarrow> (string \<Rightarrow> LicenseError + SignedLicense)
   \<Rightarrow> string option \<Rightarrow> string option \<Rightarrow> string \<Rightarrow> u64 \<Rightarrow> CheckError + Entitlements option" where
  "license_check P signing_bytes read_file from_json license_file license_issuer_pubkey chain_id now =
     (case license_file of
        None \<Rightarrow> Inr None
      | Some path \<Rightarrow>
          (case license_issuer_pubkey of
             None \<Rightarrow> Inl MissingIssuer
           | Some issuer_hex \<Rightarrow>
               (case slh_vk_from_hex P issuer_hex of
                  Inl _ \<Rightarrow> Inl BadIssuerHex
                | Inr issuer \<Rightarrow>
                    (case read_file path of
                       Inl e \<Rightarrow> Inl (ReadLicense e)
                     | Inr json \<Rightarrow>
                         (case from_json json of
                            Inl e \<Rightarrow> Inl (ParseLicense e)
                          | Inr sl \<Rightarrow>
                              (case license_verify P signing_bytes sl issuer now (Some chain_id) of
                                 Inl e \<Rightarrow> Inl (InvalidLicense e)
                               | Inr _ \<Rightarrow> Inr (Some (entitlements (sl_license sl)))))))))"

section \<open>The meter\<close>

definition WINDOW_SECS :: u64 where
  "WINDOW_SECS = 30 * 24 * 3600"

record Persisted =
  pe_count :: u64
  pe_window_start :: u64

record Meter =
  m_cap :: "u64 option"
  m_count :: u64
  m_window_start :: u64
  m_path :: "string option"

definition saturating_add :: "u64 \<Rightarrow> u64 \<Rightarrow> u64" where
  "saturating_add a b = (if a + b < a then - 1 else a + b)"

definition roll :: "u64 \<Rightarrow> Meter \<Rightarrow> Meter" where
  "roll now m =
     (if saturating_add (m_window_start m) WINDOW_SECS \<le> now
      then m\<lparr>m_window_start := now, m_count := 0\<rparr> else m)"

text \<open>\<open>disk\<close> is the parsed content of a usage file, where there is one that parses.\<close>

definition meter_new :: "(string \<Rightarrow> Persisted option) \<Rightarrow> u64 option \<Rightarrow> string option \<Rightarrow> u64 \<Rightarrow> Meter" where
  "meter_new disk cap path now =
     (let (count, window_start) =
        (case path of
           None \<Rightarrow> (0, now)
         | Some p \<Rightarrow> (case disk p of Some d \<Rightarrow> (pe_count d, pe_window_start d) | None \<Rightarrow> (0, now)))
      in roll now \<lparr>m_cap = cap, m_count = count, m_window_start = window_start, m_path = path\<rparr>)"

text \<open>The write is best effort; \<open>write_ok\<close> says whether it succeeds.\<close>

definition persist :: "bool \<Rightarrow> Meter \<Rightarrow> (string \<Rightarrow> Persisted option) \<Rightarrow> string \<Rightarrow> Persisted option" where
  "persist write_ok m disk =
     (case m_path m of
        None \<Rightarrow> disk
      | Some p \<Rightarrow> if write_ok then disk(p \<mapsto> \<lparr>pe_count = m_count m, pe_window_start = m_window_start m\<rparr>)
                 else disk)"

definition try_record ::
  "bool \<Rightarrow> u64 \<Rightarrow> Meter \<times> (string \<Rightarrow> Persisted option) \<Rightarrow> bool \<times> Meter \<times> (string \<Rightarrow> Persisted option)" where
  "try_record write_ok now st =
     (let (m, disk) = st;
          m1 = roll now m
      in if (case m_cap m1 of Some cap \<Rightarrow> cap \<le> m_count m1 | None \<Rightarrow> False) then (False, m1, disk)
         else let m2 = m1\<lparr>m_count := m_count m1 + 1\<rparr> in (True, m2, persist write_ok m2 disk))"

definition meter_status :: "Meter \<Rightarrow> u64 \<times> u64 option \<times> u64 \<times> u64" where
  "meter_status m = (m_count m, m_cap m, m_window_start m, WINDOW_SECS)"

section \<open>Lemmas on licenses\<close>

lemma license_verify_Inr_iff:
  "license_verify P sb sl trusted now chain_id = Inr () \<longleftrightarrow>
     sl_issuer sl = trusted
     \<and> slh_vk_verify P trusted (sb (sl_license sl)) (sl_signature sl) ctx_LICENSE
     \<and> issued_at (sl_license sl) \<le> now \<and> now < expires_at (sl_license sl)
     \<and> (lic_chain_id (sl_license sl) = None \<or> lic_chain_id (sl_license sl) = chain_id)"
  by (auto simp: license_verify_def not_less not_le split: option.splits)

lemma issue_verifies:
  assumes "slh_correct P (iss_sk iss) (iss_pk iss)" and "issue P sb iss lic = Inr sl"
  shows "license_verify P sb sl (iss_pk iss) now chain_id = Inr () \<longleftrightarrow>
     issued_at lic \<le> now \<and> now < expires_at lic \<and> (lic_chain_id lic = None \<or> lic_chain_id lic = chain_id)"
  using assms slh_sign_verifies [OF assms(1)]
  by (auto simp: license_verify_Inr_iff issue_def split: sum.splits)

section \<open>Lemmas on the meter\<close>

text \<open>A sequence of requests, the answers in order.\<close>

fun record_all :: "(bool \<times> u64) list \<Rightarrow> Meter \<times> (string \<Rightarrow> Persisted option)
    \<Rightarrow> bool list \<times> Meter \<times> (string \<Rightarrow> Persisted option)" where
  "record_all [] st = ([], st)"
| "record_all ((write_ok, now) # rest) st =
     (let (ok, st1) = try_record write_ok now st; (oks, st2) = record_all rest st1 in (ok # oks, st2))"

definition in_window :: "Meter \<Rightarrow> u64 \<Rightarrow> bool" where
  "in_window m now \<longleftrightarrow> now < saturating_add (m_window_start m) WINDOW_SECS"

lemma roll_in_window: "in_window m now \<Longrightarrow> roll now m = m"
  by (simp add: roll_def in_window_def)

lemma roll_cap [simp]: "m_cap (roll now m) = m_cap m" "m_path (roll now m) = m_path m"
  by (simp_all add: roll_def)

lemma record_all_within_cap:
  assumes "m_cap m = Some cap" and "m_count m \<le> cap"
    and "\<forall>(w, now)\<in>set reqs. in_window m now"
    and "record_all reqs (m, disk) = (oks, m', disk')"
  shows "unat (m_count m') = unat (m_count m) + length (filter id oks) \<and> m_count m' \<le> cap
    \<and> m_window_start m' = m_window_start m \<and> m_cap m' = Some cap"
  using assms
proof (induction reqs arbitrary: m disk oks)
  case Nil
  then show ?case by simp
next
  case (Cons q reqs)
  obtain w now where q: "q = (w, now)" by force
  from Cons.prems(3) have roll: "roll now m = m" by (auto simp: q intro: roll_in_window)
  show ?case
  proof (cases "cap \<le> m_count m")
    case True
    with Cons.prems roll obtain oks' where "record_all reqs (m, disk) = (oks', m', disk')" "oks = False # oks'"
      by (auto simp: q try_record_def Let_def split: prod.splits)
    with Cons.IH [of m disk oks'] Cons.prems show ?thesis by auto
  next
    case False
    let ?m1 = "m\<lparr>m_count := m_count m + 1\<rparr>"
    from False Cons.prems roll obtain disk1 oks' where rest: "record_all reqs (?m1, disk1) = (oks', m', disk')"
      and oks: "oks = True # oks'"
      by (auto simp: q try_record_def Let_def split: prod.splits)
    have count: "unat (m_count m + 1) = unat (m_count m) + 1" and le: "m_count m + 1 \<le> cap"
      using False unat_plus_one_below [of "m_count m" cap] by (simp_all add: not_le)
    have "\<forall>(w, now)\<in>set reqs. in_window ?m1 now" using Cons.prems(3) by (simp add: in_window_def)
    with Cons.IH [of ?m1 disk1 oks'] rest le Cons.prems(1) count oks show ?thesis by simp
  qed
qed

lemma meter_restart:
  assumes "m_path m = Some p" and "try_record True now (m, disk) = (True, m', disk')" and "in_window m' now'"
  shows "meter_new disk' (m_cap m) (m_path m) now' = m'"
proof -
  from assms(1,2) have m': "m_path m' = Some p" "m_cap m' = m_cap m"
    and disk': "disk' p = Some \<lparr>pe_count = m_count m', pe_window_start = m_window_start m'\<rparr>"
    by (auto simp: try_record_def Let_def persist_def split: if_splits option.splits)
  then have "meter_new disk' (m_cap m) (m_path m) now' = roll now' m'"
    using assms(1) by (cases m') (simp add: meter_new_def)
  with assms(3) show ?thesis by (simp add: roll_in_window)
qed

end
