(* ===== verification/Rpc.thy ===== *)
theory Rpc
  imports Node_Loop License
begin

text \<open>
  The client-facing request handler (\<^verbatim>\<open>crates/node/src/rpc.rs\<close>), the client helpers
  (\<^verbatim>\<open>crates/node/src/client.rs\<close>) and the choice of an anchor backend
  (\<^verbatim>\<open>crates/node/src/anchoring.rs\<close>).
\<close>

section \<open>Requests\<close>

datatype RpcRequest =
    RqSubmit Attestation
  | RqSubmitGovernance SignedValidatorChange
  | RqAddPeer string
  | RqGetProof Hash
  | RqGetAnchoredProof Hash
  | RqStatus
  | RqNodeInfo
  | RqUsage

datatype RpcResponse =
    Submitted bool
  | RsProof "NotarizationProof option"
  | RsAnchoredProof "AnchoredProof option"
  | RsStatus u64 Hash
  | RsNodeInfo string VerifyingKey u64 Hash
  | RsUsage u64 "u64 option" u64 u64
  | RsError string

text \<open>
  What a connection shares with the node: the committed blocks, the anchoring service, the meter
  with its usage file, the chain id and the node's key.
\<close>

record rpc_state =
  rs_committed :: "SlcBlock list"
  rs_anchor :: "AnchorService option"
  rs_chain_id :: string
  rs_pubkey :: VerifyingKey
  rs_meter :: "(Meter \<times> (string \<Rightarrow> Persisted option)) option"

fun find_proof :: "prims \<Rightarrow> SlcBlock list \<Rightarrow> Hash \<Rightarrow> NotarizationProof option" where
  "find_proof P [] hash = None"
| "find_proof P (block # rest) hash =
     (case position_of (\<lambda>a. att_hash a = hash) (blk_attestations block) of
        Some idx \<Rightarrow> proof_from_block P block idx
      | None \<Rightarrow> find_proof P rest hash)"

definition find_anchored_proof ::
  "prims \<Rightarrow> SlcBlock list \<Rightarrow> AnchorService option \<Rightarrow> Hash \<Rightarrow> AnchoredProof option" where
  "find_anchored_proof P committed anchor hash =
     do { pf \<leftarrow> find_proof P committed hash; service \<leftarrow> anchor; anchor_proof P service pf }"

definition record_usage :: "bool \<Rightarrow> u64 \<Rightarrow> rpc_state \<Rightarrow> bool \<times> rpc_state" where
  "record_usage write_ok now s =
     (case rs_meter s of
        Some m \<Rightarrow> (let (ok, m') = try_record write_ok now m in (ok, s\<lparr>rs_meter := Some m'\<rparr>))
      | None \<Rightarrow> (True, s))"

definition tip_status :: "prims \<Rightarrow> SlcBlock list \<Rightarrow> u64 \<times> Hash" where
  "tip_status P blocks =
     (if blocks = [] then (0, zero_hash)
      else (bh_height (blk_header (last blocks)), header_id P (blk_header (last blocks))))"

text \<open>
  One request: the response, the state and the events sent to the node's loop. \<open>alive\<close> says
  whether the loop still receives.
\<close>

definition rpc_handle ::
  "prims \<Rightarrow> bool \<Rightarrow> u64 \<Rightarrow> bool \<Rightarrow> RpcRequest \<Rightarrow> rpc_state \<Rightarrow> RpcResponse \<times> rpc_state \<times> Event list" where
  "rpc_handle P write_ok now alive req s =
     (case req of
        RqSubmit att \<Rightarrow>
          if \<not> attestation_verify P att then (Submitted False, s, [])
          else let (ok, s1) = record_usage write_ok now s in
            if \<not> ok then (RsError ''licensed notarization volume exceeded'', s1, [])
            else (Submitted alive, s1, if alive then [EvSubmit att] else [])
      | RqSubmitGovernance change \<Rightarrow>
          (Submitted alive, s, if alive then [EvSubmitGovernance change] else [])
      | RqAddPeer addr \<Rightarrow> (Submitted alive, s, if alive then [EvAddPeer addr] else [])
      | RqGetProof hash \<Rightarrow> (RsProof (find_proof P (rs_committed s) hash), s, [])
      | RqGetAnchoredProof hash \<Rightarrow>
          (RsAnchoredProof (find_anchored_proof P (rs_committed s) (rs_anchor s) hash), s, [])
      | RqStatus \<Rightarrow> (let (height, tip) = tip_status P (rs_committed s) in (RsStatus height tip, s, []))
      | RqNodeInfo \<Rightarrow>
          (let (height, tip) = tip_status P (rs_committed s)
           in (RsNodeInfo (rs_chain_id s) (rs_pubkey s) height tip, s, []))
      | RqUsage \<Rightarrow>
          (case rs_meter s of
             Some (m, disk) \<Rightarrow>
               (let (used, cap, window_start, window_secs) = meter_status m
                in (RsUsage used cap window_start window_secs, s, []))
           | None \<Rightarrow> (RsUsage 0 None 0 0, s, [])))"

section \<open>Client helpers\<close>

definition show_ledger_error :: "LedgerError \<Rightarrow> string" where
  "show_ledger_error err =
     (case err of
        Crypto e \<Rightarrow> ''crypto error: '' @ show_crypto_error e
      | InvalidAttestation \<Rightarrow> ''attestation signature is invalid''
      | NotIncluded \<Rightarrow> ''attestation is not included under the block'' @ [CHR 0x27] @ ''s merkle root''
      | BlockIdMismatch \<Rightarrow> ''quorum certificate commits to a different block id than the header''
      | InsufficientQuorum got need \<Rightarrow>
          ''insufficient quorum: '' @ show_nat got @ '' valid signatures, need '' @ show_nat need
      | Serialization m \<Rightarrow> ''serialization error: '' @ m)"

text \<open>\<open>call\<close> is the round trip to the node's RPC, an error of the connection or a response.\<close>

definition client_notarize ::
  "prims \<Rightarrow> (RpcRequest \<Rightarrow> string + RpcResponse) \<Rightarrow> SigningKey \<Rightarrow> VerifyingKey \<Rightarrow> Hash \<Rightarrow> string + bool" where
  "client_notarize P call sk pk doc_hash =
     (case attestation_create P sk pk doc_hash of
        Inl e \<Rightarrow> Inl (''attestation: '' @ show_ledger_error e)
      | Inr att \<Rightarrow>
          (case call (RqSubmit att) of
             Inl e \<Rightarrow> Inl e
           | Inr (Submitted accepted) \<Rightarrow> Inr accepted
           | Inr (RsError e) \<Rightarrow> Inl e
           | Inr _ \<Rightarrow> Inl ''unexpected response to submit''))"

definition client_get_proof ::
  "(RpcRequest \<Rightarrow> string + RpcResponse) \<Rightarrow> Hash \<Rightarrow> string + NotarizationProof option" where
  "client_get_proof call doc_hash =
     (case call (RqGetProof doc_hash) of
        Inl e \<Rightarrow> Inl e
      | Inr (RsProof pf) \<Rightarrow> Inr pf
      | Inr (RsError e) \<Rightarrow> Inl e
      | Inr _ \<Rightarrow> Inl ''unexpected response to get-proof'')"

definition client_get_anchored_proof ::
  "(RpcRequest \<Rightarrow> string + RpcResponse) \<Rightarrow> Hash \<Rightarrow> string + AnchoredProof option" where
  "client_get_anchored_proof call doc_hash =
     (case call (RqGetAnchoredProof doc_hash) of
        Inl e \<Rightarrow> Inl e
      | Inr (RsAnchoredProof pf) \<Rightarrow> Inr pf
      | Inr (RsError e) \<Rightarrow> Inl e
      | Inr _ \<Rightarrow> Inl ''unexpected response to get-anchored-proof'')"

definition client_status :: "(RpcRequest \<Rightarrow> string + RpcResponse) \<Rightarrow> string + (u64 \<times> Hash)" where
  "client_status call =
     (case call RqStatus of
        Inl e \<Rightarrow> Inl e
      | Inr (RsStatus height tip) \<Rightarrow> Inr (height, tip)
      | Inr (RsError e) \<Rightarrow> Inl e
      | Inr _ \<Rightarrow> Inl ''unexpected response to status'')"

definition client_usage ::
  "(RpcRequest \<Rightarrow> string + RpcResponse) \<Rightarrow> string + (u64 \<times> u64 option \<times> u64 \<times> u64)" where
  "client_usage call =
     (case call RqUsage of
        Inl e \<Rightarrow> Inl e
      | Inr (RsUsage used cap window_start window_secs) \<Rightarrow> Inr (used, cap, window_start, window_secs)
      | Inr (RsError e) \<Rightarrow> Inl e
      | Inr _ \<Rightarrow> Inl ''unexpected response to usage'')"

definition is_ok :: "'e + 'a \<Rightarrow> bool" where
  "is_ok r = (case r of Inl _ \<Rightarrow> False | Inr _ \<Rightarrow> True)"

text \<open>\<open>None\<close> is the assertion of \<^verbatim>\<open>ValidatorSet::bft\<close> on an empty genesis.\<close>

definition verify_proof :: "prims \<Rightarrow> NotarizationProof \<Rightarrow> GenesisConfig \<Rightarrow> bool option" where
  "verify_proof P pf genesis =
     do { s \<leftarrow> validator_set_bft (validator_keys genesis); Some (is_ok (proof_verify P pf s)) }"

definition verify_anchored_proof :: "prims \<Rightarrow> AnchoredProof \<Rightarrow> GenesisConfig \<Rightarrow> bool option" where
  "verify_anchored_proof P ap genesis =
     do { s \<leftarrow> validator_set_bft (validator_keys genesis); Some (is_ok (anchored_verify P ap s)) }"

definition approve_change ::
  "prims \<Rightarrow> SignedValidatorChange \<Rightarrow> SigningKey \<Rightarrow> VerifyingKey \<Rightarrow> SignedValidatorChange option" where
  "approve_change P g sk pk =
     do {
       sig \<leftarrow> expect_ok (sk_sign P sk (change_signing_bytes (svc_change g)) ctx_GOVERNANCE);
       Some (approve g pk sig)
     }"

section \<open>The configured anchor backend\<close>

record AnchorConfig =
  ac_anchor_interval :: u64
  ac_anchor_backend :: "string option"
  ac_anchor_file :: "string option"
  ac_notaryhash_endpoint :: "string option"
  ac_notaryhash_api_key_env :: "string option"

definition configured_backend :: "AnchorConfig \<Rightarrow> string" where
  "configured_backend cfg =
     (case ac_anchor_backend cfg of
        Some b \<Rightarrow> b
      | None \<Rightarrow> if ac_anchor_file cfg \<noteq> None then ''file'' else ''mock'')"

text \<open>\<open>feature\<close> is the cargo feature \<^verbatim>\<open>notaryhash\<close>, \<open>getenv\<close> the process environment.\<close>

definition build_backend ::
  "bool \<Rightarrow> (string \<Rightarrow> string option) \<Rightarrow> AnchorConfig \<Rightarrow> SigningKey \<Rightarrow> VerifyingKey
   \<Rightarrow> string + AnchorBackend option" where
  "build_backend feature getenv cfg anchor_sk anchor_pk =
     (if ac_anchor_interval cfg = 0 then Inr None
      else if configured_backend cfg = ''mock'' then Inr (Some (Mock mock_new))
      else if configured_backend cfg = ''file'' then
        (case ac_anchor_file cfg of
           None \<Rightarrow> Inl ''anchor_file is required for the file backend''
         | Some path \<Rightarrow> Inr (Some (File (file_new path))))
      else if configured_backend cfg = ''notaryhash'' then
        (if feature then
           (let endpoint = (case ac_notaryhash_endpoint cfg of Some u \<Rightarrow> u | None \<Rightarrow> ''https://notaryhash.com'');
                env_name = (case ac_notaryhash_api_key_env cfg of Some v \<Rightarrow> v | None \<Rightarrow> ''NOTARYHASH_API_KEY'')
            in case getenv env_name of
                 None \<Rightarrow> Inl (''set $'' @ env_name @ '' for the notaryhash backend'')
               | Some api_key \<Rightarrow> Inr (Some (NotaryHash (notaryhash_new endpoint api_key anchor_sk anchor_pk))))
         else Inl ''the notaryhash backend requires building with --features notaryhash'')
      else Inl (''unknown anchor_backend '' @ [CHR 0x27] @ configured_backend cfg @ [CHR 0x27]))"

section \<open>Lemmas\<close>

lemma find_proof_None_iff:
  "find_proof P blocks h = None \<longleftrightarrow> (\<forall>b\<in>set blocks. \<forall>a\<in>set (blk_attestations b). att_hash a \<noteq> h)"
proof (induction blocks)
  case (Cons b bs)
  show ?case
  proof (cases "position_of (\<lambda>a. att_hash a = h) (blk_attestations b)")
    case None
    then have "\<forall>a\<in>set (blk_attestations b). att_hash a \<noteq> h" by (simp add: position_of_None)
    with None Cons show ?thesis by simp
  next
    case (Some i)
    then have i: "i < length (blk_attestations b)" "att_hash (blk_attestations b ! i) = h"
      by (auto simp: position_of_Some)
    from proof_from_block_eq [OF i(1), of P] Some i show ?thesis
      by auto
  qed
qed simp

text \<open>A found proof names the block it comes from and the position of the attestation in it.\<close>

lemma find_proof_SomeD:
  assumes "find_proof P blocks h = Some pf"
  obtains pre b post i where "blocks = pre @ b # post" "i < length (blk_attestations b)"
    "att_hash (blk_attestations b ! i) = h" "proof_from_block P b i = Some pf"
  using assms
proof (induction blocks arbitrary: thesis)
  case (Cons b bs)
  show ?case
  proof (cases "position_of (\<lambda>a. att_hash a = h) (blk_attestations b)")
    case None
    with Cons.prems(2) have "find_proof P bs h = Some pf" by simp
    then show ?thesis by (rule Cons.IH [rotated]) (auto intro: Cons.prems(1) [of "b # _"])
  next
    case (Some i)
    with Cons.prems(2) show ?thesis by (intro Cons.prems(1) [of "[]" b bs i]) (auto simp: position_of_Some)
  qed
qed simp

lemma proof_from_accepted:
  assumes "block_accepted P (reg, tip, height) b" and "i < length (blk_attestations b)"
  shows "\<exists>pf s. proof_from_block P b i = Some pf \<and> active_set reg height = Some s
    \<and> proof_verify P pf s = Inr () \<and> np_attestation pf = blk_attestations b ! i \<and> np_header pf = blk_header b"
proof -
  from assms(1) obtain s where s: "active_set reg height = Some s"
    and v: "proposed_is_valid P (block_value b) tip height s" "qc_verify P (blk_qc b) (blk_header b) s = Inr ()"
    by (auto split: option.splits)
  obtain path where pf: "proof_from_block P b i = Some \<lparr>np_attestation = blk_attestations b ! i,
      np_path = path, np_header = blk_header b, np_qc = blk_qc b\<rparr>"
    and root: "compute_root P path (leaf_hash P (blk_attestations b ! i)) =
      merkle_root_of P (merkle_build P (map (leaf_hash P) (blk_attestations b)))"
    using proof_from_block_eq [OF assms(2), of P] by blast
  from v assms(2) root show ?thesis
    by (auto simp: pf s proof_verify_Inr_iff proposed_is_valid_iff block_value_def)
qed

text \<open>What a request for a proof may be answered with, at a node that stores the blocks \<open>bs\<close>.\<close>

definition proof_answer :: "prims \<Rightarrow> chain_state \<Rightarrow> SlcBlock list \<Rightarrow> Hash \<Rightarrow> RpcResponse \<Rightarrow> bool" where
  "proof_answer P st bs hash resp \<longleftrightarrow> (case resp of
      RsProof None \<Rightarrow> \<forall>b\<in>set bs. \<forall>a\<in>set (blk_attestations b). att_hash a \<noteq> hash
    | RsProof (Some pf) \<Rightarrow> proof_hash pf = hash
        \<and> (\<exists>i<length bs. np_header pf = blk_header (bs ! i)
            \<and> (case foldl (chain_step P) st (take i bs) of
                 (reg, tip, h) \<Rightarrow> \<exists>s. active_set reg h = Some s \<and> proof_verify P pf s = Inr ()))
    | _ \<Rightarrow> False)"

lemma rpc_proof_answer:
  assumes valid: "chain_valid P st bs" and "bs_blocks s = bs" and "rs_committed rs = snapshot s"
  shows "proof_answer P st bs hash (fst (rpc_handle P write_ok now alive (RqGetProof hash) rs))"
proof (cases "find_proof P bs hash")
  case None
  with find_proof_None_iff [of P bs hash] assms show ?thesis by (simp add: rpc_handle_def snapshot_def proof_answer_def)
next
  case (Some pf)
  then obtain pre b post k where bs: "bs = pre @ b # post" and k: "k < length (blk_attestations b)"
    and hash: "att_hash (blk_attestations b ! k) = hash" and pf: "proof_from_block P b k = Some pf"
    by (rule find_proof_SomeD)
  obtain reg tip h where at: "foldl (chain_step P) st pre = (reg, tip, h)" by (metis prod_cases3)
  have acc: "block_accepted P (reg, tip, h) b"
    using chain_valid_nth [OF valid, of "length pre"] by (simp add: bs at)
  from proof_from_accepted [OF acc k] pf obtain vs where "active_set reg h = Some vs" "proof_verify P pf vs = Inr ()"
    "np_attestation pf = blk_attestations b ! k" "np_header pf = blk_header b" by auto
  then have "proof_hash pf = hash \<and> (\<exists>i<length bs. np_header pf = blk_header (bs ! i)
      \<and> (case foldl (chain_step P) st (take i bs) of
           (reg, tip, h) \<Rightarrow> \<exists>s. active_set reg h = Some s \<and> proof_verify P pf s = Inr ()))"
    by (intro conjI exI [of _ "length pre"]) (simp_all add: bs at hash proof_hash_def)
  with Some assms show ?thesis by (simp add: rpc_handle_def snapshot_def proof_answer_def)
qed

lemma approve_change_authorizes:
  assumes "mldsa_correct P sk pk" and "approve_change P g sk pk = Some g'"
  shows "svc_change g' = svc_change g
    \<and> (\<exists>s. svc_approvals g' = svc_approvals g @ [\<lparr>vs_validator = pk, vs_signature = s\<rparr>]
        \<and> vk_verify P pk (change_signing_bytes (svc_change g)) s ctx_GOVERNANCE)"
  using assms by (auto simp: approve_change_def approve_def bind_eq_Some_conv dest: sk_sign_verifies)

end
