(* ===== verification/Toy_Prims.thy ===== *)
theory Toy_Prims
  imports Slc_Crypto
begin

text \<open>
  One concrete choice of the primitives, on which the witnesses of the development evaluate.
  It satisfies every assumption the program makes of its cryptographic crates for the inputs the
  witnesses use; it has no cryptographic strength. A key pair is one byte string used on both
  sides, and a signature is the key, the context and the message in a row.
\<close>

definition toy_sha3 :: "byte list \<Rightarrow> byte list" where
  "toy_sha3 bs = replicate 24 0 @ u64_be (foldl (\<lambda>acc b. acc * 31 + ucast b + 1) 7 bs)"

definition toy_prims :: prims where
  "toy_prims =
     \<lparr>sha3_256 = toy_sha3,
      hex_encode = (\<lambda>bs. map (\<lambda>b. char_of (unat b)) bs),
      hex_decode = (\<lambda>s. Some (map (\<lambda>c. of_nat (of_char c)) s)),
      mldsa_try_keygen = (\<lambda>seed. Some (seed, seed)),
      mldsa_try_sign = (\<lambda>sk m c. Some (sk @ c @ m)),
      mldsa_verify = (\<lambda>pk m s c. s = pk @ c @ m),
      mldsa_sk_ok = (\<lambda>_. True),
      mldsa_pk_ok = (\<lambda>_. True),
      slh_try_keygen = (\<lambda>seed. Some (seed, seed)),
      slh_try_sign = (\<lambda>sk m c. Some (sk @ c @ m)),
      slh_verify = (\<lambda>pk m s c. s = pk @ c @ m),
      slh_sk_ok = (\<lambda>_. True),
      slh_pk_ok = (\<lambda>_. True),
      iter_rounds = (\<lambda>ks. ks),
      iter_ids = (\<lambda>ks. ks)\<rparr>"

lemma toy_sha3_width [simp]: "sha3_width toy_prims"
  by (simp add: sha3_width_def toy_prims_def toy_sha3_def)

lemma toy_hex_inverse [simp]: "hex_inverse toy_prims"
proof -
  have "of_nat (of_char (char_of (unat b))) = (b :: byte)" for b
    using unsigned_less [of b, where ?'a = nat] by (simp add: of_char_of)
  then show ?thesis by (simp add: hex_inverse_def toy_prims_def comp_def)
qed

lemma toy_mldsa_correct [simp]: "mldsa_correct toy_prims (SigningKey k) (VerifyingKey k)"
  by (simp add: mldsa_correct_def toy_prims_def)

lemma toy_slh_correct [simp]: "slh_correct toy_prims (SlhSigningKey k) (SlhVerifyingKey k)"
  by (simp add: slh_correct_def toy_prims_def)

lemma toy_iter_ok [simp]: "iter_ok toy_prims"
  by (simp add: iter_ok_def reorders_def toy_prims_def)

text \<open>Variants: a digest that pads and cuts its input, and a verifier that accepts every signature.\<close>

definition pad_prims :: prims where
  "pad_prims = toy_prims\<lparr>sha3_256 := (\<lambda>bs. take 32 (bs @ replicate 32 0))\<rparr>"

definition lax_prims :: prims where
  "lax_prims = pad_prims\<lparr>mldsa_verify := (\<lambda>_ _ _ _. True)\<rparr>"

lemma pad_sha3_width [simp]: "sha3_width pad_prims" "sha3_width lax_prims"
  by (auto simp: sha3_width_def pad_prims_def lax_prims_def min_def)

lemma toy_vk_verify [simp]:
  "vk_verify toy_prims (VerifyingKey k) m (Signature s) c \<longleftrightarrow> s = k @ c @ m"
  by (simp add: vk_verify_def toy_prims_def)

lemma lax_vk_verify [simp]: "vk_verify lax_prims k m s c"
  by (simp add: vk_verify_def lax_prims_def)

end
