(* ===== verification/Scenario.thy ===== *)
theory Scenario
  imports Node_Total Rpc Toy_Prims
begin

text \<open>
  Concrete runs on which the properties of the engine and the node are applied: a chain with one
  validator that notarizes one document, its restart from the blocks it stored, and a node that
  follows this chain without being a validator. The primitives are those of \<open>Toy_Prims\<close> with a
  cheaper digest.
\<close>

definition lite_prims :: prims where
  "lite_prims = toy_prims\<lparr>sha3_256 := (\<lambda>bs. [of_nat (length bs)])\<rparr>"

definition demo_sk :: SigningKey where
  "demo_sk = SigningKey [1]"

definition demo_pk :: VerifyingKey where
  "demo_pk = VerifyingKey [1]"

definition demo_att :: Attestation where
  "demo_att = \<lparr>att_pubkey = VerifyingKey [9], att_hash = Hash [5],
     att_signature = Signature ([9] @ ctx_ATTESTATION @ [5])\<rparr>"

definition demo_genesis :: GenesisConfig where
  "demo_genesis = \<lparr>gc_chain_id = ''demo'', gc_validators = [\<lparr>vi_pubkey = demo_pk, vi_addr = ''a:1''\<rparr>]\<rparr>"

definition demo_world :: anchor_world where
  "demo_world = \<lparr>w_open = (\<lambda>_. None), w_writeln = (\<lambda>_ _. None), w_post = (\<lambda>_ _ _. Inl ''offline''),
     w_into_json = (\<lambda>_. Inl ''offline''), w_base64 = (\<lambda>_. [])\<rparr>"

definition demo_env :: node_env where
  "demo_env = \<lparr>env_now = 1000, env_write_ok = True, env_world = demo_world\<rparr>"

definition demo_store :: BlockStore where
  "demo_store = \<lparr>bs_path = None, bs_lines = [], bs_blocks = []\<rparr>"

definition demo_transport :: Transport where
  "demo_transport = \<lparr>t_peers = [], t_outbound = []\<rparr>"

definition demo_events :: "(node_env \<times> Event) list" where
  "demo_events = [(demo_env, EvSubmit demo_att)]"

definition demo_ser :: "SlcBlock \<Rightarrow> string option" where
  "demo_ser b = None"

text \<open>A node that is given a store, started and fed one submission, then what is asked of the result.\<close>

definition demo_check :: "BlockStore \<Rightarrow> (Node \<Rightarrow> Node \<Rightarrow> NodeOut list \<Rightarrow> bool) \<Rightarrow> bool" where
  "demo_check st p =
     (case node_new lite_prims demo_transport demo_genesis demo_sk demo_pk st 1000 of
        None \<Rightarrow> False
      | Some n \<Rightarrow>
          (case node_run lite_prims demo_ser demo_env demo_events n of
             None \<Rightarrow> False
           | Some (n', out) \<Rightarrow> p n n' out))"

lemma lite_mldsa_correct [simp]: "mldsa_correct lite_prims (SigningKey k) (VerifyingKey k)"
  by (simp add: mldsa_correct_def lite_prims_def toy_prims_def)

lemma lite_iter_ok [simp]: "iter_ok lite_prims"
  by (simp add: iter_ok_def reorders_def lite_prims_def toy_prims_def)

lemma lite_signs_always [simp]: "signs_always lite_prims sk"
  by (simp add: signs_always_def lite_prims_def toy_prims_def)

lemma demo_keys [simp]: "mldsa_correct lite_prims demo_sk demo_pk"
  by (simp add: demo_sk_def demo_pk_def)

lemma demo_member [simp]: "demo_pk \<in> set (validator_keys demo_genesis)"
  by (simp add: demo_genesis_def validator_keys_def)

text \<open>The run commits one block with the submitted attestation, and votes twice.\<close>

lemma demo_run_check:
  "demo_check demo_store (\<lambda>n n' out.
     map (map att_hash \<circ> blk_attestations) (bs_blocks (nd_store n')) = [[Hash [5]]]
     \<and> map slot (node_votes out) = [(1, 0, 0), (1, 0, 1)]
     \<and> list_all (block_keeps demo_pk) (bs_blocks (nd_store n'))
     \<and> e_round (nd_engine n) = 0 \<and> e_step (nd_engine n) = StPropose \<and> e_height (nd_engine n) = 1)"
  by code_simp

definition demo_result :: "Node \<Rightarrow> Node \<Rightarrow> NodeOut list \<Rightarrow> bool" where
  "demo_result n n' out \<longleftrightarrow>
     node_new lite_prims demo_transport demo_genesis demo_sk demo_pk demo_store 1000 = Some n
     \<and> node_run lite_prims demo_ser demo_env demo_events n = Some (n', out)
     \<and> map (map att_hash \<circ> blk_attestations) (bs_blocks (nd_store n')) = [[Hash [5]]]
     \<and> map slot (node_votes out) = [(1, 0, 0), (1, 0, 1)]
     \<and> (\<forall>b\<in>set (bs_blocks (nd_store n')). block_keeps demo_pk b)
     \<and> e_round (nd_engine n) = 0 \<and> e_step (nd_engine n) = StPropose \<and> e_height (nd_engine n) = 1"

lemma demo_run:
  obtains n n' out where "demo_result n n' out"
  using demo_run_check
  by (auto simp: demo_check_def demo_result_def list_all_iff simp del: split_paired_Ex split: option.splits)

lemma demo_resultD:
  assumes "demo_result n n' out"
  shows "node_new lite_prims demo_transport demo_genesis demo_sk demo_pk demo_store 1000 = Some n"
    and "chain_valid lite_prims (genesis_state (validator_keys demo_genesis)) (bs_blocks demo_store)"
    and "node_run lite_prims demo_ser demo_env demo_events n = Some (n', out)"
    and "\<forall>b\<in>set (bs_blocks (nd_store n')). block_keeps demo_pk b"
    and "map (map att_hash \<circ> blk_attestations) (bs_blocks (nd_store n')) = [[Hash [5]]]"
    and "length (bs_blocks (nd_store n')) = 1"
    and "map slot (node_votes out) = [(1, 0, 0), (1, 0, 1)]"
    and "e_height (nd_engine n) = 1"
  using assms by (auto simp: demo_result_def demo_store_def)

lemma demo_events_ok [simp]:
  "\<forall>(env, ev)\<in>set demo_events. event_ok ev" "no_regossip demo_events" "\<forall>(env, ev)\<in>set demo_events. event_keeps k ev"
  by (simp_all add: demo_events_def event_ok_def no_regossip_def event_keeps_def)

end
