(* ===== verification/Broadcasts.thy ===== *)
theory Broadcasts
  imports Engine_Safety
begin

text \<open>
  What an engine broadcasts is what its peers accept: every message is well formed for the chain the
  sender was on, and a well-formed message passes the checks of any engine on that chain.
\<close>

section \<open>Well-formed messages\<close>

fun msg_wf :: "prims \<Rightarrow> chain_state \<Rightarrow> ConsensusMsg \<Rightarrow> bool" where
  "msg_wf P (reg, tip, h) (Vote vm) \<longleftrightarrow>
     vm_height vm = h \<and> vm_voter vm \<in> set (active_keys reg h) \<and> vote_verify_sig P vm"
| "msg_wf P (reg, tip, h) (Proposal pm) \<longleftrightarrow>
     proposal_ok P h (sort_key (vk_id P) (active_keys reg h)) (pm_round pm) pm
     \<and> (pr_attestations (pm_value pm) \<noteq> [] \<or> pr_governance (pm_value pm) \<noteq> [])"

definition filed :: "prims \<Rightarrow> ConsensusMsg \<Rightarrow> Engine \<Rightarrow> bool" where
  "filed P msg e \<longleftrightarrow> (case msg of
     Vote vm \<Rightarrow> (\<exists>m. hm_get (case vm_vote_type vm of VPrevote \<Rightarrow> e_prevotes e | VPrecommit \<Rightarrow> e_precommits e) (vm_round vm) = Some m
       \<and> hm_get m (vk_id P (vm_voter vm)) \<noteq> None)
   | Proposal pm \<Rightarrow> hm_get (e_proposals e) (pm_round pm) \<noteq> None)"

lemma engine_inv_roster:
  assumes "engine_inv P e"
  shows "set_validators (e_current_set e) = active_keys (e_registry e) (e_height e)"
    and "e_validators_sorted e = sort_key (vk_id P) (active_keys (e_registry e) (e_height e))"
  using assms by (auto simp: engine_inv_def roster_ok_def active_set_def bft_Some_iff)

text \<open>A well-formed message is filed by every engine on the chain it was made for.\<close>

lemma msg_wf_filed:
  assumes "engine_inv P p" and "msg_wf P (chain_of p) msg"
  shows "\<exists>p'. ingest P msg p = Some p' \<and> filed P msg p'"
proof (cases msg)
  case (Vote vm)
  with assms engine_inv_roster [OF assms(1)] have "vm_height vm = e_height p" "vs_contains (e_current_set p) (vm_voter vm)"
    "vote_verify_sig P vm" by (auto simp: chain_of_def)
  with Vote show ?thesis
    by (cases "vm_vote_type vm")
      (auto simp: ingest_def ingest_vote_def filed_def store_vote_def hm_get_or_insert split: option.splits)
next
  case (Proposal pm)
  let ?r = "e_validators_sorted p"
  from Proposal assms(2) have ok: "proposal_ok P (e_height p) ?r (pm_round pm) pm"
    by (simp add: chain_of_def engine_inv_roster [OF assms(1)])
  then have "proposer p (pm_round pm) = Some (pm_proposer pm)" by (auto simp: proposal_ok_def proposer_def e_n_def)
  with ok Proposal show ?thesis
    by (auto simp: ingest_def ingest_proposal_def filed_def proposal_ok_def hm_get_or_insert)
qed

section \<open>Broadcasts\<close>

lemma emit_wf:
  assumes inv: "engine_inv P e" and me: "member_ok e"
    and c: "vote_create P (e_me_sk e) (e_me_pk e) (e_height e) (e_round e) vt bid = Some vm"
  shows "msg_wf P (chain_of e) (Vote vm)"
proof -
  have "mldsa_correct P (e_me_sk e) (e_me_pk e)" using inv by (simp add: engine_inv_def)
  from vote_create_verifies [OF this c] vote_create_Some [OF c] me engine_inv_roster [OF inv] show ?thesis
    by (simp add: chain_of_def member_ok_def)
qed

lemma emit_prevote_wf:
  "engine_inv P e \<Longrightarrow> member_ok e \<Longrightarrow> emit_prevote P bid e = Some (e', out) \<Longrightarrow> Broadcast msg \<in> set out \<Longrightarrow>
   msg_wf P (chain_of e) msg"
  by (auto simp: emit_prevote_def bind_eq_Some_conv simp del: msg_wf.simps dest: emit_wf)

lemma emit_precommit_wf:
  "engine_inv P e \<Longrightarrow> member_ok e \<Longrightarrow> emit_precommit P bid e = Some (e', out) \<Longrightarrow> Broadcast msg \<in> set out \<Longrightarrow>
   msg_wf P (chain_of e) msg"
  by (auto simp: emit_precommit_def bind_eq_Some_conv simp del: msg_wf.simps dest: emit_wf)

lemma enter_propose_wf:
  assumes inv: "engine_inv P e" and "enter_propose P r e = Some (e', out)" and "Broadcast msg \<in> set out"
  shows "msg_wf P (chain_of e) msg"
  using assms(2)
proof (cases rule: enter_propose_SomeE)
  case (proposed pm val vr)
  from proposed(1) have "e_validators_sorted e \<noteq> []"
    and "e_me_pk e = e_validators_sorted e ! (unat (e_height e + r) mod length (e_validators_sorted e))"
    by (auto simp: is_proposer_def proposer_def e_n_def bind_eq_Some_conv split: if_splits)
  moreover have "proposal_verify_sig P pm"
    using inv proposed(5) by (auto simp: engine_inv_def intro: proposal_create_verifies)
  ultimately show ?thesis
    using proposal_create_Some [OF proposed(5)] proposed(4,7) assms(3) engine_inv_roster [OF inv]
    by (auto simp: proposal_ok_def chain_of_def)
next
  case waits
  with assms(3) show ?thesis by simp
qed

lemma start_round_wf:
  assumes inv: "engine_inv P e" and "e_round e \<le> r" and s: "start_round P r e = Some (e', out)" and "Broadcast msg \<in> set out"
  shows "msg_wf P (chain_of e') msg"
proof -
  let ?e = "e\<lparr>e_round := r, e_step := StPropose, e_parked := False\<rparr>"
  have "engine_inv P ?e" using inv locks_ok_later [OF _ assms(2)] by (auto simp: engine_inv_def roster_ok_def)
  moreover from s assms(4) have "enter_propose P r ?e = Some (e', out)" by (auto simp: start_round_def Let_def split: if_splits)
  moreover have "chain_of ?e = chain_of e'" using chain_of_start_round [OF s] by (simp add: chain_of_def)
  ultimately show ?thesis using enter_propose_wf [of P ?e r e' out msg] assms(4) by metis
qed

lemma unpark_wf:
  assumes "engine_inv P e" and u: "unpark P e = Some (e', out)" and "Broadcast msg \<in> set out"
  shows "msg_wf P (chain_of e') msg"
proof -
  let ?e = "e\<lparr>e_parked := False\<rparr>"
  have "engine_inv P ?e" using assms(1) by (auto simp: engine_inv_def)
  moreover from u assms(3) have "enter_propose P (e_round e) ?e = Some (e', out)" by (auto simp: unpark_def split: if_splits)
  moreover have "chain_of ?e = chain_of e'" using chain_of_unpark [OF u] by (simp add: chain_of_def)
  ultimately show ?thesis using enter_propose_wf [of P ?e "e_round e" e' out msg] assms(3) by metis
qed

lemma rule_step_wf:
  assumes "rule_step P e e' out" and "engine_inv P e" "member_ok e" and "Broadcast msg \<in> set out"
  shows "msg_wf P (chain_of e') msg"
  using assms
proof (induction rule: rule_step.induct)
  case (commit_rule e r pm e' out)
  from commit_rule(4) show ?case
  proof (cases rule: commit_SomeE)
    case (1 s out')
    with commit_rule.prems engine_inv_rolled [OF commit_rule.prems(1) 1(1)] show ?thesis
      by (intro start_round_wf [OF _ _ 1(2)]) (auto simp: rolled_def reset_height_state_def)
  qed
next
  case (skip_rule e r e' out)
  then show ?case by (intro start_round_wf [OF skip_rule(5) _ skip_rule(4)]) auto
next
  case (prevote_rule e pm bid e1 out)
  then show ?case using chain_of_emit(1) [OF prevote_rule(4)] emit_prevote_wf [OF _ _ prevote_rule(4)] by metis
next
  case (polka_lock e pm e1 out)
  let ?e = "e\<lparr>e_polka_applied := insert (e_round e) (e_polka_applied e),
      e_locked_value := Some (pm_value pm), e_locked_round := Some (e_round e)\<rparr>"
  from polka_lock(6,9) obtain vm where
    vm: "vote_create P (e_me_sk e) (e_me_pk e) (e_height e) (e_round e) VPrecommit (Some (proposed_id P (pm_value pm))) = Some vm"
    and msg: "msg = Vote vm" by (auto simp: emit_precommit_def bind_eq_Some_conv)
  have "chain_of (e1\<lparr>e_step := StPrecommit, e_valid_value := Some (pm_value pm), e_valid_round := Some (e_round e)\<rparr>) = chain_of e"
    using polka_lock(6) by (auto simp: emit_precommit_def bind_eq_Some_conv chain_of_def)
  with emit_wf [OF polka_lock(7,8) vm] show ?case by (simp only: msg)
next
  case (precommit_nil_rule e e1 out)
  then show ?case using chain_of_emit(2) [OF precommit_nil_rule(3)] emit_precommit_wf [OF _ _ precommit_nil_rule(3)] by metis
qed auto

lemma timeout_wf:
  assumes "timeout_action P kind e = Some (e', out)" and "kind = ToPrecommit \<Longrightarrow> e_round e \<noteq> - 1"
    and inv: "engine_inv P e" "member_ok e" and "Broadcast msg \<in> set out"
  shows "msg_wf P (chain_of e') msg"
proof (cases kind)
  case ToPropose
  with assms obtain e1 where "emit_prevote P None e = Some (e1, out)" "e' = e1\<lparr>e_step := StPrevote\<rparr>"
    by (auto simp: timeout_action_def bind_eq_Some_conv split: if_splits)
  with chain_of_emit(1) [OF this(1)] emit_prevote_wf [OF inv this(1)] assms(5) show ?thesis by metis
next
  case ToPrevote
  with assms obtain e1 where "emit_precommit P None e = Some (e1, out)" "e' = e1\<lparr>e_step := StPrecommit\<rparr>"
    by (auto simp: timeout_action_def bind_eq_Some_conv split: if_splits)
  with chain_of_emit(2) [OF this(1)] emit_precommit_wf [OF inv this(1)] assms(5) show ?thesis by metis
next
  case ToPrecommit
  with assms have "start_round P (e_round e + 1) e = Some (e', out)" "e_round e \<le> e_round e + 1"
    using word_less_plus_one [of "e_round e"] by (auto simp: timeout_action_def)
  from start_round_wf [OF inv(1) this(2,1) assms(5)] show ?thesis .
qed

lemma engine_step_wf:
  assumes "engine_step P e e' out" and "engine_inv P e" "member_ok e" and "Broadcast msg \<in> set out"
  shows "msg_wf P (chain_of e') msg"
  using assms
proof (induction rule: fed_step.induct)
  case (by_entry e e' out)
  then show ?case by (intro start_round_wf [OF by_entry(4) _ by_entry(3)]) auto
qed (auto simp del: msg_wf.simps intro: rule_step_wf unpark_wf timeout_wf)

lemma engine_steps_wf:
  assumes "engine_steps P e e' out" and "engine_inv P e"
    and "never_removed (e_me_pk e) (e_registry e)" and "\<forall>b\<in>set (committed_blocks out). block_keeps (e_me_pk e) b"
    and "Broadcast msg \<in> set out"
  shows "\<exists>i\<le>length (committed_blocks out). msg_wf P (foldl (chain_step P) (chain_of e) (take i (committed_blocks out))) msg"
  using assms
proof (induction rule: fed_steps.induct)
  case (idle e)
  then show ?case by simp
next
  case (more e e1 out1 e2 out2)
  let ?cs = "committed_blocks (out1 @ out2)"
  show ?case
  proof (cases "Broadcast msg \<in> set out1")
    case True
    with more obtain i where "i \<le> length (committed_blocks out1)"
      "msg_wf P (foldl (chain_step P) (chain_of e) (take i (committed_blocks out1))) msg" by auto
    then show ?thesis by (intro exI [of _ i]) simp
  next
    case False
    note e1 = engine_steps_chain [OF more.hyps(1)]
    have inv: "engine_inv P e1" using more.hyps(1) more.prems(1) by (rule engine_inv_steps)
    have "never_removed (e_me_pk e) (fst (chain_of e1))"
      unfolding e1 using more.prems by (intro never_removed_chain) (auto simp: chain_of_def)
    then have "member_ok e1"
      using inv engine_steps_me [OF more.hyps(1)] by (intro member_okI) (auto simp: chain_of_def)
    with False more.prems(4) have "msg_wf P (chain_of e2) msg" by (intro engine_step_wf [OF more.hyps(2) inv]) auto
    with engine_step_chain [OF more.hyps(2)] e1 show ?thesis by (intro exI [of _ "length ?cs"]) simp
  qed
qed

end
