(* ===== verification/Consensus_Props.thy ===== *)
theory Consensus_Props
  imports Scenario Broadcasts
begin

text \<open>
  The properties of the consensus engine: what its votes bind, what it proposes, when it votes and
  commits, how the blocks it adopts extend its chain, and what happens to what is submitted to it.
\<close>

section \<open>Shared facts\<close>

lemma update_fresh: "map_of m k = None \<Longrightarrow> AList.update k v m = m @ [(k, v)]"
  by (induction m) auto

lemma hm_or_insert_fresh: "hm_get m k = None \<Longrightarrow> hm_or_insert k v m = m @ [(k, v)]"
  by (simp add: hm_or_insert_def hm_get_def update_fresh)

lemma count_votes_store_vote:
  assumes "hm_get (case hm_get store (vm_round vm) of None \<Rightarrow> [] | Some m \<Rightarrow> m) (vk_id P (vm_voter vm)) = None"
  shows "count_votes (store_vote P vm store) (vm_round vm) want =
    count_votes store (vm_round vm) want + (if matches (vm_block_id vm) want then 1 else 0)"
  using assms
  by (cases "hm_get store (vm_round vm)")
    (simp_all add: store_vote_def count_votes_def hm_or_insert_fresh hm_values_def hm_get_insert)

lemma get_value_simps [simp]:
  "bh_height (pr_header (get_value P e)) = e_height e"
  "bh_prev_hash (pr_header (get_value P e)) = e_tip e"
  "bh_tx_count (pr_header (get_value P e)) = len_as_u32 (take MAX_TXS (e_mempool e))"
  "bh_merkle_root (pr_header (get_value P e)) =
     merkle_root_of P (merkle_build P (map (leaf_hash P) (pr_attestations (get_value P e))))"
  "bh_gov_root (pr_header (get_value P e)) = governance_root P (pr_governance (get_value P e))"
  "pr_attestations (get_value P e) = take MAX_TXS (e_mempool e)"
  "pr_governance (get_value P e) =
     filter (\<lambda>g. is_authorized P g (e_current_set e) \<and> e_height e < vc_activation_height (svc_change g)) (e_gov_mempool e)"
  by (simp_all add: get_value_def Let_def)

section \<open>Messages\<close>

text \<open>
  A precommit for a block carries a signature of the block id alone. A peer's precommit of
  one round can therefore be relabelled with any other round of the height and is counted there
  as a vote of that validator, if the engine has none from it in that round yet.
\<close>

theorem precommit_counts_in_any_round:
  assumes "vm_vote_type vm = VPrecommit" and "vm_block_id vm = Some b" and "vote_verify_sig P vm"
    and "vm_height vm = e_height e" and "vs_contains (e_current_set e) (vm_voter vm)"
    and "hm_get (case hm_get (e_precommits e) r of None \<Rightarrow> [] | Some m \<Rightarrow> m) (vk_id P (vm_voter vm)) = None"
  shows "count_precommits (ingest_vote P (vm\<lparr>vm_round := r\<rparr>) e) r (MId b) = count_precommits e r (MId b) + 1"
  using assms count_votes_store_vote [of "e_precommits e" "vm\<lparr>vm_round := r\<rparr>" P "MId b"]
  by (simp add: ingest_vote_def vote_verify_sig_def verify_vote_def count_precommits_def)

definition duo_set :: ValidatorSet where
  "duo_set = \<lparr>set_validators = [demo_pk, VerifyingKey [2, 2]], set_threshold = 2\<rparr>"

definition duo_engine :: Engine where
  "duo_engine = the (engine_new lite_prims duo_set demo_sk demo_pk zero_hash 1)"

definition duo_precommit :: VoteMsg where
  "duo_precommit = the (vote_create lite_prims (SigningKey [2, 2]) (VerifyingKey [2, 2]) 1 0 VPrecommit (Some (Hash [7])))"

theorem precommit_counts_in_any_round_witness:
  "count_precommits (ingest_vote lite_prims (duo_precommit\<lparr>vm_round := 5\<rparr>) duo_engine) 5 (MId (Hash [7])) = 1"
proof -
  have "count_precommits (ingest_vote lite_prims (duo_precommit\<lparr>vm_round := 5\<rparr>) duo_engine) 5 (MId (Hash [7]))
      = count_precommits duo_engine 5 (MId (Hash [7])) + 1"
    by (rule precommit_counts_in_any_round; code_simp)
  moreover have "count_precommits duo_engine 5 (MId (Hash [7])) = 0" by code_simp
  ultimately show ?thesis by simp
qed

section \<open>Proposals\<close>

text \<open>
  C21: The block the engine builds from its pools is valid for its own height, tip and set exactly
  when it has content and every attestation in it verifies. Governance changes are filtered when
  the block is built; attestations are not, so one that does not verify at the head of the pool
  makes every block the engine proposes invalid.
\<close>

theorem own_value_valid_iff:
  "proposed_is_valid P (get_value P e) (e_tip e) (e_height e) (e_current_set e) \<longleftrightarrow>
     (e_mempool e \<noteq> [] \<or> pr_governance (get_value P e) \<noteq> [])
     \<and> (\<forall>a\<in>set (take MAX_TXS (e_mempool e)). attestation_verify P a)"
proof -
  have "unat (len_as_u32 (take MAX_TXS (e_mempool e))) = length (take MAX_TXS (e_mempool e))"
    by (simp add: len_as_u32_def MAX_TXS_def unsigned_of_nat take_bit_nat_eq_self_iff min_less_iff_disj)
  moreover have "take MAX_TXS (e_mempool e) = [] \<longleftrightarrow> e_mempool e = []" by (simp add: MAX_TXS_def)
  ultimately show ?thesis unfolding proposed_is_valid_iff by auto
qed

section \<open>Voting\<close>

lemma emit_prevote_vote:
  "emit_prevote P bid e = Some (e', out) \<Longrightarrow> Broadcast (Vote vm) \<in> set out \<Longrightarrow>
   vm_vote_type vm = VPrevote \<and> vm_block_id vm = bid \<and> vm_round vm = e_round e"
  by (auto simp: emit_prevote_def bind_eq_Some_conv dest: vote_create_Some)

lemma emit_precommit_vote:
  "emit_precommit P bid e = Some (e', out) \<Longrightarrow> Broadcast (Vote vm) \<in> set out \<Longrightarrow>
   vm_vote_type vm = VPrecommit \<and> vm_block_id vm = bid \<and> vm_round vm = e_round e"
  by (auto simp: emit_precommit_def bind_eq_Some_conv dest: vote_create_Some)

lemma votes_sent_mem: "Broadcast (Vote vm) \<in> set out \<longleftrightarrow> vm \<in> set (votes_sent out)"
  by (induction out rule: votes_sent.induct) auto

lemma start_round_no_vote: "start_round P r e = Some (e', out) \<Longrightarrow> Broadcast (Vote vm) \<notin> set out"
  by (simp add: votes_sent_mem votes_start_round)

lemma commit_no_vote: "commit P r bid v e = Some (e', out) \<Longrightarrow> Broadcast (Vote vm) \<notin> set out"
  by (auto elim!: commit_SomeE simp: start_round_no_vote)

lemma rule_step_prevote:
  assumes "rule_step P e e' out" and "Broadcast (Vote vm) \<in> set out"
    and "vm_vote_type vm = VPrevote" and "vm_block_id vm = Some b" and "e_locked_round e = Some lr"
  shows "locked_id P e = Some b
    \<or> (\<exists>vr. lr \<le> vr \<and> vr < e_round e \<and> e_quorum e \<le> count_prevotes e vr (MId b))"
  using assms
proof (induction rule: rule_step.induct)
  case (prevote_rule e pm bid e1 out)
  from emit_prevote_vote [OF prevote_rule(4) prevote_rule.prems(1)] prevote_rule.prems have "bid = Some b" by simp
  with prevote_rule(3) prevote_rule.prems(4) show ?case by auto
qed (auto dest: emit_prevote_vote emit_precommit_vote simp: start_round_no_vote commit_no_vote)

lemma rule_step_precommit:
  assumes "rule_step P e e' out" and "Broadcast (Vote vm) \<in> set out"
    and "vm_vote_type vm = VPrecommit" and "vm_block_id vm = Some b"
  shows "e_step e = StPrevote \<and> vm_round vm = e_round e
    \<and> e_quorum e \<le> count_prevotes e (e_round e) (MId b)
    \<and> locked_id P e' = Some b \<and> e_locked_round e' = Some (e_round e)"
  using assms
proof (induction rule: rule_step.induct)
  case (polka_lock e pm e1 out)
  from emit_precommit_vote [OF polka_lock(6) polka_lock.prems(1)] polka_lock show ?case
    by (auto simp: emit_precommit_def bind_eq_Some_conv locked_id_def)
qed (auto dest: emit_prevote_vote emit_precommit_vote simp: start_round_no_vote commit_no_vote)

text \<open>
  C15: An engine that is locked on a block prevotes another one only if it has seen a quorum of
  prevotes for it in an earlier round that is no earlier than the lock.
\<close>

theorem prevote_respects_lock:
  assumes "advance_once P e = Some (True, e', out)" and "Broadcast (Vote vm) \<in> set out"
    and "vm_vote_type vm = VPrevote" and "vm_block_id vm = Some b" and "e_locked_round e = Some lr"
  shows "locked_id P e = Some b
    \<or> (\<exists>vr. lr \<le> vr \<and> vr < e_round e \<and> e_quorum e \<le> count_prevotes e vr (MId b))"
  using rule_step_prevote [OF advance_once_step [OF assms(1)] assms(2-)] .

text \<open>
  C16: An engine precommits a block only in its prevote step, on a quorum of prevotes for it in the
  current round, and leaves the step locked on that block in that round.
\<close>

theorem precommit_needs_polka:
  assumes "advance_once P e = Some (True, e', out)" and "Broadcast (Vote vm) \<in> set out"
    and "vm_vote_type vm = VPrecommit" and "vm_block_id vm = Some b"
  shows "e_step e = StPrevote \<and> vm_round vm = e_round e
    \<and> e_quorum e \<le> count_prevotes e (e_round e) (MId b)
    \<and> locked_id P e' = Some b \<and> e_locked_round e' = Some (e_round e)"
  using rule_step_precommit [OF advance_once_step [OF assms(1)] assms(2-)] .

section \<open>Committing\<close>

lemma try_commit_loop_idle:
  assumes "try_commit_loop P cs e = Some (False, e', out)" and "(r, bid) \<in> set cs"
    and "hm_get (e_proposals e) r = Some pm"
    and "proposed_is_valid P (pm_value pm) (e_tip e) (e_height e) (e_current_set e)"
  shows "count_precommits e r (MId bid) < e_quorum e"
  using assms
  by (induction cs) (auto simp: bind_eq_Some_conv not_le split: if_splits)

lemma or_else_idle:
  "or_else f g e = Some (False, e', out) \<Longrightarrow> \<exists>e1 out1. f e = Some (False, e1, out1)"
  by (auto simp: or_else_def bind_eq_Some_conv split: if_splits)

lemma try_commit_idle:
  assumes "try_commit P e = Some (False, e1, out)" and "iter_ok P" and "hm_get (e_proposals e) r = Some pm"
    and "proposed_is_valid P (pm_value pm) (e_tip e) (e_height e) (e_current_set e)"
  shows "count_precommits e r (MId (proposed_id P (pm_value pm))) < e_quorum e"
  using assms(1) unfolding try_commit_def
proof (rule try_commit_loop_idle)
  have "r \<in> set (iter_rounds P (hm_keys (e_proposals e)))"
    using assms(2,3) mset_eq_setD [of "iter_rounds P (hm_keys (e_proposals e))" "hm_keys (e_proposals e)"]
    by (auto simp: iter_ok_def reorders_def hm_keys_get)
  then show "(r, proposed_id P (pm_value pm)) \<in> set (map (\<lambda>(r, pm). (r, proposed_id P (pm_value pm)))
      (hm_iter (iter_rounds P) (e_proposals e)))"
    using assms(3) by (force simp: hm_iter_def hm_get_def hm_keys_def)
qed (use assms in auto)

text \<open>
  C18: The rule loop never leaves a block it could commit: when it stops, every valid proposal it
  holds is short of a quorum of precommits in its round.
\<close>

theorem advance_leaves_nothing_committable:
  assumes "advance P e = Some (e', out)" and "iter_ok P" and "hm_get (e_proposals e') r = Some pm"
    and "proposed_is_valid P (pm_value pm) (e_tip e') (e_height e') (e_current_set e')"
  shows "count_precommits e' r (MId (proposed_id P (pm_value pm))) < e_quorum e'"
proof -
  from or_else_idle [OF advance_quiescent [OF assms(1), unfolded advance_once_def]]
  obtain e1 out1 where "try_commit P e' = Some (False, e1, out1)" by blast
  from try_commit_idle [OF this assms(2-)] show ?thesis .
qed

text \<open>Two validators, the first of which has an attestation in its pool.\<close>

definition duo_pending :: Engine where
  "duo_pending = duo_engine\<lparr>e_mempool := [demo_att]\<rparr>"

definition duo_value :: Proposed where
  "duo_value = get_value lite_prims duo_pending"

definition duo_proposal :: ProposalMsg where
  "duo_proposal = the (proposal_create lite_prims demo_sk demo_pk 1 1 None duo_value)"

definition duo_prevote :: "SigningKey \<Rightarrow> VerifyingKey \<Rightarrow> VoteMsg" where
  "duo_prevote sk pk = the (vote_create lite_prims sk pk 1 1 VPrevote (Some (proposed_id lite_prims duo_value)))"

definition duo_locked :: Engine where
  "duo_locked = duo_pending\<lparr>e_round := 1, e_locked_value := Some duo_value, e_locked_round := Some 0,
     e_proposals := [(1, duo_proposal)]\<rparr>"

definition duo_polka :: Engine where
  "duo_polka = duo_pending\<lparr>e_round := 1, e_step := StPrevote, e_proposals := [(1, duo_proposal)],
     e_prevote_timeout_started := {1},
     e_prevotes := [(1, [(vk_id lite_prims demo_pk, duo_prevote demo_sk demo_pk),
       (vk_id lite_prims (VerifyingKey [2, 2]), duo_prevote (SigningKey [2, 2]) (VerifyingKey [2, 2]))])]\<rparr>"

text \<open>The one vote an engine sends when its next rule fires.\<close>

definition next_vote :: "Engine \<Rightarrow> VoteMsg option" where
  "next_vote e =
     (case advance_once lite_prims e of
        Some (True, _, [Broadcast (Vote vm)]) \<Rightarrow> Some vm
      | _ \<Rightarrow> None)"

lemma next_vote_SomeE:
  assumes "next_vote e = Some vm"
  obtains e' out where "advance_once lite_prims e = Some (True, e', out)" "Broadcast (Vote vm) \<in> set out"
  using assms
  by (auto simp: next_vote_def split: option.splits bool.splits list.splits Effect.splits ConsensusMsg.splits)

lemma duo_locked_votes:
  "case next_vote duo_locked of None \<Rightarrow> False
   | Some vm \<Rightarrow> vm_vote_type vm = VPrevote \<and> vm_block_id vm = Some (proposed_id lite_prims duo_value)"
  by code_simp

lemma duo_polka_votes:
  "case next_vote duo_polka of None \<Rightarrow> False
   | Some vm \<Rightarrow> vm_vote_type vm = VPrecommit \<and> vm_block_id vm = Some (proposed_id lite_prims duo_value)"
  by code_simp

definition duo_run :: "(Engine \<Rightarrow> Effect list \<Rightarrow> bool) \<Rightarrow> bool" where
  "duo_run p = (case advance lite_prims duo_locked of None \<Rightarrow> False | Some (e', out) \<Rightarrow> p e' out)"

lemma duo_run_holds_proposal:
  "duo_run (\<lambda>e' out. case hm_get (e_proposals e') 1 of None \<Rightarrow> False
     | Some pm \<Rightarrow> proposed_is_valid lite_prims (pm_value pm) (e_tip e') (e_height e') (e_current_set e')
         \<and> count_precommits e' 1 (MId (proposed_id lite_prims (pm_value pm))) = 0)"
  by code_simp

theorem prevote_respects_lock_witness:
  "locked_id lite_prims duo_locked = Some (proposed_id lite_prims duo_value)
   \<or> (\<exists>vr. 0 \<le> vr \<and> vr < e_round duo_locked
        \<and> e_quorum duo_locked \<le> count_prevotes duo_locked vr (MId (proposed_id lite_prims duo_value)))"
proof -
  from duo_locked_votes obtain vm where nv: "next_vote duo_locked = Some vm"
    and vm: "vm_vote_type vm = VPrevote" "vm_block_id vm = Some (proposed_id lite_prims duo_value)"
    by (auto split: option.splits)
  from nv obtain e' out where "advance_once lite_prims duo_locked = Some (True, e', out)"
    "Broadcast (Vote vm) \<in> set out" by (rule next_vote_SomeE)
  moreover have "e_locked_round duo_locked = Some 0" by (simp add: duo_locked_def)
  ultimately show ?thesis using vm by (intro prevote_respects_lock)
qed

theorem precommit_needs_polka_witness:
  "\<exists>e'. e_step duo_polka = StPrevote
     \<and> e_quorum duo_polka \<le> count_prevotes duo_polka (e_round duo_polka) (MId (proposed_id lite_prims duo_value))
     \<and> locked_id lite_prims e' = Some (proposed_id lite_prims duo_value) \<and> e_locked_round e' = Some 1"
proof -
  from duo_polka_votes obtain vm where nv: "next_vote duo_polka = Some vm"
    and vm: "vm_vote_type vm = VPrecommit" "vm_block_id vm = Some (proposed_id lite_prims duo_value)"
    by (auto split: option.splits)
  from nv obtain e' out where "advance_once lite_prims duo_polka = Some (True, e', out)"
    "Broadcast (Vote vm) \<in> set out" by (rule next_vote_SomeE)
  from precommit_needs_polka [OF this vm] have "e_step duo_polka = StPrevote
     \<and> e_quorum duo_polka \<le> count_prevotes duo_polka (e_round duo_polka) (MId (proposed_id lite_prims duo_value))
     \<and> locked_id lite_prims e' = Some (proposed_id lite_prims duo_value) \<and> e_locked_round e' = Some (e_round duo_polka)"
    by blast
  moreover have "e_round duo_polka = 1" by (simp add: duo_polka_def)
  ultimately show ?thesis by auto
qed

theorem advance_leaves_nothing_committable_witness:
  "\<exists>e' pm. hm_get (e_proposals e') 1 = Some pm
     \<and> count_precommits e' 1 (MId (proposed_id lite_prims (pm_value pm))) < e_quorum e'"
proof -
  from duo_run_holds_proposal obtain e' out pm where "advance lite_prims duo_locked = Some (e', out)"
    and pm: "hm_get (e_proposals e') 1 = Some pm"
    and "proposed_is_valid lite_prims (pm_value pm) (e_tip e') (e_height e') (e_current_set e')"
    by (auto simp: duo_run_def simp del: split_paired_Ex split: option.splits)
  then have "count_precommits e' 1 (MId (proposed_id lite_prims (pm_value pm))) < e_quorum e'"
    by (intro advance_leaves_nothing_committable [where e = duo_locked and r = 1]) simp_all
  with pm show ?thesis by blast
qed

section \<open>What is submitted\<close>

text \<open>Nothing leaves a pool of the engine unless a block that holds it is committed.\<close>

definition pools_kept :: "prims \<Rightarrow> Engine \<Rightarrow> Engine \<Rightarrow> Effect list \<Rightarrow> bool" where
  "pools_kept P e e' out \<longleftrightarrow>
     (\<forall>a\<in>set (e_mempool e). a \<in> set (e_mempool e')
        \<or> (\<exists>b\<in>set (committed_blocks out). leaf_hash P a \<in> leaf_hash P ` set (blk_attestations b)))
     \<and> (\<forall>g\<in>set (e_gov_mempool e). g \<in> set (e_gov_mempool e')
        \<or> (\<exists>b\<in>set (committed_blocks out). commitment P g \<in> commitment P ` set (blk_governance b)))"

lemma pools_kept_same:
  "e_mempool e' = e_mempool e \<Longrightarrow> e_gov_mempool e' = e_gov_mempool e \<Longrightarrow> pools_kept P e e' out"
  by (simp add: pools_kept_def)

lemma pools_kept_trans: "pools_kept P e e1 out1 \<Longrightarrow> pools_kept P e1 e2 out2 \<Longrightarrow> pools_kept P e e2 (out1 @ out2)"
  unfolding pools_kept_def committed_blocks_append set_append by blast

lemma pools_kept_start_round: "start_round P r e = Some (e', out) \<Longrightarrow> pools_kept P e e' out"
  by (drule start_round_frame) (auto intro: pools_kept_same)

lemma pools_kept_unpark: "unpark P e = Some (e', out) \<Longrightarrow> pools_kept P e e' out"
  by (auto simp: unpark_def intro: pools_kept_same split: if_splits dest!: enter_propose_frame)

lemma pools_kept_emit:
  "emit_prevote P bid e = Some (e', out) \<Longrightarrow> e_mempool e' = e_mempool e \<and> e_gov_mempool e' = e_gov_mempool e"
  "emit_precommit P bid e = Some (e', out) \<Longrightarrow> e_mempool e' = e_mempool e \<and> e_gov_mempool e' = e_gov_mempool e"
  by (auto simp: emit_prevote_def emit_precommit_def bind_eq_Some_conv)

lemma pools_kept_commit:
  assumes "commit P r bid v e = Some (e', out)"
  shows "pools_kept P e e' out"
  using assms
proof (cases rule: commit_SomeE)
  case (1 s out')
  from start_round_frame [OF 1(2)] have
    "e_mempool e' = e_mempool (rolled P v bid s e)" "e_gov_mempool e' = e_gov_mempool (rolled P v bid s e)"
    by auto
  then show ?thesis by (auto simp: pools_kept_def rolled_def reset_height_state_def 1(3))
qed

lemma pools_kept_rule: "rule_step P e e' out \<Longrightarrow> pools_kept P e e' out"
proof (induction rule: rule_step.induct)
  case (commit_rule e r pm e' out)
  then show ?case by (intro pools_kept_commit)
next
  case (skip_rule e r e' out)
  then show ?case by (intro pools_kept_start_round)
qed (auto intro!: pools_kept_same dest: pools_kept_emit)

lemma pools_kept_sync:
  "apply_synced_block P b e = Some (Inr e') \<Longrightarrow> pools_kept P e e' [Committed b]"
  by (auto simp: pools_kept_def apply_synced_block_def reload_set_def reset_height_state_def bind_eq_Some_conv
      Let_def split: if_splits sum.splits)

lemma pools_kept_ingest: "ingest P msg e = Some e' \<Longrightarrow> pools_kept P e e' out"
  by (cases msg)
    (auto simp: ingest_def ingest_vote_def split: VoteType.splits elim!: ingest_proposal_cases intro: pools_kept_same)

lemma pools_kept_timeout: "timeout_action P kind e = Some (e', out) \<Longrightarrow> pools_kept P e e' out"
  by (cases kind)
    (auto simp: timeout_action_def bind_eq_Some_conv pools_kept_emit split: if_splits
      intro: pools_kept_start_round pools_kept_same)

lemma pools_kept_step: "engine_step P e e' out \<Longrightarrow> pools_kept P e e' out"
proof (induction rule: fed_step.induct)
  case (by_attestation e att)
  then show ?case by (simp add: pools_kept_def)
next
  case (by_governance g e)
  then show ?case by (simp add: pools_kept_def)
next
  case (by_clock e now)
  then show ?case by (simp add: pools_kept_def set_time_def)
qed (auto intro: pools_kept_rule pools_kept_start_round pools_kept_unpark pools_kept_timeout
    pools_kept_ingest pools_kept_sync)

lemma pools_kept_steps: "engine_steps P e e' out \<Longrightarrow> pools_kept P e e' out"
proof (induction rule: fed_steps.induct)
  case (idle e)
  then show ?case by (simp add: pools_kept_def)
next
  case (more e e1 out1 e2 out2)
  then show ?case by (blast intro: pools_kept_trans pools_kept_step)
qed

lemma add_attestation_pool:
  assumes "add_attestation P att e = Some (e', out)"
  shows "pools_kept P (e\<lparr>e_mempool := e_mempool e @ [att]\<rparr>) e' out"
proof (cases "e_parked e")
  case True
  with assms have "then_advance P (unpark P (e\<lparr>e_mempool := e_mempool e @ [att]\<rparr>)) = Some (e', out)"
    by (simp add: add_attestation_def)
  then have "engine_steps P (e\<lparr>e_mempool := e_mempool e @ [att]\<rparr>) e' out"
    by (rule then_advance_steps) (auto intro: fed_steps_single fed_step.by_unpark)
  then show ?thesis by (rule pools_kept_steps)
next
  case False
  with assms show ?thesis by (auto simp: add_attestation_def pools_kept_def)
qed

lemma add_governance_pool:
  assumes "add_governance P g e = Some (True, e', out)"
  shows "pools_kept P (e\<lparr>e_gov_mempool := e_gov_mempool e @ [g]\<rparr>) e' out"
proof (cases "e_parked e")
  case True
  with assms have "then_advance P (unpark P (e\<lparr>e_gov_mempool := e_gov_mempool e @ [g]\<rparr>)) = Some (e', out)"
    by (auto simp: add_governance_def bind_eq_Some_conv Let_def split: if_splits)
  then have "engine_steps P (e\<lparr>e_gov_mempool := e_gov_mempool e @ [g]\<rparr>) e' out"
    by (rule then_advance_steps) (auto intro: fed_steps_single fed_step.by_unpark)
  then show ?thesis by (rule pools_kept_steps)
next
  case False
  with assms show ?thesis by (auto simp: add_governance_def pools_kept_def Let_def split: if_splits)
qed

text \<open>
  C19: A submitted attestation is never lost while the engine runs: after any further steps
  (messages, timeouts, commits, adopted blocks) it is still in the pool, or a block with its leaf
  has been committed.
\<close>

theorem attestation_kept_or_sealed:
  assumes "add_attestation P att e = Some (e1, out1)" and "engine_steps P e1 e2 out2"
  shows "att \<in> set (e_mempool e2)
    \<or> (\<exists>b\<in>set (committed_blocks (out1 @ out2)). leaf_hash P att \<in> leaf_hash P ` set (blk_attestations b))"
  using pools_kept_trans [OF add_attestation_pool [OF assms(1)] pools_kept_steps [OF assms(2)]]
  by (simp add: pools_kept_def)

text \<open>
  C20: A governance change is admitted exactly when the current set has authorized it, its
  activation is in the future and it is not queued already. A rejected change leaves no trace; an
  admitted one stays queued until a committed block carries it.
\<close>

theorem governance_admission:
  assumes "add_governance P g e = Some (ok, e1, out1)" and "engine_steps P e1 e2 out2"
  shows "(ok \<longleftrightarrow> is_authorized P g (e_current_set e) \<and> e_height e < vc_activation_height (svc_change g)
            \<and> commitment P g \<notin> commitment P ` set (e_gov_mempool e))
    \<and> (if ok then g \<in> set (e_gov_mempool e2)
          \<or> (\<exists>b\<in>set (committed_blocks (out1 @ out2)). commitment P g \<in> commitment P ` set (blk_governance b))
       else e1 = e \<and> out1 = [])"
proof -
  have ok: "ok \<longleftrightarrow> governance_acceptable P g e"
    and no: "\<not> ok \<Longrightarrow> e1 = e \<and> out1 = []"
    using assms(1) by (auto simp: add_governance_def bind_eq_Some_conv Let_def split: if_splits)
  have acc: "governance_acceptable P g e \<longleftrightarrow> is_authorized P g (e_current_set e)
      \<and> e_height e < vc_activation_height (svc_change g) \<and> commitment P g \<notin> commitment P ` set (e_gov_mempool e)"
    unfolding governance_acceptable_def list_ex_iff by (metis image_iff)
  have "ok \<Longrightarrow> pools_kept P (e\<lparr>e_gov_mempool := e_gov_mempool e @ [g]\<rparr>) e2 (out1 @ out2)"
    using assms pools_kept_trans [OF add_governance_pool pools_kept_steps] by simp
  then have "ok \<Longrightarrow> g \<in> set (e_gov_mempool e2)
      \<or> (\<exists>b\<in>set (committed_blocks (out1 @ out2)). commitment P g \<in> commitment P ` set (blk_governance b))"
    by (simp add: pools_kept_def)
  with ok no show ?thesis unfolding acc by simp
qed

section \<open>Adopted blocks\<close>

text \<open>
  C13: Every state the engine reaches from its construction, by any interleaving of messages,
  timeouts, submissions, clock updates and adopted blocks, satisfies the invariant: the roster is the
  registry's set at the height, every stored vote is correctly signed by a member (or by the node
  itself) for the round it is filed under, every stored proposal is from the round's proposer, and
  the locked and valid values are valid blocks locked no later than the current round.
\<close>

theorem reachable_engine_inv:
  assumes "engine_with_registry P reg sk pk tip h = Some e0" and "mldsa_correct P sk pk"
    and "engine_steps P e0 e out"
  shows "engine_inv P e"
  using engine_inv_steps [OF assms(3) engine_inv_with_registry [OF assms(1,2)]] .

text \<open>
  C14: What an engine broadcasts is acceptable to its peers. Every message a validator sends, in whatever
  way it got there, belongs to a point of its chain, and every engine at that point of the chain
  accepts it: it does not panic on it and files the vote or the proposal under the round and the
  voter it names, whatever else it holds.
\<close>

theorem broadcasts_accepted:
  assumes "engine_steps P e e' out" and "engine_inv P e"
    and "never_removed (e_me_pk e) (e_registry e)" and "\<forall>b\<in>set (committed_blocks out). block_keeps (e_me_pk e) b"
    and "Broadcast msg \<in> set out"
  shows "\<exists>i\<le>length (committed_blocks out). \<forall>p. engine_inv P p
      \<and> chain_of p = foldl (chain_step P) (chain_of e) (take i (committed_blocks out))
      \<longrightarrow> (\<exists>p'. ingest P msg p = Some p' \<and> filed P msg p')"
proof -
  from engine_steps_wf [OF assms] obtain i where i: "i \<le> length (committed_blocks out)"
    and "msg_wf P (foldl (chain_step P) (chain_of e) (take i (committed_blocks out))) msg" by blast
  then have "\<exists>p'. ingest P msg p = Some p' \<and> filed P msg p'"
    if "engine_inv P p \<and> chain_of p = foldl (chain_step P) (chain_of e) (take i (committed_blocks out))" for p
    using that msg_wf_filed [of P p msg] by simp
  with i show ?thesis by blast
qed

text \<open>
  C12: Adopting a block from a peer follows the abstract chain: the block is taken exactly when the
  chain accepts it (height, previous hash, contents, governance, certificate by the set in force) and
  the engine's registry, tip and height become those of the extended chain; a refused block changes
  nothing; the only other outcome is the panic on a block that leaves no validator.
\<close>

theorem synced_block_refines_chain:
  assumes "engine_inv P e"
  shows "case apply_synced_block P b e of
      None \<Rightarrow> block_accepted P (chain_of e) b
        \<and> active_keys (record_governance (blk_governance b) (e_registry e)) (e_height e + 1) = []
    | Some (Inl err) \<Rightarrow> \<not> block_accepted P (chain_of e) b
    | Some (Inr e') \<Rightarrow> block_accepted P (chain_of e) b
        \<and> chain_of e' = chain_step P (chain_of e) b \<and> engine_inv P e'"
proof -
  have set_at: "active_set (e_registry e) (e_height e) = Some (e_current_set e)"
    using assms by (simp add: engine_inv_def roster_ok_def)
  show ?thesis
  proof (cases "apply_synced_block P b e")
    case None
    with set_at show ?thesis
      by (auto simp: apply_synced_block_def reload_set_def Let_def chain_of_def active_set_def bft_None_iff
          bind_eq_None_conv split: if_splits sum.splits)
  next
    case (Some r)
    show ?thesis
    proof (cases r)
      case (Inl err)
      with Some set_at show ?thesis
        by (auto simp: apply_synced_block_def chain_of_def Let_def proposed_is_valid_iff block_value_def
            bind_eq_Some_conv split: if_splits sum.splits)
    next
      case (Inr e')
      with Some synced_chain [of P b e e'] assms engine_inv_step [OF fed_step.by_sync [of P b e e']]
      show ?thesis by simp
    qed
  qed
qed

text \<open>A started single-validator engine, waiting for something to propose.\<close>

definition one_set :: ValidatorSet where
  "one_set = \<lparr>set_validators = [demo_pk], set_threshold = 1\<rparr>"

definition started :: "SigningKey \<Rightarrow> VerifyingKey \<Rightarrow> Engine option" where
  "started sk pk =
     do {
       e \<leftarrow> engine_new lite_prims one_set sk pk zero_hash 1;
       (e', out) \<leftarrow> start lite_prims e;
       Some e'
     }"

definition solo_engine :: Engine where
  "solo_engine = the (started demo_sk demo_pk)"

definition demo_change :: "VerifyingKey list \<Rightarrow> VerifyingKey list \<Rightarrow> u64 \<Rightarrow> SignedValidatorChange" where
  "demo_change adds removes h =
     (let c = \<lparr>vc_adds = adds, vc_removes = removes, vc_activation_height = h\<rparr> in
      \<lparr>svc_change = c, svc_approvals = [\<lparr>vs_validator = demo_pk,
         vs_signature = Signature ([1] @ ctx_GOVERNANCE @ change_signing_bytes c)\<rparr>]\<rparr>)"

definition follower_blocks :: "SlcBlock list option" where
  "follower_blocks =
     do {
       e \<leftarrow> started (SigningKey [2, 2]) (VerifyingKey [2, 2]);
       pm \<leftarrow> proposal_create lite_prims demo_sk demo_pk 1 0 None (get_value lite_prims (e\<lparr>e_mempool := [demo_att]\<rparr>));
       (e', out) \<leftarrow> on_message lite_prims (Proposal pm) e;
       Some (committed_blocks out)
     }"

text \<open>
  A node that is not in the set counts its own votes. In a chain with one validator, a follower
  that receives the validator's proposal commits the block on its own precommit alone, and the
  certificate it stores does not verify.
\<close>

theorem follower_commits_without_quorum:
  "map_option (map (\<lambda>b. (length (qc_signatures (blk_qc b)), qc_verify lite_prims (blk_qc b) (blk_header b) one_set)))
     follower_blocks = Some [(1, Inl (InsufficientQuorum 0 1))]"
  by code_simp

text \<open>
  A change that removes every validator passes all checks when it is submitted, and the engine
  panics when it takes effect: no operation refuses an empty roster before it is installed.
\<close>

theorem removing_every_validator_panics:
  "governance_acceptable lite_prims (demo_change [] [demo_pk] 2) solo_engine
   \<and> add_governance lite_prims (demo_change [] [demo_pk] 2) solo_engine = None"
  by code_simp

lemma duo_add_attestation:
  "add_attestation lite_prims demo_att duo_engine = Some (duo_pending, [])"
  by code_simp

lemma solo_add_governance:
  "case add_governance lite_prims (demo_change [VerifyingKey [2, 2]] [] 5) solo_engine of
     None \<Rightarrow> False | Some (ok, e1, out1) \<Rightarrow> ok \<and> length (committed_blocks out1) = 1"
  by code_simp

theorem own_value_valid_iff_witness:
  "proposed_is_valid lite_prims (get_value lite_prims duo_pending) (e_tip duo_pending) (e_height duo_pending)
     (e_current_set duo_pending)"
proof -
  have pool: "e_mempool duo_pending = [demo_att]" by (simp add: duo_pending_def)
  have "attestation_verify lite_prims demo_att" by code_simp
  with pool show ?thesis unfolding own_value_valid_iff by (simp add: MAX_TXS_def)
qed

theorem attestation_kept_or_sealed_witness:
  "demo_att \<in> set (e_mempool (set_time 7 duo_pending))
   \<or> (\<exists>b\<in>set (committed_blocks ([] @ [])). leaf_hash lite_prims demo_att \<in> leaf_hash lite_prims ` set (blk_attestations b))"
  by (rule attestation_kept_or_sealed [OF duo_add_attestation set_time_steps])

theorem governance_admission_witness:
  "\<exists>e1 out1. add_governance lite_prims (demo_change [VerifyingKey [2, 2]] [] 5) solo_engine = Some (True, e1, out1)
     \<and> (demo_change [VerifyingKey [2, 2]] [] 5 \<in> set (e_gov_mempool e1)
        \<or> (\<exists>b\<in>set (committed_blocks (out1 @ [])).
             commitment lite_prims (demo_change [VerifyingKey [2, 2]] [] 5) \<in> commitment lite_prims ` set (blk_governance b)))"
proof -
  from solo_add_governance obtain e1 out1
    where add: "add_governance lite_prims (demo_change [VerifyingKey [2, 2]] [] 5) solo_engine = Some (True, e1, out1)"
    by (auto split: option.splits prod.splits)
  from governance_admission [OF add fed_steps.idle] add show ?thesis by auto
qed

lemma duo_fresh:
  "engine_with_registry lite_prims (registry_new [demo_pk, VerifyingKey [2, 2]]) demo_sk demo_pk zero_hash 1
     = Some duo_engine"
  by code_simp

theorem reachable_engine_inv_witness: "engine_inv lite_prims duo_pending"
  using duo_fresh demo_keys add_attestation_steps [OF duo_add_attestation] by (rule reachable_engine_inv)

definition duo_peer :: Engine where
  "duo_peer = the (engine_new lite_prims duo_set (SigningKey [2, 2]) (VerifyingKey [2, 2]) zero_hash 1)"

lemma duo_peer_fresh:
  "engine_with_registry lite_prims (registry_new [demo_pk, VerifyingKey [2, 2]]) (SigningKey [2, 2]) (VerifyingKey [2, 2]) zero_hash 1
     = Some duo_peer"
  by code_simp

fun nil_vote :: "Effect \<Rightarrow> bool" where
  "nil_vote (Broadcast (Vote vm)) \<longleftrightarrow> vm_block_id vm = None"
| "nil_vote _ \<longleftrightarrow> False"

lemma duo_times_out:
  "map_option (map nil_vote \<circ> snd) (on_timeout lite_prims 1 0 ToPropose duo_engine) = Some [True]"
  by code_simp

theorem broadcasts_accepted_witness:
  "\<exists>vm p'. vm_block_id vm = None \<and> ingest lite_prims (Vote vm) duo_peer = Some p' \<and> filed lite_prims (Vote vm) p'"
proof -
  from duo_times_out obtain e' ef where t: "on_timeout lite_prims 1 0 ToPropose duo_engine = Some (e', [ef])"
    and "nil_vote ef" by (auto simp: map_eq_Cons_conv)
  then obtain vm where ef: "ef = Broadcast (Vote vm)" and vm: "vm_block_id vm = None"
    by (cases ef rule: nil_vote.cases) auto
  have inv: "engine_inv lite_prims duo_engine" "engine_inv lite_prims duo_peer"
    by (rule engine_inv_with_registry [OF duo_fresh], simp, rule engine_inv_with_registry [OF duo_peer_fresh], simp)
  have "chain_of duo_peer = chain_of duo_engine" "never_removed (e_me_pk duo_engine) (e_registry duo_engine)"
    by code_simp+
  with broadcasts_accepted [OF on_timeout_steps [OF t] inv(1), of "Vote vm"] inv(2) vm ef show ?thesis
    by auto
qed

definition demo_block :: SlcBlock where
  "demo_block =
     (let v = get_value lite_prims (solo_engine\<lparr>e_mempool := [demo_att]\<rparr>) in
      \<lparr>blk_header = pr_header v, blk_attestations = pr_attestations v, blk_governance = pr_governance v,
       blk_qc = \<lparr>qc_block_id = proposed_id lite_prims v,
         qc_signatures = [\<lparr>vs_validator = demo_pk,
           vs_signature = Signature ([1] @ ctx_BLOCK @ as_bytes (proposed_id lite_prims v))\<rparr>]\<rparr>\<rparr>)"

lemma solo_fresh:
  "case engine_new lite_prims one_set demo_sk demo_pk zero_hash 1 of None \<Rightarrow> False
   | Some e \<Rightarrow> (case apply_synced_block lite_prims demo_block e of
       Some (Inr e') \<Rightarrow> e_height e' = 2 | _ \<Rightarrow> False)"
  by code_simp

theorem synced_block_refines_chain_witness:
  "\<exists>e e'. apply_synced_block lite_prims demo_block e = Some (Inr e') \<and> e_height e' = 2
     \<and> block_accepted lite_prims (chain_of e) demo_block
     \<and> chain_of e' = chain_step lite_prims (chain_of e) demo_block \<and> engine_inv lite_prims e'"
proof -
  from solo_fresh obtain e e' where e: "engine_new lite_prims one_set demo_sk demo_pk zero_hash 1 = Some e"
    and sync: "apply_synced_block lite_prims demo_block e = Some (Inr e')" "e_height e' = 2"
    by (auto split: option.splits sum.splits)
  from e have "engine_inv lite_prims e" unfolding engine_new_def by (rule engine_inv_with_registry) simp
  from synced_block_refines_chain [OF this, of demo_block] sync show ?thesis by auto
qed

section \<open>Proposer rotation\<close>

text \<open>
  Over as many consecutive rounds as there are validators, the designated proposers are the
  sorted roster itself, rotated: every validator is the proposer exactly once, as long as height and
  round do not run off the end of 64 bits.
\<close>

theorem proposers_rotate:
  assumes "unat (e_height e) + unat r + e_n e \<le> 2 ^ 64"
  shows "map (\<lambda>i. proposer e (r + of_nat i)) [0..<e_n e]
    = map Some (rotate (unat (e_height e) + unat r) (e_validators_sorted e))"
proof (rule nth_equalityI)
  fix i
  assume "i < length (map (\<lambda>i. proposer e (r + of_nat i)) [0..<e_n e])"
  then have i: "i < e_n e" by simp
  have "unat (e_height e + (r + of_nat i)) = unat (e_height e) + unat r + i"
  proof -
    have "e_height e + (r + of_nat i) = of_nat (unat (e_height e) + unat r + i)" by simp
    also have "unat \<dots> = unat (e_height e) + unat r + i"
      using assms i by (subst unsigned_of_nat) (simp add: take_bit_nat_eq_self_iff)
    finally show ?thesis .
  qed
  with i show "map (\<lambda>i. proposer e (r + of_nat i)) [0..<e_n e] ! i
      = map Some (rotate (unat (e_height e) + unat r) (e_validators_sorted e)) ! i"
    by (cases "e_validators_sorted e = []") (simp_all add: proposer_def nth_rotate e_n_def)
qed (simp add: e_n_def)

theorem proposers_rotate_witness:
  "map (\<lambda>i. proposer duo_engine (0 + of_nat i)) [0..<2]
     = map Some (rotate 1 [demo_pk, VerifyingKey [2, 2]])"
proof -
  have facts: "e_n duo_engine = 2" "e_height duo_engine = 1"
    "e_validators_sorted duo_engine = [demo_pk, VerifyingKey [2, 2]]" by code_simp+
  from proposers_rotate [of duo_engine 0] facts show ?thesis by simp
qed

end
