(* ===== verification/Timely.thy ===== *)
theory Timely
  imports Consensus_Props Node_Total
begin

text \<open>
  A round in which nothing stands in the way: one proposal, votes for it only, and no timer fires. What
  an engine has heard and said determines how far it has come; when nothing is in flight any more,
  every engine has committed.
\<close>

section \<open>Inputs of an engine\<close>

datatype Intake = Submitted Attestation | Heard ConsensusMsg

definition engine_feed :: "prims \<Rightarrow> Intake \<Rightarrow> Engine \<Rightarrow> (Engine \<times> Effect list) option" where
  "engine_feed P x e = (case x of Submitted att \<Rightarrow> add_attestation P att e | Heard msg \<Rightarrow> on_message P msg e)"

fun engine_feeds :: "prims \<Rightarrow> Intake list \<Rightarrow> Engine \<Rightarrow> (Engine \<times> Effect list) option" where
  "engine_feeds P [] e = Some (e, [])"
| "engine_feeds P (x # xs) e =
     do { (e1, out1) \<leftarrow> engine_feed P x e; (e2, out2) \<leftarrow> engine_feeds P xs e1; Some (e2, out1 @ out2) }"

definition heard :: "Intake list \<Rightarrow> ConsensusMsg set" where
  "heard xs = {msg. Heard msg \<in> set xs}"

definition said :: "Effect list \<Rightarrow> ConsensusMsg set" where
  "said out = {msg. Broadcast msg \<in> set out}"

lemma heard_simps [simp]:
  "heard [] = {}" "heard (Heard m # xs) = insert m (heard xs)" "heard (Submitted a # xs) = heard xs"
  by (auto simp: heard_def)

lemma said_simps [simp]:
  "said [] = {}" "said (xs @ ys) = said xs \<union> said ys" "said (Broadcast m # xs) = insert m (said xs)"
  "said (ScheduleTimeout h r k # xs) = said xs" "said (Committed b # xs) = said xs"
  by (auto simp: said_def)

section \<open>An undisturbed round\<close>

definition msg_height :: "ConsensusMsg \<Rightarrow> u64" where
  "msg_height msg = (case msg of Proposal pm \<Rightarrow> pm_height pm | Vote vm \<Rightarrow> vm_height vm)"

text \<open>Messages that do not disturb the round of the proposal \<open>pm\<close>: what is said of its height is the
  proposal itself and votes for its block in its round.\<close>

definition undisturbing :: "prims \<Rightarrow> ProposalMsg \<Rightarrow> ConsensusMsg \<Rightarrow> bool" where
  "undisturbing P pm msg \<longleftrightarrow> msg_height msg = pm_height pm \<longrightarrow> (case msg of
     Proposal q \<Rightarrow> q = pm
   | Vote vm \<Rightarrow> vm_round vm = pm_round pm \<and> vm_block_id vm = Some (proposed_id P (pm_value pm)))"

definition round_vote :: "prims \<Rightarrow> ProposalMsg \<Rightarrow> ValidatorSet \<Rightarrow> VoteType \<Rightarrow> VoteMsg \<Rightarrow> bool" where
  "round_vote P pm s vt vm \<longleftrightarrow> vm_vote_type vm = vt \<and> vm_height vm = pm_height pm \<and> vm_round vm = pm_round pm
     \<and> vm_block_id vm = Some (proposed_id P (pm_value pm)) \<and> vs_contains s (vm_voter vm) \<and> vote_verify_sig P vm"

text \<open>A store holds what was heard or said of the round, and has an entry for every vote heard.\<close>

definition store_track ::
  "prims \<Rightarrow> ProposalMsg \<Rightarrow> ValidatorSet \<Rightarrow> ConsensusMsg set \<Rightarrow> ConsensusMsg set \<Rightarrow> VoteType \<Rightarrow> vote_store \<Rightarrow> bool" where
  "store_track P pm s S K vt store \<longleftrightarrow>
     (\<forall>r m. hm_get store r = Some m \<longrightarrow> r = pm_round pm \<and> hm_wf m
        \<and> (\<forall>k vm. hm_get m k = Some vm \<longrightarrow> round_vote P pm s vt vm \<and> k = vk_id P (vm_voter vm) \<and> Vote vm \<in> K))
     \<and> (\<forall>vm. Vote vm \<in> S \<longrightarrow> round_vote P pm s vt vm \<longrightarrow> vk_id P (vm_voter vm) \<in> store_ids store (pm_round pm))"

definition voted :: "prims \<Rightarrow> ProposalMsg \<Rightarrow> ValidatorSet \<Rightarrow> ConsensusMsg set \<Rightarrow> VoteType \<Rightarrow> VerifyingKey \<Rightarrow> bool" where
  "voted P pm s K vt v \<longleftrightarrow> (\<exists>vm. Vote vm \<in> K \<and> round_vote P pm s vt vm \<and> vm_voter vm = v)"

definition sole_proposal :: "ProposalMsg \<Rightarrow> (u64, ProposalMsg) hashmap \<Rightarrow> bool" where
  "sole_proposal pm props \<longleftrightarrow> (\<forall>r q. hm_get props r = Some q \<longrightarrow> r = pm_round pm \<and> q = pm)"

definition framed :: "prims \<Rightarrow> ProposalMsg \<Rightarrow> ValidatorSet \<Rightarrow> ConsensusMsg set \<Rightarrow> Engine \<Rightarrow> bool" where
  "framed P pm s S e \<longleftrightarrow>
     e_height e = pm_height pm \<and> e_round e = pm_round pm \<and> e_current_set e = s
     \<and> proposed_is_valid P (pm_value pm) (e_tip e) (pm_height pm) s
     \<and> mldsa_correct P (e_me_sk e) (e_me_pk e) \<and> vs_contains s (e_me_pk e)
     \<and> proposer e (pm_round pm) = Some (pm_proposer pm)
     \<and> (e_parked e \<longrightarrow> e_me_pk e \<noteq> pm_proposer pm)
     \<and> (e_locked_round e = None \<or> locked_id P e = Some (proposed_id P (pm_value pm)))
     \<and> sole_proposal pm (e_proposals e)
     \<and> (Proposal pm \<in> S \<longrightarrow> hm_get (e_proposals e) (pm_round pm) = Some pm)"

definition in_round ::
  "prims \<Rightarrow> ProposalMsg \<Rightarrow> ValidatorSet \<Rightarrow> ConsensusMsg set \<Rightarrow> ConsensusMsg set \<Rightarrow> Engine \<Rightarrow> bool" where
  "in_round P pm s S B e \<longleftrightarrow> framed P pm s S e
     \<and> store_track P pm s S (S \<union> B) VPrevote (e_prevotes e)
     \<and> store_track P pm s S (S \<union> B) VPrecommit (e_precommits e)
     \<and> (e_step e \<noteq> StPropose \<longrightarrow> voted P pm s B VPrevote (e_me_pk e))
     \<and> (e_step e = StPrecommit \<longrightarrow> voted P pm s B VPrecommit (e_me_pk e))
     \<and> (pm_round pm \<in> e_polka_applied e \<longrightarrow> e_step e = StPrecommit)"

definition certified :: "prims \<Rightarrow> ProposalMsg \<Rightarrow> ValidatorSet \<Rightarrow> ConsensusMsg set \<Rightarrow> bool" where
  "certified P pm s K \<longleftrightarrow> (\<exists>W. finite W \<and> set_threshold s \<le> card W
     \<and> (\<forall>k\<in>W. \<exists>vm. Vote vm \<in> K \<and> round_vote P pm s VPrecommit vm \<and> vk_id P (vm_voter vm) = k))"

text \<open>Until its first commit the engine is in the round; the first commit is of the proposal.\<close>

definition on_track ::
  "prims \<Rightarrow> ProposalMsg \<Rightarrow> ValidatorSet \<Rightarrow> ConsensusMsg set \<Rightarrow> Effect list \<Rightarrow> Engine \<Rightarrow> bool" where
  "on_track P pm s S out e \<longleftrightarrow>
     (case committed_blocks out of
        [] \<Rightarrow> in_round P pm s S (said out) e
      | b # _ \<Rightarrow> block_value b = pm_value pm \<and> certified P pm s (S \<union> said out))"

section \<open>Stores\<close>

lemma store_track_mono: "store_track P pm s S K vt st \<Longrightarrow> K \<subseteq> K' \<Longrightarrow> store_track P pm s S K' vt st"
  unfolding store_track_def by blast

lemma store_ids_insert: "store_ids (hm_insert r m st) r' = (if r' = r then set (hm_keys m) else store_ids st r')"
  by (simp add: store_ids_def)

lemma store_track_slot:
  assumes "store_track P pm s S K vt st"
  shows "hm_wf (case hm_get st r of None \<Rightarrow> [] | Some m \<Rightarrow> m)"
    and "hm_get (case hm_get st r of None \<Rightarrow> [] | Some m \<Rightarrow> m) k = Some vm \<Longrightarrow>
      round_vote P pm s vt vm \<and> k = vk_id P (vm_voter vm) \<and> Vote vm \<in> K"
    and "set (hm_keys (case hm_get st r of None \<Rightarrow> [] | Some m \<Rightarrow> m)) = store_ids st r"
  using assms by (auto simp: store_track_def store_ids_def hm_keys_def split: option.splits)

lemma store_track_put:
  assumes "store_track P pm s S K vt st" and "hm_wf m"
    and "\<And>k vm. hm_get m k = Some vm \<Longrightarrow> round_vote P pm s vt vm \<and> k = vk_id P (vm_voter vm) \<and> Vote vm \<in> K"
    and "store_ids st (pm_round pm) \<subseteq> set (hm_keys m)"
  shows "store_track P pm s S K vt (hm_insert (pm_round pm) m st)"
  using assms unfolding store_track_def store_ids_insert by (auto split: if_splits)

lemma store_track_own:
  assumes "store_track P pm s S K vt st" and "round_vote P pm s vt vm" and "vm_voter vm = e_me_pk e"
    and "e_round e = pm_round pm" and "Vote vm \<in> K"
  shows "store_track P pm s S K vt (store_own_vote P e vm st)"
  unfolding store_own_vote_def assms(4) using assms
  by (intro store_track_put)
    (auto simp: store_track_slot(1) store_track_slot(3) dest: store_track_slot(2) split: if_splits)

lemma store_track_hear:
  assumes "store_track P pm s S K vt st" and "round_vote P pm s vt vm" and "Vote vm \<in> K"
  shows "store_track P pm s (insert (Vote vm) S) K vt (store_vote P vm st)"
proof -
  let ?m = "case hm_get st (pm_round pm) of None \<Rightarrow> [] | Some m \<Rightarrow> m"
  have r: "vm_round vm = pm_round pm" using assms(2) by (simp add: round_vote_def)
  have keys: "set (hm_keys (hm_or_insert k vm ?m)) = insert k (store_ids st (pm_round pm))" for k
    using store_track_slot(3) [OF assms(1)] hm_keys_get [of _ "hm_or_insert k vm ?m"] hm_keys_get [of _ ?m]
    by (auto simp: hm_get_or_insert set_eq_iff split: if_splits)
  have "store_track P pm s S K vt (store_vote P vm st)"
    unfolding store_vote_def r using assms keys
    by (intro store_track_put)
      (auto simp: store_track_slot(1) hm_get_or_insert dest: store_track_slot(2) split: if_splits)
  moreover have "vk_id P (vm_voter vm) \<in> store_ids (store_vote P vm st) (pm_round pm)"
    by (simp add: store_vote_def r store_ids_insert keys)
  ultimately show ?thesis by (auto simp: store_track_def)
qed

lemma store_track_deaf:
  "store_track P pm s S K vt st \<Longrightarrow> (\<And>vm. m = Vote vm \<Longrightarrow> \<not> round_vote P pm s vt vm) \<Longrightarrow>
   store_track P pm s (insert m S) K vt st"
  by (auto simp: store_track_def)

text \<open>The votes counted for the block are the entries of its round; nothing is counted for nil.\<close>

lemma count_tracked:
  assumes "store_track P pm s S K vt st"
  shows "count_votes st (pm_round pm) (MId (proposed_id P (pm_value pm))) = card (store_ids st (pm_round pm))"
    and "count_votes st (pm_round pm) MNil = 0"
proof -
  have "count_votes st (pm_round pm) (MId (proposed_id P (pm_value pm))) = card (store_ids st (pm_round pm))
      \<and> count_votes st (pm_round pm) MNil = 0"
  proof (cases "hm_get st (pm_round pm)")
    case (Some m)
    with assms have wf: "hm_wf m" and all: "\<And>k vm. (k, vm) \<in> set m \<Longrightarrow> vm_block_id vm = Some (proposed_id P (pm_value pm))"
      by (auto simp: store_track_def round_vote_def hm_mem_get)
    have "filter (\<lambda>v. matches (vm_block_id v) (MId (proposed_id P (pm_value pm)))) (hm_values m) = hm_values m"
      "filter (\<lambda>v. matches (vm_block_id v) MNil) (hm_values m) = []"
      using all by (auto simp: hm_values_def filter_id_conv filter_empty_conv)
    moreover have "card (set (hm_keys m)) = length m" using wf distinct_card [of "map fst m"] by (simp add: hm_wf_def hm_keys_def)
    ultimately show ?thesis using Some by (simp add: count_votes_def store_ids_def hm_values_def)
  qed (simp add: count_votes_def store_ids_def)
  then show "count_votes st (pm_round pm) (MId (proposed_id P (pm_value pm))) = card (store_ids st (pm_round pm))"
    "count_votes st (pm_round pm) MNil = 0" by auto
qed

lemma finite_store_ids [simp]: "finite (store_ids st r)"
  by (simp add: store_ids_def split: option.splits)

lemma count_precommits_certified:
  assumes "store_track P pm s S K VPrecommit st"
    and "set_threshold s \<le> count_votes st (pm_round pm) (MId (proposed_id P (pm_value pm)))"
  shows "certified P pm s K"
  unfolding certified_def
proof (intro exI [of _ "store_ids st (pm_round pm)"] conjI ballI)
  show "set_threshold s \<le> card (store_ids st (pm_round pm))" using assms count_tracked(1) by metis
  fix k assume "k \<in> store_ids st (pm_round pm)"
  then obtain m vm where "hm_get st (pm_round pm) = Some m" "hm_get m k = Some vm"
    by (auto simp: store_ids_def hm_keys_get split: option.splits)
  with assms(1) show "\<exists>vm. Vote vm \<in> K \<and> round_vote P pm s VPrecommit vm \<and> vk_id P (vm_voter vm) = k"
    unfolding store_track_def by blast
qed simp

section \<open>Rules\<close>

lemma framed_update [simp]:
  "framed P pm s S (e\<lparr>e_prevotes := x1\<rparr>) = framed P pm s S e"
  "framed P pm s S (e\<lparr>e_precommits := x2\<rparr>) = framed P pm s S e"
  "framed P pm s S (e\<lparr>e_step := x3\<rparr>) = framed P pm s S e"
  "framed P pm s S (e\<lparr>e_prevote_timeout_started := x4\<rparr>) = framed P pm s S e"
  "framed P pm s S (e\<lparr>e_precommit_timeout_started := x5\<rparr>) = framed P pm s S e"
  "framed P pm s S (e\<lparr>e_polka_applied := x6\<rparr>) = framed P pm s S e"
  "framed P pm s S (e\<lparr>e_valid_value := x7\<rparr>) = framed P pm s S e"
  "framed P pm s S (e\<lparr>e_valid_round := x8\<rparr>) = framed P pm s S e"
  "framed P pm s S (e\<lparr>e_mempool := x9\<rparr>) = framed P pm s S e"
  by (simp_all add: framed_def proposer_def e_n_def locked_id_def)

lemma proposer_update [simp]:
  "proposer (e\<lparr>e_proposals := x1\<rparr>) r = proposer e r" "proposer (e\<lparr>e_parked := x2\<rparr>) r = proposer e r"
  "proposer (e\<lparr>e_locked_value := x3\<rparr>) r = proposer e r" "proposer (e\<lparr>e_locked_round := x4\<rparr>) r = proposer e r"
  "proposer (e\<lparr>e_mempool := x5\<rparr>) r = proposer e r"
  by (simp_all add: proposer_def e_n_def)

lemma framed_lock:
  "framed P pm s S e \<Longrightarrow> framed P pm s S (e\<lparr>e_locked_value := Some (pm_value pm), e_locked_round := lr\<rparr>)"
  unfolding framed_def by (simp add: locked_id_def)

lemma framedD:
  assumes "framed P pm s S e"
  shows "e_height e = pm_height pm" "e_round e = pm_round pm" "e_current_set e = s" "vs_contains s (e_me_pk e)"
    "mldsa_correct P (e_me_sk e) (e_me_pk e)"
  using assms by (simp_all add: framed_def)

lemma voted_mono: "voted P pm s B vt v \<Longrightarrow> B \<subseteq> B' \<Longrightarrow> voted P pm s B' vt v"
  unfolding voted_def by blast

lemma votedI: "round_vote P pm s vt vm \<Longrightarrow> vm_voter vm = v \<Longrightarrow> voted P pm s (insert (Vote vm) B) vt v"
  unfolding voted_def by blast

lemma certified_mono: "certified P pm s K \<Longrightarrow> K \<subseteq> K' \<Longrightarrow> certified P pm s K'"
  unfolding certified_def by (meson subsetD)

lemma in_round_more: "in_round P pm s S B e \<Longrightarrow> B \<subseteq> B' \<Longrightarrow> in_round P pm s S B' e"
  unfolding in_round_def
  using store_track_mono [of P pm s S "S \<union> B" _ _ "S \<union> B'"] voted_mono [of P pm s B _ _ B'] by blast

lemma own_round_vote:
  assumes "framed P pm s S e"
    and "vote_create P (e_me_sk e) (e_me_pk e) (e_height e) (e_round e) vt (Some (proposed_id P (pm_value pm))) = Some vm"
  shows "round_vote P pm s vt vm" and "vm_voter vm = e_me_pk e"
  using framedD [OF assms(1)] vote_create_Some [OF assms(2)] vote_create_verifies [OF _ assms(2)]
  by (auto simp: round_vote_def)

lemma in_round_prevote:
  assumes "in_round P pm s S B e" and "e_step e = StPropose"
    and "emit_prevote P (Some (proposed_id P (pm_value pm))) e = Some (e1, out)"
  shows "in_round P pm s S (B \<union> said out) (e1\<lparr>e_step := StPrevote\<rparr>)"
proof -
  from assms(3) obtain vm where
    vm: "vote_create P (e_me_sk e) (e_me_pk e) (e_height e) (e_round e) VPrevote (Some (proposed_id P (pm_value pm))) = Some vm"
    and e1: "e1 = e\<lparr>e_prevotes := store_own_vote P e vm (e_prevotes e)\<rparr>" and out: "out = [Broadcast (Vote vm)]"
    by (auto simp: emit_prevote_def bind_eq_Some_conv)
  have r: "in_round P pm s S (insert (Vote vm) B) e" by (rule in_round_more [OF assms(1)]) blast
  then have fr: "framed P pm s S e" by (simp add: in_round_def)
  note own = own_round_vote [OF fr vm]
  have "store_track P pm s S (S \<union> insert (Vote vm) B) VPrevote (store_own_vote P e vm (e_prevotes e))"
    using r by (intro store_track_own [OF _ own framedD(2) [OF fr]]) (auto simp: in_round_def)
  with r votedI [OF own] assms(2) show ?thesis unfolding e1 out by (simp add: in_round_def)
qed

lemma in_round_precommit:
  assumes "in_round P pm s S B e" and "e_step e \<noteq> StPropose"
    and "emit_precommit P (Some (proposed_id P (pm_value pm)))
      (e\<lparr>e_polka_applied := ap, e_locked_value := Some (pm_value pm), e_locked_round := Some lr\<rparr>) = Some (e1, out)"
  shows "in_round P pm s S (B \<union> said out) (e1\<lparr>e_step := StPrecommit, e_valid_value := vv, e_valid_round := vr\<rparr>)"
proof -
  from assms(3) obtain vm where
    vm: "vote_create P (e_me_sk e) (e_me_pk e) (e_height e) (e_round e) VPrecommit (Some (proposed_id P (pm_value pm))) = Some vm"
    and e1: "e1 = e\<lparr>e_polka_applied := ap, e_locked_value := Some (pm_value pm), e_locked_round := Some lr,
      e_precommits := store_own_vote P e vm (e_precommits e)\<rparr>" and out: "out = [Broadcast (Vote vm)]"
    by (auto simp: emit_precommit_def bind_eq_Some_conv store_own_vote_def)
  have r: "in_round P pm s S (insert (Vote vm) B) e" by (rule in_round_more [OF assms(1)]) blast
  then have fr: "framed P pm s S e" by (simp add: in_round_def)
  note own = own_round_vote [OF fr vm]
  have "store_track P pm s S (S \<union> insert (Vote vm) B) VPrecommit (store_own_vote P e vm (e_precommits e))"
    using r by (intro store_track_own [OF _ own framedD(2) [OF fr]]) (auto simp: in_round_def)
  moreover have "framed P pm s S (e1\<lparr>e_step := StPrecommit, e_valid_value := vv, e_valid_round := vr\<rparr>)"
    using framed_lock [of P pm s S "e\<lparr>e_polka_applied := ap\<rparr>" "Some lr"] fr by (simp add: e1)
  ultimately show ?thesis using r votedI [OF own] assms(2) unfolding e1 out by (simp add: in_round_def)
qed

lemma on_track_roundI:
  "committed_blocks out = [] \<Longrightarrow> committed_blocks out' = [] \<Longrightarrow> in_round P pm s S (said out \<union> said out') e \<Longrightarrow>
   on_track P pm s S (out @ out') e"
  by (simp add: on_track_def)

lemma on_track_later:
  assumes "on_track P pm s S out e" and "committed_blocks out \<noteq> []" and "S \<subseteq> T"
  shows "on_track P pm s T (out @ out') e'"
proof -
  from assms(1,2) obtain b bs where b: "committed_blocks out = b # bs" "block_value b = pm_value pm"
    and "certified P pm s (S \<union> said out)" by (auto simp: on_track_def split: list.splits)
  moreover have "S \<union> said out \<subseteq> T \<union> said (out @ out')" using assms(3) by auto
  ultimately show ?thesis by (auto simp: on_track_def simp del: said_simps intro: certified_mono)
qed

lemma in_round_only:
  assumes "in_round P pm s S B e" and "hm_get (e_proposals e) r = Some q"
  shows "r = pm_round pm" and "q = pm"
  using assms unfolding in_round_def framed_def sole_proposal_def by blast+

lemma in_round_counts:
  assumes "in_round P pm s S B e"
  shows "count_prevotes e (pm_round pm) (MId (proposed_id P (pm_value pm))) = card (store_ids (e_prevotes e) (pm_round pm))"
    and "count_precommits e (pm_round pm) (MId (proposed_id P (pm_value pm))) = card (store_ids (e_precommits e) (pm_round pm))"
    and "count_prevotes e (pm_round pm) MNil = 0" and "e_quorum e = set_threshold s" and "e_round e = pm_round pm"
proof -
  from assms have t: "store_track P pm s S (S \<union> B) VPrevote (e_prevotes e)"
    "store_track P pm s S (S \<union> B) VPrecommit (e_precommits e)" and "framed P pm s S e" by (simp_all add: in_round_def)
  then show "e_quorum e = set_threshold s" "e_round e = pm_round pm" by (simp_all add: e_quorum_def framedD)
  show "count_prevotes e (pm_round pm) (MId (proposed_id P (pm_value pm))) = card (store_ids (e_prevotes e) (pm_round pm))"
    "count_precommits e (pm_round pm) (MId (proposed_id P (pm_value pm))) = card (store_ids (e_precommits e) (pm_round pm))"
    "count_prevotes e (pm_round pm) MNil = 0"
    by (simp_all only: count_prevotes_def count_precommits_def count_tracked [OF t(1)] count_tracked [OF t(2)])
qed

lemma commit_on_track:
  assumes r: "in_round P pm s S (said out) e" and "committed_blocks out = []"
    and q: "e_quorum e \<le> count_precommits e (pm_round pm) (MId (proposed_id P (pm_value pm)))"
    and c: "commit P (pm_round pm) (proposed_id P (pm_value pm)) (pm_value pm) e = Some (e', out')"
  shows "on_track P pm s S (out @ out') e'"
  using c
proof (cases rule: commit_SomeE)
  case (1 vs out'')
  have "certified P pm s (S \<union> said out)"
    using r q in_round_counts(4) [OF r]
    by (intro count_precommits_certified [of P pm s S _ "e_precommits e"]) (simp_all add: in_round_def count_precommits_def)
  then have "certified P pm s (S \<union> said (out @ out'))" by (rule certified_mono) auto
  with 1(3) assms(2) show ?thesis by (simp add: on_track_def block_value_def)
qed

lemma rule_step_on_track:
  assumes "rule_step P e e' out'" and "in_round P pm s S (said out) e" and "committed_blocks out = []" and "0 < set_threshold s"
    and nonil: "\<And>vm. Broadcast (Vote vm) \<in> set out' \<Longrightarrow> vm_block_id vm \<noteq> None"
  shows "on_track P pm s S (out @ out') e'"
  using assms
proof (induction rule: rule_step.induct)
  case (commit_rule e r q e' out')
  from in_round_only [OF commit_rule.prems(1) commit_rule(1)] have "r = pm_round pm" "q = pm" .
  with commit_rule show ?case by (intro commit_on_track) simp_all
next
  case (skip_rule e r e' out')
  then have False unfolding in_round_def framed_def store_track_def hm_keys_get set_append Un_iff by fastforce
  then show ?case ..
next
  case (prevote_rule e q bid e1 out')
  from in_round_only(2) [OF prevote_rule.prems(1) prevote_rule(2)] have q: "q = pm" .
  from prevote_rule(4) obtain vm where "out' = [Broadcast (Vote vm)]" "vm_block_id vm = bid"
    by (auto simp: emit_prevote_def bind_eq_Some_conv dest: vote_create_Some)
  with prevote_rule.prems(4) prevote_rule(3) q have "bid = Some (proposed_id P (pm_value pm))" by auto
  with in_round_prevote [OF prevote_rule.prems(1) prevote_rule(1)] prevote_rule(4)
  have "in_round P pm s S (said out \<union> said out') (e1\<lparr>e_step := StPrevote\<rparr>)" by simp
  with prevote_rule.prems(2) committed_emit(1) [OF prevote_rule(4)] show ?case by (intro on_track_roundI)
next
  case (polka_lock e q e1 out')
  from in_round_only(2) [OF polka_lock.prems(1) polka_lock(3)] have q: "q = pm" .
  have "e_step e \<noteq> StPropose" using polka_lock(1) by simp
  from in_round_precommit [OF polka_lock.prems(1) this polka_lock(6) [unfolded q]] polka_lock.prems(2)
    committed_emit(2) [OF polka_lock(6)] show ?case unfolding q by (intro on_track_roundI)
next
  case (precommit_nil_rule e e1 out')
  then show ?case using in_round_counts(3-5) [OF precommit_nil_rule.prems(1)] by simp
next
  case (prevote_timer e)
  then show ?case by (intro on_track_roundI) (simp_all add: in_round_def)
next
  case (polka_late e q)
  then show ?case by (intro on_track_roundI) (simp_all add: in_round_def)
next
  case (precommit_timer e)
  then show ?case by (intro on_track_roundI) (simp_all add: in_round_def)
qed

section \<open>The rule loop\<close>

text \<open>The proposal does not refer to an earlier round, and a quorum is not empty.\<close>

definition plain :: "ProposalMsg \<Rightarrow> ValidatorSet \<Rightarrow> bool" where
  "plain pm s \<longleftrightarrow> pm_valid_round pm = None \<and> 0 < set_threshold s"

lemma or_else_fires:
  assumes "or_else f g e = Some (True, e', out)" and "rule_sound P f"
  shows "f e = Some (True, e', out) \<or> g e = Some (True, e', out)"
proof -
  from assms(1) obtain c e1 out1 where f: "f e = Some (c, e1, out1)"
    by (auto simp: or_else_def bind_eq_Some_conv)
  show ?thesis
  proof (cases c)
    case False
    with f assms(2) have "e1 = e" "out1 = []" unfolding rule_sound_def by (metis (full_types))+
    with False f assms(1) show ?thesis by (auto simp: or_else_def bind_eq_Some_conv)
  qed (use f assms(1) in \<open>auto simp: or_else_def\<close>)
qed

lemma advance_once_fires:
  assumes "advance_once P e = Some (True, e', out)"
  shows "try_commit P e = Some (True, e', out) \<or> try_skip P e = Some (True, e', out)
    \<or> try_prevote_on_proposal P e = Some (True, e', out) \<or> try_prevote_on_reproposal P e = Some (True, e', out)
    \<or> try_schedule_prevote_timeout P e = Some (True, e', out) \<or> try_precommit_on_polka P e = Some (True, e', out)
    \<or> try_precommit_nil P e = Some (True, e', out) \<or> try_schedule_precommit_timeout P e = Some (True, e', out)"
  using assms unfolding advance_once_def by (blast dest: or_else_fires intro: rules_sound)

lemma try_commit_loop_quiet: "try_commit_loop P cs e = Some (c, e', out) \<Longrightarrow> Broadcast (Vote vm) \<notin> set out"
  by (induction cs) (auto simp: bind_eq_Some_conv commit_no_vote split: if_splits)

lemma try_skip_loop_quiet: "try_skip_loop P rs e = Some (c, e', out) \<Longrightarrow> Broadcast (Vote vm) \<notin> set out"
  by (induction rs) (auto simp: bind_eq_Some_conv start_round_no_vote split: if_splits)

lemma advance_once_says:
  assumes once: "advance_once P e = Some (True, e', out)" and r: "in_round P pm s S B e" and p: "plain pm s"
    and vm: "Broadcast (Vote vm) \<in> set out"
  shows "vm_block_id vm \<noteq> None"
proof -
  have only: "q = pm" if "hm_get (e_proposals e) x = Some q" for x q using in_round_only(2) [OF r that] .
  have ok: "proposed_is_valid P (pm_value pm) (e_tip e) (e_height e) (e_current_set e)"
    "e_locked_round e = None \<or> locked_id P e = Some (proposed_id P (pm_value pm))"
    using r by (auto simp: in_round_def framed_def)
  have nil: "\<not> e_quorum e \<le> count_prevotes e (e_round e) MNil"
    using in_round_counts(3-5) [OF r] p by (simp add: plain_def)
  consider "try_prevote_on_proposal P e = Some (True, e', out)" | "try_prevote_on_reproposal P e = Some (True, e', out)"
    | "try_precommit_on_polka P e = Some (True, e', out)"
    using advance_once_fires [OF once] vm nil
    by (auto simp: try_commit_def try_skip_def try_schedule_prevote_timeout_def try_schedule_precommit_timeout_def
        try_precommit_nil_def dest: try_commit_loop_quiet try_skip_loop_quiet split: if_splits)
  then show ?thesis
  proof cases
    case 1
    then obtain q where "hm_get (e_proposals e) (e_round e) = Some q"
      and "prevote_for P (pm_value q) (e_locked_round e = None \<or> locked_id P e = Some (proposed_id P (pm_value q))) e
        = Some (True, e', out)"
      by (auto simp: try_prevote_on_proposal_def split: if_splits option.splits)
    with ok only [of "e_round e" q] obtain e1 where "emit_prevote P (Some (proposed_id P (pm_value pm))) e = Some (e1, out)"
      by (auto simp: prevote_for_def Let_def bind_eq_Some_conv)
    from emit_prevote_vote [OF this vm] show ?thesis by simp
  next
    case 2
    then obtain q where "hm_get (e_proposals e) (e_round e) = Some q" "pm_valid_round q \<noteq> None"
      by (auto simp: try_prevote_on_reproposal_def split: if_splits option.splits)
    with only p show ?thesis by (auto simp: plain_def)
  next
    case 3
    then obtain v x e1 where "emit_precommit P (Some (proposed_id P v)) x = Some (e1, out)"
      using vm by (auto simp: try_precommit_on_polka_def Let_def bind_eq_Some_conv split: if_splits option.splits)
    from emit_precommit_vote [OF this vm] show ?thesis by simp
  qed
qed

lemma advance_on_track:
  "advance P e = Some (e', out') \<Longrightarrow> plain pm s \<Longrightarrow> on_track P pm s S out e \<Longrightarrow> on_track P pm s S (out @ out') e'"
proof (induction P e arbitrary: out out' rule: advance.induct)
  case (1 P e)
  show ?case
  proof (cases "committed_blocks out = []")
    case False
    with "1.prems"(3) show ?thesis by (intro on_track_later) auto
  next
    case True
    with "1.prems"(3) have r: "in_round P pm s S (said out) e" by (simp add: on_track_def)
    from "1.prems"(1) obtain c e1 out1 where once: "advance_once P e = Some (c, e1, out1)"
      by (subst (asm) advance.simps) (auto split: option.splits)
    show ?thesis
    proof (cases c)
      case c: True
      with "1.prems"(1) once obtain out2 where rest: "advance P e1 = Some (e', out2)" and out': "out' = out1 @ out2"
        by (subst (asm) advance.simps) (auto simp: bind_eq_Some_conv)
      have "on_track P pm s S (out @ out1) e1"
        using rule_step_on_track [OF advance_once_step r True] advance_once_says [OF _ r "1.prems"(2)] once c "1.prems"(2)
        by (auto simp: plain_def)
      with "1.IH" once c rest "1.prems"(2) have "on_track P pm s S ((out @ out1) @ out2) e'" by blast
      then show ?thesis by (simp add: out')
    next
      case False
      with once advance_once_stop [of P e e1 out1] "1.prems"(1,3) show ?thesis by (subst (asm) advance.simps) auto
    qed
  qed
qed

section \<open>Messages and submissions\<close>

lemma framed_hear: "framed P pm s S e \<Longrightarrow> m \<noteq> Proposal pm \<Longrightarrow> framed P pm s (insert m S) e"
  by (simp add: framed_def)

lemma in_round_hear_vote:
  assumes r: "in_round P pm s S B e" and u: "undisturbing P pm (Vote vm)"
  shows "in_round P pm s (insert (Vote vm) S) B (ingest_vote P vm e)"
proof -
  let ?S = "insert (Vote vm) S"
  from r have fr: "framed P pm s ?S e"
    and pre: "store_track P pm s S (?S \<union> B) VPrevote (e_prevotes e)" "store_track P pm s S (?S \<union> B) VPrecommit (e_precommits e)"
    by (auto simp: in_round_def intro: framed_hear store_track_mono)
  show ?thesis
  proof (cases "round_vote P pm s (vm_vote_type vm) vm")
    case True
    with fr have "ingest_vote P vm e = (case vm_vote_type vm of
        VPrevote \<Rightarrow> e\<lparr>e_prevotes := store_vote P vm (e_prevotes e)\<rparr>
      | VPrecommit \<Rightarrow> e\<lparr>e_precommits := store_vote P vm (e_precommits e)\<rparr>)"
      by (simp add: ingest_vote_def round_vote_def framedD)
    moreover have "vt \<noteq> vm_vote_type vm \<Longrightarrow> \<not> round_vote P pm s vt vm" for vt by (auto simp: round_vote_def)
    ultimately show ?thesis
      using r fr True pre store_track_hear [OF pre(1)] store_track_hear [OF pre(2)]
        store_track_deaf [OF pre(1), of "Vote vm"] store_track_deaf [OF pre(2), of "Vote vm"]
      by (cases "vm_vote_type vm") (simp_all add: in_round_def)
  next
    case False
    with u fr have "ingest_vote P vm e = e"
      unfolding ingest_vote_def round_vote_def undisturbing_def msg_height_def by (auto simp: framedD [OF fr])
    moreover have "\<not> round_vote P pm s vt vm" for vt using False by (auto simp: round_vote_def)
    ultimately show ?thesis
      using r fr store_track_deaf [OF pre(1), of "Vote vm"] store_track_deaf [OF pre(2), of "Vote vm"]
      by (simp add: in_round_def)
  qed
qed

lemma in_round_hear_proposal:
  assumes r: "in_round P pm s S B e" and u: "undisturbing P pm (Proposal q)" and sig: "proposal_verify_sig P pm"
    and "ingest_proposal P q e = Some e'"
  shows "in_round P pm s (insert (Proposal q) S) B e'"
proof -
  let ?S = "insert (Proposal q) S"
  from r have fr: "framed P pm s S e"
    and pre: "store_track P pm s ?S (?S \<union> B) VPrevote (e_prevotes e)" "store_track P pm s ?S (?S \<union> B) VPrecommit (e_precommits e)"
    by (auto simp: in_round_def intro!: store_track_deaf intro: store_track_mono)
  have "framed P pm s ?S e' \<and> (\<exists>props. e' = e\<lparr>e_proposals := props\<rparr>)"
  proof (cases "pm_height q = pm_height pm")
    case False
    then have "q \<noteq> pm" by auto
    with False assms(4) fr framed_hear [OF fr, of "Proposal q"] show ?thesis
      by (auto simp: ingest_proposal_def framedD intro: exI [of _ "e_proposals e"])
  next
    case True
    with u have q: "q = pm" by (simp add: undisturbing_def msg_height_def)
    have pr: "proposer e (pm_round pm) = Some (pm_proposer pm)" using fr by (simp add: framed_def)
    from assms(4) q sig pr have e': "e' = e\<lparr>e_proposals := hm_or_insert (pm_round pm) pm (e_proposals e)\<rparr>"
      by (simp add: ingest_proposal_def framedD(1) [OF fr])
    have "sole_proposal pm (hm_or_insert (pm_round pm) pm (e_proposals e))"
      "hm_get (hm_or_insert (pm_round pm) pm (e_proposals e)) (pm_round pm) = Some pm"
      using fr by (auto simp: framed_def sole_proposal_def hm_get_or_insert split: if_splits)
    with fr have "framed P pm s ?S e'" unfolding e' framed_def by (simp add: locked_id_def)
    with e' show ?thesis by blast
  qed
  with r pre show ?thesis by (auto simp: in_round_def)
qed

lemma in_round_hear:
  assumes "in_round P pm s S B e" and "undisturbing P pm m" and "proposal_verify_sig P pm" and "ingest P m e = Some e'"
  shows "in_round P pm s (insert m S) B e'"
  using assms in_round_hear_vote [OF assms(1)] in_round_hear_proposal [OF assms(1)]
  by (cases m) (auto simp: ingest_def)

lemma in_round_unpark:
  assumes r: "in_round P pm s S B e" and "unpark P e = Some (e', out)"
  shows "in_round P pm s S (B \<union> said out) e' \<and> committed_blocks out = []"
proof (cases "e_parked e")
  case True
  with assms have "enter_propose P (e_round e) (e\<lparr>e_parked := False\<rparr>) = Some (e', out)" by (simp add: unpark_def)
  moreover have "is_proposer (e\<lparr>e_parked := False\<rparr>) (e_round e) = Some False"
    using r True by (auto simp: in_round_def framed_def is_proposer_def)
  ultimately have "e' = e\<lparr>e_parked := False\<rparr>" "said out = {}" "committed_blocks out = []"
    by (auto elim!: enter_propose_SomeE)
  moreover have "framed P pm s S (e\<lparr>e_parked := False\<rparr>)"
    using r by (simp add: in_round_def framed_def locked_id_def)
  ultimately show ?thesis using r by (simp add: in_round_def)
next
  case False
  with assms show ?thesis by (simp add: unpark_def)
qed

lemma then_advance_on_track:
  assumes "then_advance P r = Some (e', out')" and "plain pm s" and "committed_blocks out = []"
    and "\<And>e1 out1. r = Some (e1, out1) \<Longrightarrow> in_round P pm s S (said out \<union> said out1) e1 \<and> committed_blocks out1 = []"
  shows "on_track P pm s S (out @ out') e'"
  using assms(1)
proof (rule then_advance_SomeE)
  fix e1 out1 out2
  assume "r = Some (e1, out1)" and adv: "advance P e1 = Some (e', out2)" and out': "out' = out1 @ out2"
  with assms(3,4) have "on_track P pm s S (out @ out1) e1" by (intro on_track_roundI) auto
  from advance_on_track [OF adv assms(2) this] show ?thesis by (simp add: out')
qed

lemma engine_feed_on_track:
  assumes "engine_feed P x e = Some (e', out')" and p: "plain pm s" and sig: "proposal_verify_sig P pm"
    and u: "\<And>m. x = Heard m \<Longrightarrow> undisturbing P pm m" and t: "on_track P pm s S out e"
  shows "on_track P pm s (S \<union> heard [x]) (out @ out') e'"
proof (cases "committed_blocks out = []")
  case False
  with t show ?thesis by (intro on_track_later) auto
next
  case True
  with t have r: "in_round P pm s S (said out) e" by (simp add: on_track_def)
  show ?thesis
  proof (cases x)
    case (Heard m)
    with assms(1) obtain e1 w where ing: "ingest P m e = Some e1" and w: "w = unpark P e1 \<or> w = Some (e1, [])"
      and adv: "then_advance P w = Some (e', out')" by (auto simp: engine_feed_def on_message_def Let_def bind_eq_Some_conv split: if_splits)
    from in_round_hear [OF r u [OF Heard] sig ing] have r1: "in_round P pm s (insert m S) (said out) e1" .
    from adv p True have "on_track P pm s (insert m S) (out @ out') e'"
      by (rule then_advance_on_track) (use w r1 in_round_unpark [OF r1] in \<open>auto dest: sym\<close>)
    then show ?thesis by (simp add: Heard)
  next
    case (Submitted a)
    let ?e = "e\<lparr>e_mempool := e_mempool e @ [a]\<rparr>"
    from r have r1: "in_round P pm s S (said out) ?e" by (simp add: in_round_def)
    show ?thesis
    proof (cases "e_parked e")
      case parked: True
      with assms(1) Submitted have adv: "then_advance P (unpark P ?e) = Some (e', out')" by (simp add: engine_feed_def add_attestation_def)
      from adv p True have "on_track P pm s S (out @ out') e'"
        by (rule then_advance_on_track) (use in_round_unpark [OF r1] in auto)
      then show ?thesis by (simp add: Submitted)
    next
      case False
      with assms(1) Submitted r1 True show ?thesis by (simp add: engine_feed_def add_attestation_def on_track_def)
    qed
  qed
qed

lemma engine_feeds_on_track:
  assumes "engine_feeds P xs e = Some (e', out')" and "plain pm s" and "proposal_verify_sig P pm"
    and "\<And>m. m \<in> heard xs \<Longrightarrow> undisturbing P pm m" and "on_track P pm s S out e"
  shows "on_track P pm s (S \<union> heard xs) (out @ out') e'"
  using assms
proof (induction xs arbitrary: e out out' S)
  case (Cons x xs)
  from Cons.prems(1) obtain e1 out1 out2 where f: "engine_feed P x e = Some (e1, out1)" and rest: "engine_feeds P xs e1 = Some (e', out2)"
    and out': "out' = out1 @ out2" by (auto simp: bind_eq_Some_conv)
  have hx: "heard (x # xs) = heard [x] \<union> heard xs" by (cases x) auto
  have "on_track P pm s (S \<union> heard [x]) (out @ out1) e1"
    by (rule engine_feed_on_track [OF f Cons.prems(2,3) _ Cons.prems(5)]) (use Cons.prems(4) in simp)
  from Cons.IH [OF rest Cons.prems(2,3) _ this] Cons.prems(4) show ?case
    by (simp add: hx out' Un_assoc)
qed simp

section \<open>Rest\<close>

text \<open>What holds of the proposal where the rule loop has stopped.\<close>

definition settled :: "prims \<Rightarrow> ProposalMsg \<Rightarrow> Engine \<Rightarrow> bool" where
  "settled P pm e \<longleftrightarrow> (hm_get (e_proposals e) (pm_round pm) = Some pm \<longrightarrow>
     e_step e \<noteq> StPropose
     \<and> (e_quorum e \<le> count_prevotes e (pm_round pm) (MId (proposed_id P (pm_value pm))) \<longrightarrow> e_step e = StPrecommit)
     \<and> count_precommits e (pm_round pm) (MId (proposed_id P (pm_value pm))) < e_quorum e)"

lemma or_else_rests:
  assumes "or_else f g e = Some (False, e, [])" and "rule_sound P f" and "rule_sound P g"
  shows "f e = Some (False, e, [])" and "g e = Some (False, e, [])"
proof -
  from assms(1) obtain e1 out1 out2 e2 where f: "f e = Some (False, e1, out1)" and g: "g e1 = Some (False, e2, out2)"
    by (auto simp: or_else_def bind_eq_Some_conv split: if_splits)
  from f assms(2) have 1: "e1 = e" "out1 = []" unfolding rule_sound_def by (metis (full_types))+
  from g assms(3) have 2: "e2 = e1" "out2 = []" unfolding rule_sound_def by (metis (full_types))+
  from f g 1 2 show "f e = Some (False, e, [])" "g e = Some (False, e, [])" by simp_all
qed

lemma advance_once_rests:
  assumes "advance_once P e = Some (False, e, [])"
  shows "try_commit P e = Some (False, e, [])" and "try_prevote_on_proposal P e = Some (False, e, [])"
    and "try_precommit_on_polka P e = Some (False, e, [])"
  using assms unfolding advance_once_def
  by (blast dest: or_else_rests intro: rules_sound rule_sound_or_else)+

lemma polka_fires:
  assumes "hm_get (e_proposals e) (e_round e) = Some pm" and "e_step e = StPrevote" and "e_round e \<notin> e_polka_applied e"
    and "\<not> count_prevotes e (e_round e) (MId (proposed_id P (pm_value pm))) < e_quorum e"
    and "proposed_is_valid P (pm_value pm) (e_tip e) (e_height e) (e_current_set e)"
  shows "try_precommit_on_polka P e \<noteq> Some (False, e', out)"
  using assms by (simp add: try_precommit_on_polka_def Let_def bind_eq_Some_conv less_Step_def)

lemma advance_settles:
  assumes "advance P e = Some (e', out)" and it: "iter_ok P" and r: "in_round P pm s S B e'" and p: "plain pm s"
  shows "settled P pm e'"
  unfolding settled_def
proof (intro impI conjI)
  assume held: "hm_get (e_proposals e') (pm_round pm) = Some pm"
  note q = advance_once_rests [OF advance_quiescent [OF assms(1)]]
  have rd: "e_round e' = pm_round pm" by (rule in_round_counts(5) [OF r])
  have ok: "proposed_is_valid P (pm_value pm) (e_tip e') (e_height e') (e_current_set e')"
    and ap: "pm_round pm \<in> e_polka_applied e' \<longrightarrow> e_step e' = StPrecommit"
    using r by (auto simp: in_round_def framed_def)
  from try_commit_idle [OF q(1) it held ok]
  show "count_precommits e' (pm_round pm) (MId (proposed_id P (pm_value pm))) < e_quorum e'" .
  show step: "e_step e' \<noteq> StPropose"
    using q(2) held rd p by (auto simp: try_prevote_on_proposal_def plain_def prevote_for_def Let_def bind_eq_Some_conv)
  assume "e_quorum e' \<le> count_prevotes e' (pm_round pm) (MId (proposed_id P (pm_value pm)))"
  with polka_fires [of e' pm P] q(3) held rd ok step have "pm_round pm \<in> e_polka_applied e' \<or> e_step e' = StPrecommit"
    by (cases "e_step e'") auto
  with ap show "e_step e' = StPrecommit" by blast
qed

lemma engine_feed_settled:
  assumes f: "engine_feed P x e = Some (e', out)" and it: "iter_ok P" and r: "in_round P pm s S B e'" and p: "plain pm s"
    and "settled P pm e"
  shows "settled P pm e'"
proof -
  have adv: "then_advance P w = Some (e', out) \<Longrightarrow> settled P pm e'" for w
    by (elim then_advance_SomeE) (rule advance_settles [OF _ it r p])
  show ?thesis
  proof (cases x)
    case (Heard m)
    with f show ?thesis by (auto simp: engine_feed_def on_message_def Let_def bind_eq_Some_conv intro: adv)
  next
    case (Submitted a)
    have "settled P pm (e\<lparr>e_mempool := e_mempool e @ [a]\<rparr>)"
      using assms(5) by (simp add: settled_def e_quorum_def count_prevotes_def count_precommits_def)
    with Submitted f show ?thesis by (auto simp: engine_feed_def add_attestation_def Let_def split: if_splits intro: adv)
  qed
qed

lemma engine_feeds_settled:
  assumes "engine_feeds P xs e = Some (e', out')" and p: "plain pm s" and sig: "proposal_verify_sig P pm" and it: "iter_ok P"
    and "\<And>m. m \<in> heard xs \<Longrightarrow> undisturbing P pm m" and "on_track P pm s S out e" and "settled P pm e"
    and "committed_blocks (out @ out') = []"
  shows "settled P pm e'"
  using assms
proof (induction xs arbitrary: e out out' S)
  case (Cons x xs)
  from Cons.prems(1) obtain e1 out1 out2 where f: "engine_feed P x e = Some (e1, out1)" and rest: "engine_feeds P xs e1 = Some (e', out2)"
    and out': "out' = out1 @ out2" by (auto simp: bind_eq_Some_conv)
  have hx: "heard (x # xs) = heard [x] \<union> heard xs" by (cases x) auto
  have t: "on_track P pm s (S \<union> heard [x]) (out @ out1) e1"
    by (rule engine_feed_on_track [OF f p sig _ Cons.prems(6)]) (use Cons.prems(5) in simp)
  with Cons.prems(8) have "in_round P pm s (S \<union> heard [x]) (said (out @ out1)) e1" by (simp add: on_track_def out')
  from engine_feed_settled [OF f it this p Cons.prems(7)] have "settled P pm e1" .
  with Cons.IH [OF rest p sig it _ t] Cons.prems(5,8) show ?case by (simp add: hx out')
qed simp

lemma engine_feeds_total:
  assumes "engine_safe k P e" and "iter_ok P" and "\<And>m. m \<in> heard xs \<Longrightarrow> msg_keeps k m"
  shows "\<exists>e' out. engine_feeds P xs e = Some (e', out)"
  using assms(1,3)
proof (induction xs arbitrary: e)
  case (Cons x xs)
  have "\<exists>e' out. engine_feed P x e = Some (e', out) \<and> engine_safe k P e'"
    using Cons.prems add_attestation_total [OF Cons.prems(1) assms(2)] on_message_total [OF Cons.prems(1) assms(2)]
    by (cases x) (auto simp: engine_feed_def)
  then obtain e1 out1 where f: "engine_feed P x e = Some (e1, out1)" and safe: "engine_safe k P e1" by blast
  have "heard xs \<subseteq> heard (x # xs)" by (cases x) auto
  with Cons.IH [OF safe] Cons.prems(2) f show ?case by fastforce
qed simp

section \<open>Nothing in flight\<close>

text \<open>
  All engines have heard the same messages, among them everything any of them has said of this height.
  Then each has committed, if those who take part are a quorum.
\<close>

lemma store_ids_heard:
  assumes "store_track P pm s S K vt st" and "\<And>k. k \<in> W \<Longrightarrow> \<exists>vm. Vote vm \<in> S \<and> round_vote P pm s vt vm \<and> vk_id P (vm_voter vm) = k"
  shows "card W \<le> card (store_ids st (pm_round pm))"
proof (rule card_mono)
  show "W \<subseteq> store_ids st (pm_round pm)" using assms unfolding store_track_def by blast
qed simp

lemma drained_commits:
  assumes t: "\<And>v. v \<in> H \<Longrightarrow> on_track P pm s M (out v) (e v)"
    and me: "\<And>v. v \<in> H \<Longrightarrow> committed_blocks (out v) = [] \<Longrightarrow> e_me_pk (e v) = v \<and> settled P pm (e v)"
    and drained: "\<And>v m. v \<in> H \<Longrightarrow> m \<in> said (out v) \<Longrightarrow> msg_height m = pm_height pm \<Longrightarrow> m \<in> M"
    and pm: "Proposal pm \<in> M" and H: "set_threshold s \<le> card H" "inj_on (vk_id P) H" and "v \<in> H"
  shows "committed_blocks (out v) \<noteq> []"
proof
  assume v: "committed_blocks (out v) = []"
  have round: "in_round P pm s M (said (out w)) (e w)" if "w \<in> H" "committed_blocks (out w) = []" for w
    using t [OF that(1)] that(2) by (simp add: on_track_def)
  have held: "hm_get (e_proposals (e w)) (pm_round pm) = Some pm" if "w \<in> H" "committed_blocks (out w) = []" for w
    using round [OF that] pm by (simp add: in_round_def framed_def)
  note rv = round [OF assms(7) v]
  have few: "count_precommits (e v) (pm_round pm) (MId (proposed_id P (pm_value pm))) < e_quorum (e v)"
    using me [OF assms(7) v] held [OF assms(7) v] by (simp add: settled_def)
  have no: False if "card W \<ge> set_threshold s"
    and "\<And>k. k \<in> W \<Longrightarrow> \<exists>vm. Vote vm \<in> M \<and> round_vote P pm s VPrecommit vm \<and> vk_id P (vm_voter vm) = k" for W
    using store_ids_heard [of P pm s M "M \<union> said (out v)" VPrecommit "e_precommits (e v)" W] rv that few in_round_counts(2,4) [OF rv]
    by (simp add: in_round_def)
  have said: "\<exists>vm. Vote vm \<in> M \<and> round_vote P pm s vt vm \<and> vk_id P (vm_voter vm) = vk_id P w"
    if "w \<in> H" and "voted P pm s (said (out w)) vt w" for w vt
  proof -
    from that(2) obtain vm where vm: "Vote vm \<in> said (out w)" "round_vote P pm s vt vm" "vm_voter vm = w"
      by (auto simp: voted_def)
    then have "Vote vm \<in> M" by (intro drained [OF that(1)]) (simp_all add: round_vote_def msg_height_def)
    with vm show ?thesis by blast
  qed
  show False
  proof (cases "\<exists>w\<in>H. committed_blocks (out w) \<noteq> []")
    case True
    then obtain w where w: "w \<in> H" "committed_blocks (out w) \<noteq> []" by blast
    with t [of w] obtain W where "set_threshold s \<le> card W" and
      W: "\<And>k. k \<in> W \<Longrightarrow> \<exists>vm. Vote vm \<in> M \<union> said (out w) \<and> round_vote P pm s VPrecommit vm \<and> vk_id P (vm_voter vm) = k"
      by (auto simp: on_track_def certified_def split: list.splits)
    moreover have "Vote vm \<in> M" if "Vote vm \<in> M \<union> said (out w)" "round_vote P pm s VPrecommit vm" for vm
      using that drained [OF w(1), of "Vote vm"] by (auto simp: round_vote_def msg_height_def)
    ultimately show False using no [of W] by blast
  next
    case False
    then have all: "committed_blocks (out w) = []" if "w \<in> H" for w using that by blast
    have card: "set_threshold s \<le> card (vk_id P ` H)" using H by (simp add: card_image)
    have pre: "voted P pm s (said (out w)) VPrevote w" if "w \<in> H" for w
      using me [OF that all [OF that]] held [OF that all [OF that]] round [OF that all [OF that]]
      by (auto simp: settled_def in_round_def)
    have "e_step (e w) = StPrecommit" if "w \<in> H" for w
    proof -
      note rw = round [OF that all [OF that]]
      have "card (vk_id P ` H) \<le> card (store_ids (e_prevotes (e w)) (pm_round pm))"
        using rw by (intro store_ids_heard [of P pm s M "M \<union> said (out w)" VPrevote]) (auto simp: in_round_def intro: said pre)
      with card in_round_counts(1,4) [OF rw] me [OF that all [OF that]] held [OF that all [OF that]] show ?thesis
        by (simp add: settled_def)
    qed
    then have "voted P pm s (said (out w)) VPrecommit w" if "w \<in> H" for w
      using me [OF that all [OF that]] round [OF that all [OF that]] that by (auto simp: in_round_def)
    then show False using no [OF card] said by blast
  qed
qed

end
