(* ===== verification/Timely_Props.thy ===== *)
theory Timely_Props
  imports Timely
begin

text \<open>Progress: an attestation submitted to an idle network is committed everywhere once messages get through.\<close>

section \<open>Leaving the idle state\<close>

text \<open>An engine that has nothing to do: parked in the first round of its height.\<close>

definition idle :: "prims \<Rightarrow> chain_state \<Rightarrow> VerifyingKey \<Rightarrow> Engine \<Rightarrow> bool" where
  "idle P st v e \<longleftrightarrow> chain_of e = st \<and> e_me_pk e = v \<and> engine_inv P e \<and> e_parked e
     \<and> e_round e = 0 \<and> e_step e = StPropose \<and> e_locked_round e = None \<and> e_valid_value e = None
     \<and> e_mempool e = [] \<and> e_gov_mempool e = [] \<and> e_proposals e = [] \<and> e_prevotes e = [] \<and> e_precommits e = []
     \<and> e_polka_applied e = {}"

lemma store_track_Nil: "store_track P pm s {} K vt []"
  by (simp add: store_track_def)

lemma idleD:
  assumes "idle P (reg, tip, h) v e" and "active_set reg h = Some s"
  shows "e_current_set e = s" and "e_validators_sorted e = sort_key (vk_id P) (set_validators s)"
    and "e_height e = h" and "e_tip e = tip" and "e_me_pk e = v" and "mldsa_correct P (e_me_sk e) v" and "e_round e = 0"
  using assms by (auto simp: idle_def engine_inv_def roster_ok_def chain_of_def)

lemma idle_proposer:
  assumes "idle P (reg, tip, h) v e" and "idle P (reg, tip, h) w e'" and "active_set reg h = Some s"
  shows "proposer e r = proposer e' r"
  using idleD [OF assms(1,3)] idleD [OF assms(2,3)] by (simp add: proposer_def e_n_def)

text \<open>The value of one attestation.\<close>

lemma single_value_valid:
  assumes "attestation_verify P att" and "e_gov_mempool e = []" and "e_mempool e = [att]"
  shows "proposed_is_valid P (get_value P e) (e_tip e) (e_height e) s" and "pr_attestations (get_value P e) = [att]"
  using assms by (simp_all add: proposed_is_valid_iff MAX_TXS_def len_as_u32_def)

lemma idle_in_round:
  assumes i: "idle P (reg, tip, h) v e" and s: "active_set reg h = Some s" and v: "v \<in> set (set_validators s)"
    and pm: "pm_height pm = h" "pm_round pm = 0" "proposed_is_valid P (pm_value pm) tip h s"
    and "proposer e 0 = Some (pm_proposer pm)" and "v \<noteq> pm_proposer pm"
  shows "on_track P pm s {} [] e" and "settled P pm e"
  using assms idleD [OF i s] store_track_Nil
  by (simp_all add: on_track_def in_round_def framed_def sole_proposal_def idle_def settled_def)

lemma proposer_in_round:
  assumes i: "idle P (reg, tip, h) p e" and s: "active_set reg h = Some s" and p: "p \<in> set (set_validators s)"
    and mine: "proposer e 0 = Some p" and att: "attestation_verify P att"
    and pm: "proposal_create P (e_me_sk e) p h 0 None (get_value P (e\<lparr>e_mempool := [att]\<rparr>)) = Some pm"
    and it: "iter_ok P" and pl: "plain pm s" and f: "engine_feed P (Submitted att) e = Some (e', out)"
  shows "on_track P pm s {} out e'" and "committed_blocks out = [] \<Longrightarrow> settled P pm e'" and "Proposal pm \<in> said out"
proof -
  let ?e = "e\<lparr>e_mempool := [att]\<rparr>" and ?e1 = "e\<lparr>e_mempool := [att], e_parked := False, e_proposals := [(0, pm)]\<rparr>"
  note d = idleD [OF i s]
  note c = proposal_create_Some [OF pm]
  have valid: "proposed_is_valid P (pm_value pm) tip h s"
    using single_value_valid(1) [OF att, of ?e s] i d c by (simp add: idle_def)
  have same: "get_value P (?e\<lparr>e_parked := False\<rparr>) = get_value P ?e" by (simp add: get_value_def)
  have pr: "proposer (?e\<lparr>e_parked := False\<rparr>) 0 = Some p" using mine by simp
  have "unpark P ?e = Some (?e1, [Broadcast (Proposal pm)])"
    using i d pr pm c(4) single_value_valid(2) [OF att, of ?e] same
    by (simp add: unpark_def enter_propose_def is_proposer_def idle_def Let_def hm_or_insert_def)
  with f i have adv: "then_advance P (Some (?e1, [Broadcast (Proposal pm)])) = Some (e', out)"
    by (simp add: engine_feed_def add_attestation_def idle_def)
  have "proposer ?e1 0 = Some p" using mine by simp
  then have "in_round P pm s {} {Proposal pm} ?e1"
    using i d c p valid store_track_Nil
    by (simp add: in_round_def framed_def sole_proposal_def idle_def hm_get_def)
  with adv pl show t: "on_track P pm s {} out e'"
    using then_advance_on_track [of P "Some (?e1, [Broadcast (Proposal pm)])" e' out pm s "[]" "{}"] by simp
  from adv show "Proposal pm \<in> said out" by (auto elim!: then_advance_SomeE)
  assume "committed_blocks out = []"
  with t have "in_round P pm s {} (said out) e'" by (simp add: on_track_def)
  with adv show "settled P pm e'" by (elim then_advance_SomeE) (rule advance_settles [OF _ it _ pl])
qed

lemma engine_feeds_me: "engine_feeds P xs e = Some (e', out) \<Longrightarrow> e_me_pk e' = e_me_pk e"
proof (induction xs arbitrary: e out)
  case (Cons x xs)
  then obtain e1 out1 out2 where f: "engine_feed P x e = Some (e1, out1)" and rest: "engine_feeds P xs e1 = Some (e', out2)"
    by (auto simp: bind_eq_Some_conv)
  from f have "engine_steps P e e1 out1"
    by (cases x) (auto simp: engine_feed_def intro: add_attestation_steps on_message_steps)
  from engine_steps_me [OF this] Cons.IH [OF rest] show ?case by simp
qed simp

section \<open>Progress\<close>

text \<open>The two kinds of validators: those who wait for the proposal and the one who makes it.\<close>

definition tracks :: "prims \<Rightarrow> ProposalMsg \<Rightarrow> ValidatorSet \<Rightarrow> ConsensusMsg set \<Rightarrow> Effect list \<Rightarrow> Engine \<Rightarrow> bool" where
  "tracks P pm s M out e \<longleftrightarrow> on_track P pm s M out e \<and> (committed_blocks out = [] \<longrightarrow> settled P pm e)"

lemma engine_feeds_tracks:
  assumes "engine_feeds P xs e = Some (e', out')" and "plain pm s" and "proposal_verify_sig P pm" and "iter_ok P"
    and "\<And>m. m \<in> heard xs \<Longrightarrow> undisturbing P pm m" and "tracks P pm s S out e"
  shows "tracks P pm s (S \<union> heard xs) (out @ out') e'"
  using assms(6) engine_feeds_on_track [OF assms(1-3,5), of S out] engine_feeds_settled [OF assms(1-5), of S out]
  by (simp add: tracks_def)

lemma waiting_tracks:
  assumes "idle P (reg, tip, h) v e" and "active_set reg h = Some s" and "v \<in> set (set_validators s)"
    and "pm_height pm = h" "pm_round pm = 0" "proposed_is_valid P (pm_value pm) tip h s"
    and "proposer e 0 = Some (pm_proposer pm)" and "v \<noteq> pm_proposer pm"
    and "plain pm s" "proposal_verify_sig P pm" "iter_ok P" and "\<And>m. m \<in> heard xs \<Longrightarrow> undisturbing P pm m"
    and "engine_feeds P xs e = Some (e', out)"
  shows "tracks P pm s (heard xs) out e'"
  using engine_feeds_tracks [OF assms(13,9-12), of "{}" "[]"] idle_in_round [OF assms(1-8)] by (simp add: tracks_def)

lemma proposing_tracks:
  assumes "idle P (reg, tip, h) p e" and "active_set reg h = Some s" and "p \<in> set (set_validators s)"
    and "proposer e 0 = Some p" and "attestation_verify P att"
    and "proposal_create P (e_me_sk e) p h 0 None (get_value P (e\<lparr>e_mempool := [att]\<rparr>)) = Some pm"
    and pl: "plain pm s" "proposal_verify_sig P pm" "iter_ok P" and u: "\<And>m. m \<in> heard xs \<Longrightarrow> undisturbing P pm m"
    and "engine_feeds P (Submitted att # xs) e = Some (e', out)"
  shows "tracks P pm s (heard xs) out e'" and "Proposal pm \<in> said out"
proof -
  from assms(11) obtain e1 out1 out2 where f: "engine_feed P (Submitted att) e = Some (e1, out1)"
    and rest: "engine_feeds P xs e1 = Some (e', out2)" and out: "out = out1 @ out2" by (auto simp: bind_eq_Some_conv)
  note p = proposer_in_round [OF assms(1-6) pl(3,1) f]
  from engine_feeds_tracks [OF rest pl u, of "{}" out1] p(1,2) show "tracks P pm s (heard xs) out e'" by (simp add: tracks_def out)
  from p(3) show "Proposal pm \<in> said out" by (simp add: out)
qed

text \<open>
  C5: Progress when messages get through. In an idle network a quorum of validators is up. The proposer
  of the height receives an attestation that verifies; no timer fires, and the validators hear,
  each in its own order, with repetitions and mixed with further submissions, the same messages:
  whatever any of them says of this height, and nothing that contradicts the proposal. Then none of them
  panics and each commits, as its next block, the proposal with exactly that attestation.
\<close>

theorem timely_messages_commit:
  assumes "\<forall>v\<in>H. idle P (reg, tip, h) v (e v) \<and> engine_safe k P (e v)" and "iter_ok P"
    and "active_set reg h = Some s" and "H \<subseteq> set (set_validators s)" and "set_threshold s \<le> card H" and "inj_on (vk_id P) H"
    and "p \<in> H" and "proposer (e p) 0 = Some p" and "attestation_verify P att"
    and "proposal_create P (e_me_sk (e p)) p h 0 None (get_value P ((e p)\<lparr>e_mempool := [att]\<rparr>)) = Some pm"
    and "\<exists>rest. fs p = Submitted att # rest" and "\<forall>v\<in>H. heard (fs v) = M"
    and "\<forall>m\<in>M. undisturbing P pm m \<and> msg_keeps k m"
    and "\<forall>v\<in>H. \<forall>e' out. engine_feeds P (fs v) (e v) = Some (e', out) \<longrightarrow> {m \<in> said out. msg_height m = h} \<subseteq> M"
    and "v \<in> H"
  shows "\<exists>e' out b bs. engine_feeds P (fs v) (e v) = Some (e', out) \<and> committed_blocks out = b # bs
    \<and> blk_attestations b = [att] \<and> block_value b = pm_value pm"
proof -
  have idle: "idle P (reg, tip, h) v (e v)" and safe: "engine_safe k P (e v)" if "v \<in> H" for v using assms(1) that by auto
  note c = proposal_create_Some [OF assms(10)]
  note single = single_value_valid [OF assms(9), of "(e p)\<lparr>e_mempool := [att]\<rparr>"]
  have pl: "plain pm s" using assms(3) bft_threshold_bounds(1) [of "active_keys reg h" s] by (simp add: plain_def c active_set_def)
  have sig: "proposal_verify_sig P pm"
    using idleD(6) [OF idle [OF assms(7)] assms(3)] assms(10) by (rule proposal_create_verifies)
  have valid: "proposed_is_valid P (pm_value pm) tip h s" "pr_attestations (pm_value pm) = [att]"
    using single idle [OF assms(7)] idleD(3,4) [OF idle [OF assms(7)] assms(3)] by (simp_all add: c idle_def)
  define res where "res v = the (engine_feeds P (fs v) (e v))" for v
  have run: "engine_feeds P (fs v) (e v) = Some (fst (res v), snd (res v))" if "v \<in> H" for v
    using engine_feeds_total [OF safe [OF that] assms(2), of "fs v"] assms(12,13) that unfolding res_def by fastforce
  have undist: "undisturbing P pm m" if "v \<in> H" "m \<in> heard (fs v)" for v m using assms(12,13) that by blast
  obtain rest where fp: "fs p = Submitted att # rest" using assms(11) by blast
  have pv: "p \<in> set (set_validators s)" using assms(4,7) by blast
  have hp: "heard rest = M" using assms(7,12) fp by auto
  have undist_rest: "undisturbing P pm m" if "m \<in> heard rest" for m using undist [OF assms(7)] that by (simp add: fp)
  note p = proposing_tracks [OF idle [OF assms(7)] assms(3) pv assms(8-10) pl sig assms(2) undist_rest
      run [OF assms(7), unfolded fp], unfolded hp]
  have track: "tracks P pm s M (snd (res v)) (fst (res v))" if v: "v \<in> H" for v
  proof (cases "v = p")
    case False
    have "proposer (e v) 0 = Some (pm_proposer pm)"
      using idle_proposer [OF idle [OF v] idle [OF assms(7)] assms(3)] assms(8) by (simp add: c)
    from waiting_tracks [OF idle [OF v] assms(3) _ c(1,2) valid(1) this _ pl sig assms(2) undist [OF v] run [OF v]]
    show ?thesis using False v assms(4,12) by (auto simp: c)
  qed (use p in simp)
  have me: "e_me_pk (fst (res v)) = v" if "v \<in> H" for v
    using engine_feeds_me [OF run [OF that]] idleD(5) [OF idle [OF that] assms(3)] by simp
  have drained: "m \<in> M" if "v \<in> H" "m \<in> said (snd (res v))" "msg_height m = pm_height pm" for v m
    using assms(14) run [OF that(1)] that c(1) by blast
  have "Proposal pm \<in> M"
    using drained [OF assms(7) p(2)] by (simp add: msg_height_def)
  with drained_commits [of H P pm s M "snd \<circ> res" "fst \<circ> res" v] track [unfolded tracks_def] me drained assms(5,6,15)
  have "committed_blocks (snd (res v)) \<noteq> []" by simp
  then obtain b bs where b: "committed_blocks (snd (res v)) = b # bs" by (cases "committed_blocks (snd (res v))") auto
  with track [OF assms(15), unfolded tracks_def] have "block_value b = pm_value pm" by (simp add: on_track_def)
  moreover from this valid(2) have "blk_attestations b = [att]" by (metis block_value_def Proposed.select_convs(2))
  ultimately show ?thesis using run [OF assms(15)] b by blast
qed

text \<open>Two validators; the second is the proposer of the first height.\<close>

definition duo_idle :: "VerifyingKey \<Rightarrow> Engine" where
  "duo_idle v = fst (the (start lite_prims (if v = demo_pk then duo_engine else duo_peer)))"

definition duo_keys :: "VerifyingKey list" where
  "duo_keys = [demo_pk, VerifyingKey [2, 2]]"

definition duo_first :: VerifyingKey where
  "duo_first = the (proposer (duo_idle demo_pk) 0)"

definition duo_offer :: ProposalMsg where
  "duo_offer = the (proposal_create lite_prims (e_me_sk (duo_idle duo_first)) duo_first 1 0 None
     (get_value lite_prims ((duo_idle duo_first)\<lparr>e_mempool := [demo_att]\<rparr>)))"

definition duo_msgs :: "ConsensusMsg list" where
  "duo_msgs = Proposal duo_offer # [Vote (the (vote_create lite_prims (e_me_sk (duo_idle v)) v 1 0 vt
     (Some (proposed_id lite_prims (pm_value duo_offer))))). vt \<leftarrow> [VPrevote, VPrecommit], v \<leftarrow> duo_keys]"

definition duo_feeds :: "VerifyingKey \<Rightarrow> Intake list" where
  "duo_feeds v = (if v = duo_first then Submitted demo_att # map Heard duo_msgs else map Heard (rev duo_msgs))"

definition duo_ok :: "VerifyingKey \<Rightarrow> bool" where
  "duo_ok v = (case engine_feeds lite_prims (duo_feeds v) (duo_idle v) of None \<Rightarrow> False
     | Some (e', out) \<Rightarrow> list_all (\<lambda>x. case x of Broadcast m \<Rightarrow> msg_height m = 1 \<longrightarrow> m \<in> set duo_msgs | _ \<Rightarrow> True) out)"

lemma duo_keys_cases: "v \<in> set duo_keys \<longleftrightarrow> v = demo_pk \<or> v = VerifyingKey [2, 2]"
  by (simp add: duo_keys_def)

lemma duo_start:
  assumes "v \<in> set duo_keys"
  shows "\<exists>out. start lite_prims (if v = demo_pk then duo_engine else duo_peer) = Some (duo_idle v, out)"
proof -
  have "start lite_prims duo_engine \<noteq> None" "start lite_prims duo_peer \<noteq> None" by code_simp+
  then show ?thesis by (cases "v = demo_pk") (auto simp: duo_idle_def)
qed

lemma duo_idle_inv: "v \<in> set duo_keys \<Longrightarrow> engine_inv lite_prims (duo_idle v)"
proof -
  assume v: "v \<in> set duo_keys"
  have "engine_inv lite_prims duo_engine" "engine_inv lite_prims duo_peer"
    by (rule engine_inv_with_registry [OF duo_fresh], simp, rule engine_inv_with_registry [OF duo_peer_fresh], simp)
  moreover have "e_round duo_engine = 0 \<and> e_step duo_engine = StPropose \<and> e_round duo_peer = 0 \<and> e_step duo_peer = StPropose"
    by code_simp
  ultimately show ?thesis
    using duo_start [OF v] by (auto dest!: start_steps intro: engine_inv_steps split: if_splits)
qed

definition rests :: "VerifyingKey \<Rightarrow> Engine \<Rightarrow> bool" where
  "rests v e \<longleftrightarrow> chain_of e = (registry_new duo_keys, zero_hash, 1) \<and> e_me_pk e = v \<and> e_parked e
     \<and> e_round e = 0 \<and> e_step e = StPropose \<and> e_locked_round e = None \<and> e_valid_value e = None
     \<and> e_mempool e = [] \<and> e_gov_mempool e = [] \<and> e_proposals e = [] \<and> e_prevotes e = [] \<and> e_precommits e = []
     \<and> e_polka_applied e = {} \<and> e_validators_sorted e \<noteq> []"

lemma duo_rests: "v \<in> set duo_keys \<Longrightarrow> rests v (duo_idle v)"
  unfolding duo_keys_cases by (elim disjE; hypsubst; code_simp)

lemma duo_idle_ok:
  assumes "v \<in> set duo_keys"
  shows "idle lite_prims (registry_new duo_keys, zero_hash, 1) v (duo_idle v)" and "engine_safe demo_pk lite_prims (duo_idle v)"
  using duo_rests [OF assms] duo_idle_inv [OF assms]
  by (auto simp: rests_def idle_def engine_safe_def chain_of_def never_removed_def registry_new_def duo_keys_def)

lemma duo_drained:
  assumes "v \<in> set duo_keys" and "engine_feeds lite_prims (duo_feeds v) (duo_idle v) = Some (e', out)"
  shows "{m \<in> said out. msg_height m = 1} \<subseteq> set duo_msgs"
proof -
  have "duo_ok v" using assms(1) unfolding duo_keys_cases by (elim disjE; hypsubst; code_simp)
  with assms(2) show ?thesis by (fastforce simp: duo_ok_def said_def list_all_iff)
qed

lemma duo_msgs_ok:
  "list_all (\<lambda>m. undisturbing lite_prims duo_offer m \<and> msg_keeps demo_pk m) duo_msgs"
  "active_set (registry_new duo_keys) 1 = Some duo_set" "map (vk_id lite_prims) duo_keys = remdups (map (vk_id lite_prims) duo_keys)"
  "duo_first \<in> set duo_keys" "proposer (duo_idle duo_first) 0 = Some duo_first" "attestation_verify lite_prims demo_att"
  "proposal_create lite_prims (e_me_sk (duo_idle duo_first)) duo_first 1 0 None
     (get_value lite_prims ((duo_idle duo_first)\<lparr>e_mempool := [demo_att]\<rparr>)) = Some duo_offer"
  by code_simp+

theorem timely_messages_commit_witness:
  "\<exists>e' out b bs. engine_feeds lite_prims (duo_feeds demo_pk) (duo_idle demo_pk) = Some (e', out)
     \<and> committed_blocks out = b # bs \<and> blk_attestations b = [demo_att] \<and> block_value b = pm_value duo_offer"
proof (rule timely_messages_commit [where H = "set duo_keys" and e = duo_idle and fs = duo_feeds and v = demo_pk
      and M = "set duo_msgs" and k = demo_pk and s = duo_set and p = duo_first])
  show "\<forall>v\<in>set duo_keys. idle lite_prims (registry_new duo_keys, zero_hash, 1) v (duo_idle v)
      \<and> engine_safe demo_pk lite_prims (duo_idle v)" using duo_idle_ok by blast
  show "\<forall>v\<in>set duo_keys. \<forall>e' out. engine_feeds lite_prims (duo_feeds v) (duo_idle v) = Some (e', out) \<longrightarrow>
      {m \<in> said out. msg_height m = 1} \<subseteq> set duo_msgs" using duo_drained by blast
  have "card (set duo_keys) = 2" by code_simp
  then show "set_threshold duo_set \<le> card (set duo_keys)" by (simp add: duo_set_def)
  show "\<exists>rest. duo_feeds duo_first = Submitted demo_att # rest" by (simp add: duo_feeds_def)
  show "inj_on (vk_id lite_prims) (set duo_keys)"
    using duo_msgs_ok(3) by (metis distinct_map distinct_remdups)
  show "\<forall>v\<in>set duo_keys. heard (duo_feeds v) = set duo_msgs" by (auto simp: duo_feeds_def heard_def)
qed (use duo_msgs_ok in \<open>simp_all add: duo_feeds_def list_all_iff duo_keys_def duo_set_def\<close>)

end
