(* ===== verification/Catch_Up.thy ===== *)
theory Catch_Up
  imports Node_Total
begin

text \<open>
  Catching up: a node that lags behind asks for the blocks after its own, a peer answers with a batch
  from its store, and the node adopts them. Two nodes are composed by handing the messages one
  sends to the other.
\<close>

section \<open>Two nodes\<close>

text \<open>A node receives what another has sent.\<close>

fun hear ::
  "prims \<Rightarrow> (SlcBlock \<Rightarrow> string option) \<Rightarrow> node_env \<Rightarrow> NodeOut list \<Rightarrow> Node \<Rightarrow> (Node \<times> NodeOut list) option" where
  "hear P ser env [] n = Some (n, [])"
| "hear P ser env (Send msg # rest) n =
     do { (n1, out1) \<leftarrow> node_event P ser env (EvWire msg) n; (n2, out2) \<leftarrow> hear P ser env rest n1; Some (n2, out1 @ out2) }"
| "hear P ser env (Arm h r kind d # rest) n = hear P ser env rest n"

text \<open>The poll of \<open>n\<close>, the answer of \<open>m\<close>, and its adoption.\<close>

definition sync_exchange ::
  "prims \<Rightarrow> (SlcBlock \<Rightarrow> string option) \<Rightarrow> node_env \<Rightarrow> Node \<times> Node \<Rightarrow> (Node \<times> Node) option" where
  "sync_exchange P ser env mn = (case mn of (m, n) \<Rightarrow>
     do {
       (n1, poll) \<leftarrow> node_event P ser env EvSyncPoll n;
       (m1, answer) \<leftarrow> hear P ser env poll m;
       (n2, out) \<leftarrow> hear P ser env answer n1;
       Some (m1, n2)
     })"

fun sync_exchanges ::
  "prims \<Rightarrow> (SlcBlock \<Rightarrow> string option) \<Rightarrow> node_env list \<Rightarrow> Node \<times> Node \<Rightarrow> (Node \<times> Node) option" where
  "sync_exchanges P ser [] mn = Some mn"
| "sync_exchanges P ser (env # envs) mn = do { mn1 \<leftarrow> sync_exchange P ser env mn; sync_exchanges P ser envs mn1 }"

section \<open>The batch\<close>

lemma filter_prefix:
  assumes "\<And>j. j < length xs \<Longrightarrow> p (xs ! j) \<longleftrightarrow> j < k"
  shows "filter p xs = take k xs"
proof -
  have "filter p (take k xs) = take k xs"
    by (rule filter_True) (use assms in \<open>auto simp: in_set_conv_nth\<close>)
  moreover have "filter p (drop k xs) = []"
    by (rule filter_False) (use assms in \<open>auto simp: in_set_conv_nth\<close>)
  ultimately show ?thesis by (metis append_take_drop_id filter_append append_Nil2)
qed

lemma chain_heights:
  assumes "chain_valid P st bs" and "i < length bs"
  shows "bh_height (blk_header (bs ! i)) = snd (snd st) + of_nat i"
proof -
  obtain reg tip h where at: "foldl (chain_step P) st (take i bs) = (reg, tip, h)" by (metis prod_cases3)
  from chain_valid_nth [OF assms] have "bh_height (blk_header (bs ! i)) = h"
    by (auto simp: at proposed_is_valid_iff block_value_def split: option.splits)
  moreover have "h = snd (snd st) + of_nat i" using chain_height [of P st "take i bs"] assms(2) by (simp add: at)
  ultimately show ?thesis by simp
qed

text \<open>Heights do not wrap below the bound.\<close>

lemma height_order:
  fixes h :: u64
  assumes "unat h + i < 2 ^ 64" and "unat h + j < 2 ^ 64"
  shows "h + of_nat i < h + of_nat j \<longleftrightarrow> i < j"
proof -
  have "unat (h + of_nat k) = unat h + k" if "unat h + k < 2 ^ 64" for k
    using that by (simp add: unat_word_ariths unat_of_nat)
  with assms show ?thesis by (simp add: word_less_nat_alt)
qed

lemma batch_is_next:
  assumes "chain_valid P st (pre @ rest)" and "unat (snd (snd st)) + length (pre @ rest) + 50 < 2 ^ 64"
  shows "filter (\<lambda>b. snd (snd st) + of_nat (length pre) \<le> bh_height (blk_header b)
      \<and> bh_height (blk_header b) < snd (snd st) + of_nat (length pre) + MAX_SYNC_BATCH) (pre @ rest) = take 50 rest"
proof -
  let ?h = "snd (snd st)"
  have at: "bh_height (blk_header ((pre @ rest) ! i)) = ?h + of_nat i" if "i < length (pre @ rest)" for i
    using chain_heights [OF assms(1) that] .
  let ?p = "\<lambda>b. ?h + of_nat (length pre) \<le> bh_height (blk_header b) \<and> bh_height (blk_header b) < ?h + of_nat (length pre) + MAX_SYNC_BATCH"
  have "filter ?p pre = []"
  proof (rule filter_False, clarify)
    fix b assume "b \<in> set pre" and le: "?h + of_nat (length pre) \<le> bh_height (blk_header b)"
    then obtain i where "i < length pre" "b = pre ! i" by (auto simp: in_set_conv_nth)
    with at [of i] height_order [of ?h i "length pre"] assms(2) le show False by (simp add: nth_append)
  qed
  moreover have "filter ?p rest = take 50 rest"
  proof (rule filter_prefix)
    fix j assume j: "j < length rest"
    have bound: "?h + of_nat (length pre) + MAX_SYNC_BATCH = ?h + of_nat (length pre + 50)"
      by (simp add: MAX_SYNC_BATCH_def)
    have "bh_height (blk_header (rest ! j)) = ?h + of_nat (length pre + j)"
      using at [of "length pre + j"] j by (simp add: nth_append)
    with height_order [of ?h "length pre + j" "length pre"] height_order [of ?h "length pre + j" "length pre + 50"] assms(2) j
    show "?p (rest ! j) \<longleftrightarrow> j < 50" unfolding bound by (simp add: not_less [symmetric] del: of_nat_add)
  qed
  ultimately show ?thesis by simp
qed

lemma batch_sorted:
  assumes "chain_valid P st bs" and "unat (snd (snd st)) + length bs < 2 ^ 64"
  shows "sort_key (\<lambda>b. bh_height (blk_header b)) bs = bs"
proof (rule sort_key_id_if_sorted, unfold sorted_iff_nth_mono, intro allI impI)
  fix i j assume "i \<le> j" and "j < length (map (\<lambda>b. bh_height (blk_header b)) bs)"
  with chain_heights [OF assms(1)] height_order [of "snd (snd st)" j i] assms(2)
  show "map (\<lambda>b. bh_height (blk_header b)) bs ! i \<le> map (\<lambda>b. bh_height (blk_header b)) bs ! j"
    by (simp add: not_less [symmetric])
qed

section \<open>Adopting it\<close>

definition blank :: "Engine \<Rightarrow> bool" where
  "blank e \<longleftrightarrow> e_proposals e = [] \<and> e_prevotes e = [] \<and> e_precommits e = [] \<and> e_round e = 0 \<and> e_step e = StPropose
     \<and> e_valid_value e = None"

definition at_chain :: "prims \<Rightarrow> chain_state \<Rightarrow> Engine \<Rightarrow> bool" where
  "at_chain P st e \<longleftrightarrow> engine_inv P e \<and> chain_of e = st \<and> e_mempool e = [] \<and> e_gov_mempool e = []"

lemma at_chain_clock: "at_chain P st e \<Longrightarrow> at_chain P st (set_time now e)"
  using engine_inv_step [OF fed_step.by_clock] by (auto simp: at_chain_def set_time_def chain_of_def)

lemma adopt_next:
  assumes e: "at_chain P st e" and b: "block_accepted P st b" and k: "never_removed k (fst st)" "block_keeps k b"
  shows "\<exists>e'. apply_synced_block P b e = Some (Inr e') \<and> at_chain P (chain_step P st b) e' \<and> blank e'
    \<and> bh_height (blk_header b) = e_height e"
proof -
  obtain reg tip h where st: "st = (reg, tip, h)" by (metis prod_cases3)
  from e have at: "e_registry e = reg" "e_tip e = tip" "e_height e = h"
    and set_at: "active_set reg h = Some (e_current_set e)" and inv: "engine_inv P e"
    by (auto simp: at_chain_def chain_of_def st engine_inv_def roster_ok_def)
  from b set_at have v: "proposed_is_valid P (block_value b) tip h (e_current_set e)"
    "qc_verify P (blk_qc b) (blk_header b) (e_current_set e) = Inr ()" by (auto simp: st)
  then have hd: "bh_height (blk_header b) = h" "bh_prev_hash (blk_header b) = tip"
    by (auto simp: proposed_is_valid_iff block_value_def)
  obtain s where s: "active_set (record_governance (blk_governance b) reg) (h + 1) = Some s"
    using active_set_total [OF never_removed_record [OF _ k(2)]] k(1) by (fastforce simp: st)
  obtain e' where e': "apply_synced_block P b e = Some (Inr e')" and "blank e'" "e_mempool e' = []" "e_gov_mempool e' = []"
    using v hd s e by (auto simp: apply_synced_block_def reload_set_def at Let_def blank_def reset_height_state_def at_chain_def)
  with synced_chain(1) [OF e'] engine_inv_synced [OF inv e'] e hd at show ?thesis by (auto simp: at_chain_def)
qed

lemma sync_loop_adopts:
  assumes "chain_valid P st bs" and "at_chain P st (nd_engine n)" and "never_removed k (fst st)" and "\<forall>b\<in>set bs. block_keeps k b"
  shows "\<exists>n'. sync_loop P ser env bs applied n = Some (applied \<or> bs \<noteq> [], n') \<and> nd_running n' = nd_running n
    \<and> bs_blocks (nd_store n') = bs_blocks (nd_store n) @ bs \<and> at_chain P (foldl (chain_step P) st bs) (nd_engine n')
    \<and> (bs \<noteq> [] \<longrightarrow> blank (nd_engine n'))"
  using assms
proof (induction bs arbitrary: n st applied)
  case (Cons b bs)
  from adopt_next [OF Cons.prems(2) _ Cons.prems(3)] Cons.prems(1,4) obtain e' where
    a: "apply_synced_block P b (nd_engine n) = Some (Inr e')" "at_chain P (chain_step P st b) e'" "blank e'"
    "bh_height (blk_header b) = e_height (nd_engine n)" by auto
  let ?n = "n\<lparr>nd_engine := e', nd_store := store_append ser (env_write_ok env) b (nd_store n)\<rparr>"
  have k: "never_removed k (fst (chain_step P st b))" using never_removed_chain [of k st "[b]" P] Cons.prems(3,4) by simp
  from Cons.IH [of "chain_step P st b" ?n True] Cons.prems a k obtain n' where
    n': "sync_loop P ser env bs True ?n = Some (True, n')" "nd_running n' = nd_running n"
    "bs_blocks (nd_store n') = bs_blocks (nd_store ?n) @ bs"
    "at_chain P (foldl (chain_step P) (chain_step P st b) bs) (nd_engine n')" "bs \<noteq> [] \<longrightarrow> blank (nd_engine n')" by auto
  moreover have "blank (nd_engine n')" using n'(1,5) a(3) by (cases bs) auto
  ultimately show ?case using a by auto
qed simp

lemma advance_blank:
  assumes "blank e" and "0 < e_quorum e" and "iter_ok P"
  shows "advance P e = Some (e, [])"
proof -
  have "iter_rounds P [] = []" using assms(3) unfolding iter_ok_def reorders_def by (metis mset_zero_iff mset.simps(1))
  then have "advance_once P e = Some (False, e, [])"
    using assms(1,2) by (simp add: advance_once_def or_else_def try_commit_def hm_iter_def try_skip_def skip_rounds_def hm_keys_def
        try_prevote_on_proposal_def try_prevote_on_reproposal_def try_schedule_prevote_timeout_def try_precommit_on_polka_def
        try_precommit_nil_def try_schedule_precommit_timeout_def count_precommits_def count_prevotes_def count_votes_def blank_def)
  then show ?thesis by (simp add: advance.simps)
qed

lemma resume_parks:
  assumes "at_chain P st e" and "blank e" and "iter_ok P"
  shows "\<exists>e'. resume P e = Some (e', []) \<and> at_chain P st e'"
proof -
  let ?e = "e\<lparr>e_round := 0, e_step := StPropose, e_parked := True\<rparr>"
  have start: "start_round P 0 e = Some (?e, [])" using assms by (simp add: start_round_def blank_def at_chain_def)
  have "0 < e_quorum ?e"
    using assms(1) bft_threshold_bounds(1) [of "active_keys (e_registry e) (e_height e)" "e_current_set e"]
    by (simp add: at_chain_def engine_inv_def roster_ok_def active_set_def e_quorum_def)
  with assms(2) have "resume P e = Some (?e, [])"
    using advance_blank [of ?e P] assms(3) by (simp add: resume_def start then_advance_def blank_def)
  moreover have "engine_inv P ?e" using assms by (intro engine_inv_start_round [OF _ _ start]) (simp_all add: at_chain_def blank_def)
  ultimately show ?thesis using assms(1) by (auto simp: at_chain_def chain_of_def)
qed

section \<open>An exchange\<close>

definition lags :: "prims \<Rightarrow> chain_state \<Rightarrow> SlcBlock list \<Rightarrow> Node \<Rightarrow> bool" where
  "lags P st bs n \<longleftrightarrow> nd_running n \<and> bs_blocks (nd_store n) = bs \<and> at_chain P (foldl (chain_step P) st bs) (nd_engine n)"

lemma answer_batch:
  assumes "nd_running m" and "bs_blocks (nd_store m) = pre @ rest" and "chain_valid P st (pre @ rest)"
    and "unat (snd (snd st)) + length (pre @ rest) + 50 < 2 ^ 64"
  shows "\<exists>m'. hear P ser env [Send (WGetBlocks (snd (snd st) + of_nat (length pre)))] m =
      Some (m', if rest = [] then [] else [Send (WBlocks (take 50 rest))])
    \<and> nd_running m' \<and> bs_blocks (nd_store m') = pre @ rest"
  using assms(1,2) batch_is_next [OF assms(3,4)]
  by (simp add: node_event_def dispatch_def dispatch_wire_def snapshot_def Let_def)

lemma adopt_batch:
  assumes n: "lags P st pre n" and v: "chain_valid P st (pre @ bs)" and ht: "unat (snd (snd st)) + length (pre @ bs) < 2 ^ 64"
    and k: "never_removed k (fst st)" "\<forall>b\<in>set (pre @ bs). block_keeps k b" and it: "iter_ok P" and "bs \<noteq> []"
  shows "\<exists>n' out. node_event P ser env (EvWire (WBlocks bs)) n = Some (n', out) \<and> lags P st (pre @ bs) n'"
proof -
  let ?st = "foldl (chain_step P) st pre" and ?n = "n\<lparr>nd_engine := set_time (env_now env) (nd_engine n)\<rparr>"
  from v have vb: "chain_valid P ?st bs" by (simp add: chain_valid_append)
  have "unat (snd (snd ?st)) + length bs < 2 ^ 64"
    using ht chain_height [of P st pre] by (simp add: unat_word_ariths unat_of_nat)
  note sorted = batch_sorted [OF vb this]
  have "never_removed k (fst ?st)" using k by (intro never_removed_chain) auto
  from sync_loop_adopts [OF vb _ this, of ?n ser env False] n k(2) at_chain_clock \<open>bs \<noteq> []\<close> obtain n1 where
    n1: "sync_loop P ser env bs False ?n = Some (True, n1)" "nd_running n1" "bs_blocks (nd_store n1) = pre @ bs"
    "at_chain P (foldl (chain_step P) ?st bs) (nd_engine n1)" "blank (nd_engine n1)" by (auto simp: lags_def)
  from resume_parks [OF n1(4,5) it] obtain e' where "resume P (nd_engine n1) = Some (e', [])"
    "at_chain P (foldl (chain_step P) ?st bs) e'" by blast
  with n n1 sorted show ?thesis
    by (simp add: node_event_def dispatch_def dispatch_wire_def lift_engine_def lags_def)
qed

lemma sync_exchange_next:
  assumes n: "lags P st pre n" and m: "nd_running m" "bs_blocks (nd_store m) = pre @ rest"
    and v: "chain_valid P st (pre @ rest)" and ht: "unat (snd (snd st)) + length (pre @ rest) + 50 < 2 ^ 64"
    and k: "never_removed k (fst st)" "\<forall>b\<in>set (pre @ rest). block_keeps k b" and it: "iter_ok P"
  shows "\<exists>m' n'. sync_exchange P ser env (m, n) = Some (m', n') \<and> lags P st (pre @ take 50 rest) n'
    \<and> nd_running m' \<and> bs_blocks (nd_store m') = pre @ rest"
proof -
  let ?n = "n\<lparr>nd_engine := set_time (env_now env) (nd_engine n)\<rparr>"
  have lags: "lags P st pre ?n" using n at_chain_clock by (auto simp: lags_def)
  have "e_height (nd_engine n) = snd (snd st) + of_nat (length pre)"
    using n chain_height [of P st pre] by (simp add: lags_def at_chain_def chain_of_def) (metis snd_conv)
  then have poll: "node_event P ser env EvSyncPoll n = Some (?n, [Send (WGetBlocks (snd (snd st) + of_nat (length pre)))])"
    using n by (simp add: node_event_def dispatch_def lags_def set_time_def)
  from answer_batch [OF m v ht] obtain m' where
    ans: "hear P ser env [Send (WGetBlocks (snd (snd st) + of_nat (length pre)))] m =
      Some (m', if rest = [] then [] else [Send (WBlocks (take 50 rest))])"
    and m': "nd_running m'" "bs_blocks (nd_store m') = pre @ rest" by blast
  show ?thesis
  proof (cases "rest = []")
    case True
    with poll ans m' lags show ?thesis by (simp add: sync_exchange_def del: hear.simps(2))
  next
    case False
    have vt: "chain_valid P st (pre @ take 50 rest)"
      using v by (metis append_assoc append_take_drop_id chain_valid_append)
    have "\<exists>n' out. node_event P ser env (EvWire (WBlocks (take 50 rest))) ?n = Some (n', out)
        \<and> lags P st (pre @ take 50 rest) n'"
      using ht k(2) False by (intro adopt_batch [OF lags vt _ k(1) _ it]) (auto dest: in_set_takeD)
    then obtain n' out where "hear P ser env [Send (WBlocks (take 50 rest))] ?n = Some (n', out)" "lags P st (pre @ take 50 rest) n'"
      by auto
    with poll ans m' False show ?thesis by (simp add: sync_exchange_def del: hear.simps(2))
  qed
qed

lemma sync_exchanges_catch_up:
  assumes "lags P st pre n" and "nd_running m" "bs_blocks (nd_store m) = pre @ rest"
    and "chain_valid P st (pre @ rest)" and "unat (snd (snd st)) + length (pre @ rest) + 50 < 2 ^ 64"
    and "never_removed k (fst st)" "\<forall>b\<in>set (pre @ rest). block_keeps k b" and "iter_ok P"
  shows "\<exists>m' n'. sync_exchanges P ser envs (m, n) = Some (m', n')
    \<and> lags P st (pre @ take (50 * length envs) rest) n' \<and> nd_running m' \<and> bs_blocks (nd_store m') = pre @ rest"
  using assms
proof (induction envs arbitrary: m n pre rest)
  case (Cons env envs)
  from sync_exchange_next [OF Cons.prems, of ser env] obtain m1 n1 where
    x: "sync_exchange P ser env (m, n) = Some (m1, n1)" and n1: "lags P st (pre @ take 50 rest) n1"
    and m1: "nd_running m1" "bs_blocks (nd_store m1) = (pre @ take 50 rest) @ drop 50 rest" by auto
  have "take 50 rest @ take (50 * length envs) (drop 50 rest) = take (50 * length (env # envs)) rest"
    by (simp add: take_add [symmetric])
  with Cons.IH [OF n1 m1] Cons.prems x show ?case by simp
qed simp

end
