(* ===== verification/Catch_Up_Props.thy ===== *)
theory Catch_Up_Props
  imports Catch_Up Scenario
begin







end
