(* ===== verification/Agreement.thy ===== *)
theory Agreement
  imports Engine_Safety
begin

text \<open>
  Why two honest validators do not decide differently. The first part is the argument on votes alone,
  for any quorum system: a locked value stays the only one that can gather a quorum of prevotes.
  The second part shows that an engine keeps the rules this argument needs, over any run in which the
  votes that reach it under an honest validator's name are votes that validator has sent.
\<close>

section \<open>Locked values\<close>

context quorums
begin

definition polka :: "('v \<Rightarrow> 'r \<Rightarrow> 'b \<Rightarrow> bool) \<Rightarrow> 'r \<Rightarrow> 'b \<Rightarrow> bool" where
  "polka votes r a \<longleftrightarrow> (\<exists>Q. is_quorum Q \<and> (\<forall>v\<in>Q. votes v r a))"

lemma polka_member:
  assumes "polka votes r a" and "polka votes' r' b" and "finite B" and "card B \<le> faults"
  shows "\<exists>v. v \<notin> B \<and> votes v r a \<and> votes' v r' b"
  using assms honest_common_member unfolding polka_def by blast

text \<open>
  \<open>B\<close> are the members that need not keep the rules. The others prevote one value per round, precommit
  a value that has a quorum of prevotes in the round, and prevote another value later only if
  that value had a quorum of prevotes in between.
\<close>

lemma locked_value_stays:
  fixes pv pc :: "'v \<Rightarrow> 'r::wellorder \<Rightarrow> 'b \<Rightarrow> bool"
  assumes few: "finite B" "card B \<le> faults"
    and once: "\<And>v r a b. v \<notin> B \<Longrightarrow> pv v r a \<Longrightarrow> pv v r b \<Longrightarrow> a = b"
    and justified: "\<And>v r a. v \<notin> B \<Longrightarrow> pc v r a \<Longrightarrow> polka pv r a"
    and locked: "\<And>v r a r' b. v \<notin> B \<Longrightarrow> pc v r a \<Longrightarrow> pv v r' b \<Longrightarrow> r < r' \<Longrightarrow> b \<noteq> a \<Longrightarrow>
      \<exists>vr. r \<le> vr \<and> vr < r' \<and> polka pv vr b"
    and decided: "polka pc r a"
  shows "r \<le> r' \<Longrightarrow> polka pv r' b \<Longrightarrow> b = a"
proof (induction r' rule: less_induct)
  case (less r')
  show ?case
  proof (cases "r = r'")
    case True
    from polka_member [OF decided decided few] obtain w where "w \<notin> B" "pc w r a" by blast
    then have "polka pv r' a" using justified True by blast
    from polka_member [OF less.prems(2) this few] show ?thesis using once by blast
  next
    case False
    with less.prems(1) have "r < r'" by simp
    from polka_member [OF decided less.prems(2) few] obtain w where w: "w \<notin> B" "pc w r a" "pv w r' b" by blast
    show ?thesis
    proof (rule ccontr)
      assume "b \<noteq> a"
      from locked [OF w \<open>r < r'\<close> this] less.IH \<open>b \<noteq> a\<close> show False by blast
    qed
  qed
qed

theorem decisions_agree:
  fixes pv pc :: "'v \<Rightarrow> 'r::wellorder \<Rightarrow> 'b \<Rightarrow> bool"
  assumes few: "finite B" "card B \<le> faults"
    and once: "\<And>v r a b. v \<notin> B \<Longrightarrow> pv v r a \<Longrightarrow> pv v r b \<Longrightarrow> a = b"
    and justified: "\<And>v r a. v \<notin> B \<Longrightarrow> pc v r a \<Longrightarrow> polka pv r a"
    and locked: "\<And>v r a r' b. v \<notin> B \<Longrightarrow> pc v r a \<Longrightarrow> pv v r' b \<Longrightarrow> r < r' \<Longrightarrow> b \<noteq> a \<Longrightarrow>
      \<exists>vr. r \<le> vr \<and> vr < r' \<and> polka pv vr b"
    and decided: "polka pc r a" "polka pc r' b"
  shows "a = b"
proof -
  have polka: "polka pv s c" if "polka pc s c" for s c
    using polka_member [OF that that few] justified by blast
  show ?thesis
  proof (cases "r \<le> r'")
    case True
    from locked_value_stays [OF few once justified locked decided(1) True polka [OF decided(2)]] show ?thesis by simp
  next
    case False
    then have "r' \<le> r" by simp
    from locked_value_stays [OF few once justified locked decided(2) this polka [OF decided(1)]] show ?thesis .
  qed
qed

end

section \<open>Ballots\<close>

text \<open>A ballot is a vote without its signature: who votes for what in which height, round and step.\<close>

type_synonym ballot = "VerifyingKey \<times> u64 \<times> u64 \<times> VoteType \<times> Hash option"

definition ballot :: "VoteMsg \<Rightarrow> ballot" where
  "ballot vm = (vm_voter vm, vm_height vm, vm_round vm, vm_vote_type vm, vm_block_id vm)"

definition cast :: "Effect list \<Rightarrow> ballot set" where
  "cast out = ballot ` set (votes_sent out)"

lemma cast_append [simp]: "cast (xs @ ys) = cast xs \<union> cast ys"
  by (auto simp: cast_def)

text \<open>The votes an engine holds under the names of the validators \<open>H\<close> are among the ballots \<open>K\<close>.\<close>

definition store_heard :: "VerifyingKey set \<Rightarrow> ballot set \<Rightarrow> vote_store \<Rightarrow> bool" where
  "store_heard H K store \<longleftrightarrow> (\<forall>r m k vm. hm_get store r = Some m \<longrightarrow> hm_get m k = Some vm \<longrightarrow>
     vm_voter vm \<in> H \<longrightarrow> ballot vm \<in> K)"

lemma store_heard_Nil [simp]: "store_heard H K []"
  by (simp add: store_heard_def)

lemma store_heard_mono: "store_heard H K st \<Longrightarrow> K \<subseteq> K' \<Longrightarrow> store_heard H K' st"
  by (auto simp: store_heard_def)

lemma store_heard_own:
  "store_heard H K st \<Longrightarrow> ballot vm \<in> K \<Longrightarrow> store_heard H K (store_own_vote P e vm st)"
  by (auto simp: store_heard_def store_own_vote_def split: option.splits if_splits)

lemma store_heard_ingest:
  "store_heard H K st \<Longrightarrow> (vm_voter vm \<in> H \<Longrightarrow> ballot vm \<in> K) \<Longrightarrow> store_heard H K (store_vote P vm st)"
  by (auto simp: store_heard_def store_vote_def hm_get_or_insert split: option.splits if_splits)

text \<open>A quorum of the roster \<open>vals\<close> whose members in \<open>H\<close> have voted for \<open>a\<close>.\<close>

definition votes_for ::
  "VerifyingKey set \<Rightarrow> ballot set \<Rightarrow> VerifyingKey list \<Rightarrow> u64 \<Rightarrow> VoteType \<Rightarrow> VerifyingKey \<Rightarrow> u64 \<Rightarrow> Hash \<Rightarrow> bool" where
  "votes_for H K vals h vt v r a \<longleftrightarrow> v \<in> set vals \<and> (v \<in> H \<longrightarrow> (v, h, r, vt, Some a) \<in> K)"

definition backed ::
  "VerifyingKey set \<Rightarrow> ballot set \<Rightarrow> VerifyingKey list \<Rightarrow> u64 \<Rightarrow> VoteType \<Rightarrow> u64 \<Rightarrow> Hash \<Rightarrow> bool" where
  "backed H K vals h vt = bft.polka vals (votes_for H K vals h vt)"

lemma backed_iff:
  "backed H K vals h vt r a \<longleftrightarrow> (\<exists>Q. bft_quorum vals Q \<and> (\<forall>v\<in>Q \<inter> H. (v, h, r, vt, Some a) \<in> K))"
  by (auto simp: backed_def bft.polka_def votes_for_def bft_quorum_def)

lemma backed_mono: "backed H K vals h vt r a \<Longrightarrow> K \<subseteq> K' \<Longrightarrow> backed H K' vals h vt r a"
  by (auto simp: backed_iff)

text \<open>What the counters of the engine count.\<close>

lemma count_backed:
  assumes store: "store_ok P h me vset vt st" and heard: "store_heard H K st"
    and me: "vs_contains vset me" and vset: "validator_set_bft vals = Some vset"
    and q: "set_threshold vset \<le> count_votes st r (MId a)"
  shows "backed H K vals h vt r a"
proof -
  have "1 \<le> set_threshold vset" and vals: "set_validators vset = vals"
    using vset bft_threshold_bounds by (auto simp: bft_Some_iff)
  with q obtain m where m: "hm_get st r = Some m" by (auto simp: count_votes_def split: option.splits)
  let ?kvs = "filter (\<lambda>(k, vm). vm_block_id vm = Some a) m"
  have ok: "vote_ok P h me vset vt r k vm" "vm_voter vm \<in> H \<Longrightarrow> ballot vm \<in> K" if "(k, vm) \<in> set ?kvs" for k vm
    using that store heard m by (auto simp: store_ok_def store_heard_def hm_mem_get)
  have voters: "(vm_voter \<circ> snd) ` set ?kvs \<subseteq> set vals"
  proof
    fix v assume "v \<in> (vm_voter \<circ> snd) ` set ?kvs"
    then obtain k vm where "(k, vm) \<in> set ?kvs" "v = vm_voter vm" by auto
    with ok(1) [of k vm] me vals show "v \<in> set vals" by (auto simp: vote_ok_def)
  qed
  have "inj_on (vm_voter \<circ> snd) (set ?kvs)"
  proof (rule inj_onI)
    fix x y assume xy: "x \<in> set ?kvs" "y \<in> set ?kvs" "(vm_voter \<circ> snd) x = (vm_voter \<circ> snd) y"
    then have "fst x = fst y" using ok(1) [of "fst x" "snd x"] ok(1) [of "fst y" "snd y"] by (simp add: vote_ok_def)
    with xy store m show "x = y" by (auto simp: store_ok_def hm_mem_get)
  qed
  moreover have "distinct ?kvs"
    using store m by (auto simp: store_ok_def hm_wf_def distinct_map)
  ultimately have "card ((vm_voter \<circ> snd) ` set ?kvs) = length ?kvs"
    using card_image distinct_card by metis
  moreover have "length ?kvs = count_votes st r (MId a)"
    by (simp add: count_votes_def m hm_values_def filter_map comp_def case_prod_unfold)
  ultimately have "bft_quorum vals ((vm_voter \<circ> snd) ` set ?kvs)"
    using q vset voters by (auto simp: bft_quorum_def)
  moreover have "(v, h, r, vt, Some a) \<in> K" if "v \<in> (vm_voter \<circ> snd) ` set ?kvs \<inter> H" for v
  proof -
    from that obtain k vm where kv: "(k, vm) \<in> set ?kvs" and v: "v = vm_voter vm" "v \<in> H" by auto
    from ok [OF kv] v kv show ?thesis by (auto simp: ballot_def vote_ok_def)
  qed
  ultimately show ?thesis by (auto simp: backed_iff)
qed

section \<open>The history of a validator\<close>

text \<open>The roster in force at a height on the chain \<open>cs\<close> that continues the state \<open>st\<close>.\<close>

definition roster_at :: "prims \<Rightarrow> chain_state \<Rightarrow> SlcBlock list \<Rightarrow> u64 \<Rightarrow> VerifyingKey list" where
  "roster_at P st cs h = active_keys (fst (foldl (chain_step P) st (take (unat (h - snd (snd st))) cs))) h"

lemma roster_at_grows [simp]:
  "unat (h - snd (snd st)) \<le> length cs \<Longrightarrow> roster_at P st (cs @ ds) h = roster_at P st cs h"
  by (simp add: roster_at_def)

text \<open>
  The rules of the vote, over the labels \<open>hist\<close> of a validator's run and the ballots \<open>K\<close> cast by all
  honest validators: it votes once per slot and only up to its position, a precommit of a value
  has a quorum of prevotes, a prevote against an earlier precommit has one in between, and every
  block it builds on either had a quorum of precommits or was decided elsewhere (\<open>D\<close>).
\<close>

definition votes_placed :: "chain_state \<Rightarrow> Effect list \<Rightarrow> Engine \<Rightarrow> bool" where
  "votes_placed st hist e \<longleftrightarrow> distinct (map slot (votes_sent hist))
     \<and> (\<forall>vm\<in>set (votes_sent hist). vm_voter vm = e_me_pk e \<and> slot vm < position e
           \<and> unat (vm_height vm - snd (snd st)) \<le> length (committed_blocks hist))"

definition lock_recorded :: "prims \<Rightarrow> Effect list \<Rightarrow> Engine \<Rightarrow> bool" where
  "lock_recorded P hist e \<longleftrightarrow>
     (\<forall>lr. e_locked_round e = Some lr \<longrightarrow> (\<exists>v. e_locked_value e = Some v
        \<and> (e_me_pk e, e_height e, lr, VPrecommit, Some (proposed_id P v)) \<in> cast hist))
     \<and> (\<forall>r a. (e_me_pk e, e_height e, r, VPrecommit, Some a) \<in> cast hist \<longrightarrow>
          (\<exists>lr. e_locked_round e = Some lr \<and> r \<le> lr))"

definition precommits_justified ::
  "VerifyingKey set \<Rightarrow> ballot set \<Rightarrow> prims \<Rightarrow> chain_state \<Rightarrow> SlcBlock list \<Rightarrow> ballot set \<Rightarrow> bool" where
  "precommits_justified H K P st cs mine \<longleftrightarrow> (\<forall>v h r a. (v, h, r, VPrecommit, Some a) \<in> mine \<longrightarrow>
     backed H K (roster_at P st cs h) h VPrevote r a)"

definition locks_respected ::
  "VerifyingKey set \<Rightarrow> ballot set \<Rightarrow> prims \<Rightarrow> chain_state \<Rightarrow> SlcBlock list \<Rightarrow> ballot set \<Rightarrow> bool" where
  "locks_respected H K P st cs mine \<longleftrightarrow> (\<forall>v h r a r' b.
     (v, h, r, VPrecommit, Some a) \<in> mine \<longrightarrow> (v, h, r', VPrevote, Some b) \<in> mine \<longrightarrow> r < r' \<longrightarrow> b \<noteq> a \<longrightarrow>
     (\<exists>vr. r \<le> vr \<and> vr < r' \<and> backed H K (roster_at P st cs h) h VPrevote vr b))"

definition blocks_decided ::
  "VerifyingKey set \<Rightarrow> ballot set \<Rightarrow> prims \<Rightarrow> chain_state \<Rightarrow> (u64 \<times> Hash) set \<Rightarrow> SlcBlock list \<Rightarrow> bool" where
  "blocks_decided H K P st D cs \<longleftrightarrow> (\<forall>i<length cs.
     let h = snd (snd st) + of_nat i; a = header_id P (blk_header (cs ! i)) in
     bh_height (blk_header (cs ! i)) = h
     \<and> ((h, a) \<in> D \<or> (\<exists>r. backed H K (roster_at P st cs h) h VPrecommit r a)))"

definition engine_heard :: "VerifyingKey set \<Rightarrow> ballot set \<Rightarrow> Engine \<Rightarrow> bool" where
  "engine_heard H K e \<longleftrightarrow> store_heard H K (e_prevotes e) \<and> store_heard H K (e_precommits e)"

definition history_ok ::
  "VerifyingKey set \<Rightarrow> prims \<Rightarrow> chain_state \<Rightarrow> ballot set \<Rightarrow> (u64 \<times> Hash) set \<Rightarrow> Effect list \<Rightarrow> Engine \<Rightarrow> bool" where
  "history_ok H P st K D hist e \<longleftrightarrow>
     engine_inv P e \<and> chain_of e = foldl (chain_step P) st (committed_blocks hist)
     \<and> engine_heard H (K \<union> cast hist) e \<and> votes_placed st hist e \<and> lock_recorded P hist e
     \<and> precommits_justified H (K \<union> cast hist) P st (committed_blocks hist) (cast hist)
     \<and> locks_respected H (K \<union> cast hist) P st (committed_blocks hist) (cast hist)
     \<and> blocks_decided H (K \<union> cast hist) P st D (committed_blocks hist)"

text \<open>The run has not exhausted the heights.\<close>

definition room :: "chain_state \<Rightarrow> Effect list \<Rightarrow> bool" where
  "room st hist \<longleftrightarrow> unat (snd (snd st)) + length (committed_blocks hist) < 2 ^ 64"

lemma history_height:
  assumes "chain_of e = foldl (chain_step P) st (committed_blocks hist)" and "room st hist"
  shows "e_height e = snd (snd st) + of_nat (length (committed_blocks hist))"
    and "unat (e_height e - snd (snd st)) = length (committed_blocks hist)"
    and "unat (e_height e) = unat (snd (snd st)) + length (committed_blocks hist)"
proof -
  let ?n = "length (committed_blocks hist)"
  from chain_height [of P st "committed_blocks hist"] assms(1)
  show h: "e_height e = snd (snd st) + of_nat ?n" by (metis chain_of_def snd_conv)
  from assms(2) have n: "unat (of_nat ?n :: u64) = ?n"
    by (simp add: room_def unat_of_nat take_bit_nat_eq_self)
  then show "unat (e_height e - snd (snd st)) = ?n" by (simp add: h)
  show "unat (e_height e) = unat (snd (snd st)) + ?n"
    using assms(2) n by (simp add: h room_def unat_word_ariths)
qed

lemma history_roster:
  assumes "engine_inv P e" and "chain_of e = foldl (chain_step P) st (committed_blocks hist)" and "room st hist"
  shows "validator_set_bft (roster_at P st (committed_blocks hist) (e_height e)) = Some (e_current_set e)"
  using assms(1) history_height(2) [OF assms(2,3)]
  by (simp add: roster_at_def assms(2) [symmetric] chain_of_def engine_inv_def roster_ok_def active_set_def)

text \<open>More ballots and more blocks do not undo a quorum.\<close>

lemma precommits_justified_grows:
  assumes "precommits_justified H K P st cs mine" and "K \<subseteq> K'"
    and "\<And>v h r vt bid. (v, h, r, vt, bid) \<in> mine \<Longrightarrow> unat (h - snd (snd st)) \<le> length cs"
  shows "precommits_justified H K' P st (cs @ ds) mine"
  unfolding precommits_justified_def
proof (intro allI impI)
  fix v h r a assume b: "(v, h, r, VPrecommit, Some a) \<in> mine"
  with assms(1) have "backed H K (roster_at P st cs h) h VPrevote r a" by (auto simp: precommits_justified_def)
  with assms(2,3) b show "backed H K' (roster_at P st (cs @ ds) h) h VPrevote r a" by (simp add: backed_mono)
qed

lemma locks_respected_grows:
  assumes "locks_respected H K P st cs mine" and "K \<subseteq> K'"
    and "\<And>v h r vt bid. (v, h, r, vt, bid) \<in> mine \<Longrightarrow> unat (h - snd (snd st)) \<le> length cs"
  shows "locks_respected H K' P st (cs @ ds) mine"
  unfolding locks_respected_def
proof (intro allI impI)
  fix v h r a r' b
  assume mine: "(v, h, r, VPrecommit, Some a) \<in> mine" "(v, h, r', VPrevote, Some b) \<in> mine" and r: "r < r'" "b \<noteq> a"
  with assms(1) obtain vr where "r \<le> vr" "vr < r'" "backed H K (roster_at P st cs h) h VPrevote vr b"
    unfolding locks_respected_def by meson
  with assms(2,3) mine show "\<exists>vr. r \<le> vr \<and> vr < r' \<and> backed H K' (roster_at P st (cs @ ds) h) h VPrevote vr b"
    by (auto intro: backed_mono)
qed

lemma unat_index:
  fixes h :: u64
  assumes "i < 2 ^ 64"
  shows "unat (h + of_nat i - h) = i"
  using assms by (simp add: unat_of_nat take_bit_nat_eq_self)

lemma blocks_decided_mono:
  "blocks_decided H K P st D cs \<Longrightarrow> K \<subseteq> K' \<Longrightarrow> D \<subseteq> D' \<Longrightarrow> blocks_decided H K' P st D' cs"
  unfolding blocks_decided_def Let_def by (blast intro: backed_mono)

lemma blocks_decided_snoc:
  assumes cs: "blocks_decided H K P st D cs" and len: "length cs < 2 ^ 64"
    and h: "h = snd (snd st) + of_nat (length cs)" "bh_height (blk_header b) = h"
    and dec: "(h, header_id P (blk_header b)) \<in> D
      \<or> (\<exists>r. backed H K (roster_at P st cs h) h VPrecommit r (header_id P (blk_header b)))"
  shows "blocks_decided H K P st D (cs @ [b])"
  unfolding blocks_decided_def Let_def
proof (intro allI impI)
  fix i assume "i < length (cs @ [b])"
  then have i: "i < length cs \<or> i = length cs" by auto
  with len have "roster_at P st (cs @ [b]) (snd (snd st) + of_nat i) = roster_at P st cs (snd (snd st) + of_nat i)"
    by (intro roster_at_grows) (subst unat_index; linarith)
  with i cs h dec show "bh_height (blk_header ((cs @ [b]) ! i)) = snd (snd st) + of_nat i
    \<and> ((snd (snd st) + of_nat i, header_id P (blk_header ((cs @ [b]) ! i))) \<in> D
     \<or> (\<exists>r. backed H K (roster_at P st (cs @ [b]) (snd (snd st) + of_nat i)) (snd (snd st) + of_nat i) VPrecommit r
         (header_id P (blk_header ((cs @ [b]) ! i)))))"
    by (auto simp: blocks_decided_def Let_def nth_append)
qed

section \<open>Steps keep the rules\<close>

lemma cast_placed:
  assumes "votes_placed st hist e" and "(v, h, r, vt, bid) \<in> cast hist"
  shows "v = e_me_pk e" and "unat (h - snd (snd st)) \<le> length (committed_blocks hist)"
    and "(unat h, unat r, case vt of VPrevote \<Rightarrow> 0 | VPrecommit \<Rightarrow> 1) < position e"
  using assms by (auto simp: cast_def ballot_def votes_placed_def slot_def)

lemma cast_once:
  assumes "votes_placed st hist e" and "(v, h, r, vt, bid) \<in> cast hist" and "(v, h, r, vt, bid') \<in> cast hist"
  shows "bid = bid'"
proof -
  from assms(2,3) obtain x y where x: "x \<in> set (votes_sent hist)" "ballot x = (v, h, r, vt, bid)"
    and y: "y \<in> set (votes_sent hist)" "ballot y = (v, h, r, vt, bid')" by (auto simp: cast_def)
  then have "slot x = slot y" by (simp add: ballot_def slot_def)
  with assms(1) x(1) y(1) have "x = y" by (auto simp: votes_placed_def distinct_map dest: inj_onD)
  with x(2) y(2) show ?thesis by simp
qed

text \<open>A step without votes and blocks that keeps the lock.\<close>

lemma history_quiet:
  assumes hist: "history_ok H P st K D hist e" and out: "votes_sent out = []" "committed_blocks out = []"
    and e': "engine_inv P e'" "chain_of e' = chain_of e" "e_me_pk e' = e_me_pk e" "position e \<le> position e'"
      "e_locked_round e' = e_locked_round e" "e_locked_value e' = e_locked_value e"
      "engine_heard H (K \<union> cast hist) e'"
  shows "history_ok H P st K D (hist @ out) e'"
proof -
  have c: "cast (hist @ out) = cast hist" "committed_blocks (hist @ out) = committed_blocks hist"
    using out by (auto simp: cast_def)
  have h: "e_height e' = e_height e" using e'(2) by (simp add: chain_of_def)
  from hist e' out h show ?thesis
    unfolding history_ok_def c
    by (auto simp: votes_placed_def lock_recorded_def cast_def intro: less_le_trans)
qed

text \<open>A step that votes in the slot of the engine's position.\<close>

lemma history_vote:
  assumes hist: "history_ok H P st K D hist e" and room: "room st hist"
    and out: "votes_sent out = [vm]" "committed_blocks out = []" "slot vm = position e"
      "ballot vm = (e_me_pk e, e_height e, e_round e, vt, bid)"
    and e': "engine_inv P e'" "chain_of e' = chain_of e" "e_me_pk e' = e_me_pk e" "position e < position e'"
      "engine_heard H (K \<union> cast (hist @ out)) e'"
    and lock: "lock_recorded P (hist @ out) e'"
    and precommit: "\<And>a. vt = VPrecommit \<Longrightarrow> bid = Some a \<Longrightarrow>
      backed H (K \<union> cast hist) (roster_at P st (committed_blocks hist) (e_height e)) (e_height e) VPrevote (e_round e) a"
    and prevote: "\<And>b r a. vt = VPrevote \<Longrightarrow> bid = Some b \<Longrightarrow>
      (e_me_pk e, e_height e, r, VPrecommit, Some a) \<in> cast hist \<Longrightarrow> r < e_round e \<Longrightarrow> b \<noteq> a \<Longrightarrow>
      \<exists>vr. r \<le> vr \<and> vr < e_round e \<and>
        backed H (K \<union> cast hist) (roster_at P st (committed_blocks hist) (e_height e)) (e_height e) VPrevote vr b"
  shows "history_ok H P st K D (hist @ out) e'"
proof -
  let ?cs = "committed_blocks hist" and ?K = "K \<union> cast (hist @ out)"
  note placed = hist [unfolded history_ok_def, THEN conjunct2, THEN conjunct2, THEN conjunct2, THEN conjunct1]
  have h: "e_height e' = e_height e" using e'(2) by (simp add: chain_of_def)
  have c: "cast out = {(e_me_pk e, e_height e, e_round e, vt, bid)}" "committed_blocks (hist @ out) = ?cs"
    using out by (auto simp: cast_def)
  have sub: "K \<union> cast hist \<subseteq> ?K" by auto
  note old = cast_placed [OF placed]
  have "votes_placed st (hist @ out) e'"
    using placed out e'(3,4) history_height(2) [of e P st hist] hist room
    by (auto simp: votes_placed_def history_ok_def ballot_def dest: less_trans)
  moreover have "precommits_justified H ?K P st ?cs (cast (hist @ out))"
    using precommits_justified_grows [of H "K \<union> cast hist" P st ?cs "cast hist" ?K "[]"] hist sub old(2) precommit
    unfolding precommits_justified_def cast_append c
    by (auto simp: history_ok_def precommits_justified_def intro: backed_mono)
  moreover have "locks_respected H ?K P st ?cs (cast (hist @ out))"
    unfolding locks_respected_def
  proof (intro allI impI)
    fix v h r a r' b
    assume pc: "(v, h, r, VPrecommit, Some a) \<in> cast (hist @ out)" and pv: "(v, h, r', VPrevote, Some b) \<in> cast (hist @ out)"
      and r: "r < r'" "b \<noteq> a"
    have past: "(v, h, r, VPrecommit, Some a) \<in> cast hist"
    proof (rule ccontr)
      assume "\<not> ?thesis"
      with pc c have new: "v = e_me_pk e" "h = e_height e" "r = e_round e" "vt = VPrecommit" by auto
      with pv c have "(v, h, r', VPrevote, Some b) \<in> cast hist" by auto
      from old(3) [OF this] new r(1) show False by (auto simp: position_def word_less_nat_alt)
    qed
    show "\<exists>vr. r \<le> vr \<and> vr < r' \<and> backed H ?K (roster_at P st ?cs h) h VPrevote vr b"
    proof (cases "(v, h, r', VPrevote, Some b) \<in> cast hist")
      case True
      with past r hist obtain vr where "r \<le> vr" "vr < r'" "backed H (K \<union> cast hist) (roster_at P st ?cs h) h VPrevote vr b"
        unfolding history_ok_def locks_respected_def by meson
      then show ?thesis using backed_mono [OF _ sub] by blast
    next
      case False
      with pv c have "v = e_me_pk e" "h = e_height e" "r' = e_round e" "vt = VPrevote" "bid = Some b" by auto
      with prevote [of b r a] past r show ?thesis using backed_mono [OF _ sub] by blast
    qed
  qed
  moreover have "blocks_decided H ?K P st D ?cs"
    using hist blocks_decided_mono [OF _ sub order_refl] by (auto simp: history_ok_def)
  ultimately show ?thesis
    using hist e' lock unfolding history_ok_def c(2) by simp
qed

text \<open>A step that builds on a block and starts the next height.\<close>

lemma history_commit:
  assumes hist: "history_ok H P st K D hist e" and room: "room st (hist @ out)"
    and out: "votes_sent out = []" "committed_blocks out = [b]"
    and e': "engine_inv P e'" "chain_of e' = foldl (chain_step P) (chain_of e) [b]" "e_me_pk e' = e_me_pk e"
      "position e \<le> position e'" "e_locked_round e' = None" "engine_heard H {} e'"
    and b: "bh_height (blk_header b) = e_height e" "(e_height e, header_id P (blk_header b)) \<in> D
      \<or> (\<exists>r. backed H (K \<union> cast hist) (roster_at P st (committed_blocks hist) (e_height e)) (e_height e) VPrecommit r
          (header_id P (blk_header b)))"
  shows "history_ok H P st K D (hist @ out) e'"
proof -
  let ?cs = "committed_blocks hist" and ?K = "K \<union> cast hist"
  have placed: "votes_placed st hist e" and chain: "chain_of e = foldl (chain_step P) st ?cs"
    using hist by (auto simp: history_ok_def)
  have room0: "room st hist" using room out by (simp add: room_def)
  have c: "cast (hist @ out) = cast hist" "committed_blocks (hist @ out) = ?cs @ [b]"
    using out by (auto simp: cast_def)
  note old = cast_placed [OF placed]
  have chain': "chain_of e' = foldl (chain_step P) st (committed_blocks (hist @ out))"
    using e'(2) chain by (simp add: out)
  have len: "length ?cs < 2 ^ 64" using room0 by (simp add: room_def)
  have fresh: "(v, e_height e', r, vt, x) \<notin> cast hist" for v r vt x
  proof
    assume "(v, e_height e', r, vt, x) \<in> cast hist"
    from old(2) [OF this] history_height(2) [OF chain' room] show False by (simp add: out)
  qed
  have "engine_heard H ?K e'" using e'(6) store_heard_mono by (auto simp: engine_heard_def)
  moreover have "votes_placed st (hist @ out) e'"
    using placed out e'(3,4) by (auto simp: votes_placed_def intro: less_le_trans)
  moreover have "lock_recorded P (hist @ out) e'"
    using fresh e'(5) unfolding lock_recorded_def c by simp
  moreover have "precommits_justified H ?K P st (?cs @ [b]) (cast hist)" "locks_respected H ?K P st (?cs @ [b]) (cast hist)"
    using hist precommits_justified_grows [OF _ order_refl old(2), of H ?K P]
      locks_respected_grows [OF _ order_refl old(2), of H ?K P] by (auto simp: history_ok_def)
  moreover have "blocks_decided H ?K P st D (?cs @ [b])"
    using hist history_height(1) [OF chain room0] b by (intro blocks_decided_snoc [OF _ len]) (auto simp: history_ok_def)
  ultimately show ?thesis using e'(1) chain' unfolding history_ok_def c by simp
qed

lemma history_prevote:
  assumes hist: "history_ok H P st K D hist e" and room: "room st hist" and member: "member_ok e"
    and step: "e_step e = StPropose" and emit: "emit_prevote P bid e = Some (e1, out)"
    and lock: "\<And>b. bid = Some b \<Longrightarrow> e_locked_round e = None \<or> locked_id P e = Some b
      \<or> (\<exists>vr lr. e_locked_round e = Some lr \<and> lr \<le> vr \<and> vr < e_round e \<and> e_quorum e \<le> count_prevotes e vr (MId b))"
  shows "history_ok H P st K D (hist @ out) (e1\<lparr>e_step := StPrevote\<rparr>)"
proof -
  from emit obtain vm where vm: "vote_create P (e_me_sk e) (e_me_pk e) (e_height e) (e_round e) VPrevote bid = Some vm"
    and e1: "e1 = e\<lparr>e_prevotes := store_own_vote P e vm (e_prevotes e)\<rparr>" and out: "out = [Broadcast (Vote vm)]"
    by (auto simp: emit_prevote_def bind_eq_Some_conv)
  have inv: "engine_inv P e" and chain: "chain_of e = foldl (chain_step P) st (committed_blocks hist)"
    and placed: "votes_placed st hist e" and rec: "lock_recorded P hist e" and heard: "engine_heard H (K \<union> cast hist) e"
    and just: "precommits_justified H (K \<union> cast hist) P st (committed_blocks hist) (cast hist)"
    using hist by (auto simp: history_ok_def)
  have bal: "ballot vm = (e_me_pk e, e_height e, e_round e, VPrevote, bid)"
    using vote_create_Some [OF vm] by (simp add: ballot_def)
  show ?thesis
  proof (rule history_vote [OF hist room _ _ _ bal])
    show "votes_sent out = [vm]" "committed_blocks out = []" by (simp_all add: out)
    show "slot vm = position e" using slot_vote_create [OF vm] step by (simp add: position_def)
    show "engine_inv P (e1\<lparr>e_step := StPrevote\<rparr>)" by (rule engine_inv_emit_prevote [OF inv emit])
    show "chain_of (e1\<lparr>e_step := StPrevote\<rparr>) = chain_of e" by (rule chain_of_emit(1) [OF emit])
    show "e_me_pk (e1\<lparr>e_step := StPrevote\<rparr>) = e_me_pk e" by (simp add: e1)
    show "position e < position (e1\<lparr>e_step := StPrevote\<rparr>)" using step by (simp add: e1 position_def)
    show "engine_heard H (K \<union> cast (hist @ out)) (e1\<lparr>e_step := StPrevote\<rparr>)"
      using heard bal by (auto simp: engine_heard_def e1 out cast_def intro!: store_heard_own intro: store_heard_mono)
    show "lock_recorded P (hist @ out) (e1\<lparr>e_step := StPrevote\<rparr>)"
      using rec bal by (auto simp: lock_recorded_def e1 out cast_def)
  next
    fix b r a
    assume bid: "bid = Some b" and pc: "(e_me_pk e, e_height e, r, VPrecommit, Some a) \<in> cast hist"
      and r: "r < e_round e" "b \<noteq> a"
    let ?bkd = "\<lambda>vr. backed H (K \<union> cast hist) (roster_at P st (committed_blocks hist) (e_height e)) (e_height e) VPrevote vr b"
    from rec pc obtain lr where lr: "e_locked_round e = Some lr" "r \<le> lr" by (auto simp: lock_recorded_def)
    with rec obtain v where v: "e_locked_value e = Some v"
      and pcl: "(e_me_pk e, e_height e, lr, VPrecommit, Some (proposed_id P v)) \<in> cast hist"
      by (auto simp: lock_recorded_def)
    from lock [OF bid] lr(1) consider "locked_id P e = Some b"
      | vr where "lr \<le> vr" "vr < e_round e" "e_quorum e \<le> count_prevotes e vr (MId b)" by auto
    then show "\<exists>vr. r \<le> vr \<and> vr < e_round e \<and> ?bkd vr"
    proof cases
      case 1
      with v have "proposed_id P v = b" by (simp add: locked_id_def)
      with pcl just have "?bkd lr" by (auto simp: precommits_justified_def)
      moreover have "lr < e_round e"
        using cast_placed(3) [OF placed pcl] step by (simp add: position_def word_less_nat_alt)
      ultimately show ?thesis using lr(2) by blast
    next
      case (2 vr)
      have "?bkd vr"
        using inv heard member 2(3)
        by (intro count_backed [OF _ _ _ history_roster [OF inv chain room]])
          (auto simp: engine_inv_def engine_heard_def member_ok_def e_quorum_def count_prevotes_def)
      with 2 lr(2) show ?thesis by (meson order_trans)
    qed
  qed simp_all
qed

lemma history_precommit:
  assumes hist: "history_ok H P st K D hist e" and room: "room st hist" and step: "e_step e = StPrevote"
    and vm: "vote_create P (e_me_sk e) (e_me_pk e) (e_height e) (e_round e) VPrecommit bid = Some vm"
    and out: "out = [Broadcast (Vote vm)]"
    and e': "engine_inv P e'" "chain_of e' = chain_of e" "e_me_pk e' = e_me_pk e" "position e < position e'"
      "e_prevotes e' = e_prevotes e" "e_precommits e' = store_own_vote P e vm (e_precommits e)"
    and nil: "bid = None \<Longrightarrow> e_locked_round e' = e_locked_round e \<and> e_locked_value e' = e_locked_value e"
    and val: "\<And>a. bid = Some a \<Longrightarrow> e_locked_round e' = Some (e_round e)
      \<and> (\<exists>v. e_locked_value e' = Some v \<and> proposed_id P v = a)
      \<and> backed H (K \<union> cast hist) (roster_at P st (committed_blocks hist) (e_height e)) (e_height e) VPrevote (e_round e) a"
  shows "history_ok H P st K D (hist @ out) e'"
proof -
  have rec: "lock_recorded P hist e" and heard: "engine_heard H (K \<union> cast hist) e" and placed: "votes_placed st hist e"
    using hist by (auto simp: history_ok_def)
  have h: "e_height e' = e_height e" using e'(2) by (simp add: chain_of_def)
  have bal: "ballot vm = (e_me_pk e, e_height e, e_round e, VPrecommit, bid)"
    using vote_create_Some [OF vm] by (simp add: ballot_def)
  have c: "cast out = {(e_me_pk e, e_height e, e_round e, VPrecommit, bid)}" using bal by (simp add: cast_def out)
  have past: "r \<le> e_round e" if "(v, e_height e, r, vt, x) \<in> cast hist" for v r vt x
    using cast_placed(3) [OF placed that] by (auto simp: position_def word_le_nat_alt)
  show ?thesis
  proof (rule history_vote [OF hist room _ _ _ bal e'(1-4)])
    show "votes_sent out = [vm]" "committed_blocks out = []" by (simp_all add: out)
    show "slot vm = position e" using slot_vote_create [OF vm] step by (simp add: position_def)
    show "engine_heard H (K \<union> cast (hist @ out)) e'"
      using heard bal by (auto simp: engine_heard_def e' c intro!: store_heard_own intro: store_heard_mono)
    show "lock_recorded P (hist @ out) e'"
      using rec nil val past by (cases bid) (auto simp: lock_recorded_def c h e'(3))
    show "\<And>a. bid = Some a \<Longrightarrow> backed H (K \<union> cast hist) (roster_at P st (committed_blocks hist) (e_height e))
        (e_height e) VPrevote (e_round e) a" using val by blast
  qed simp_all
qed

lemma history_nil:
  assumes hist: "history_ok H P st K D hist e" and "room st hist" and step: "e_step e = StPrevote"
    and emit: "emit_precommit P None e = Some (e1, out)"
  shows "history_ok H P st K D (hist @ out) (e1\<lparr>e_step := StPrecommit\<rparr>)"
proof -
  have "engine_inv P e" using hist by (simp add: history_ok_def)
  from engine_inv_emit_precommit [OF this emit] chain_of_emit(2) [OF emit] emit show ?thesis
    by (auto simp: emit_precommit_def bind_eq_Some_conv position_def step intro!: history_precommit [OF assms(1-3)])
qed

text \<open>What a step that casts no ballot and builds on no block leaves alone.\<close>

lemma start_round_keeps:
  assumes "start_round P r e = Some (e', out)"
  shows "e_locked_round e' = e_locked_round e" "e_locked_value e' = e_locked_value e"
    "engine_heard H K e' = engine_heard H K e"
  using start_round_frame [OF assms] by (auto simp: engine_heard_def)

lemma unpark_keeps:
  assumes "unpark P e = Some (e', out)"
  shows "e_locked_round e' = e_locked_round e \<and> e_locked_value e' = e_locked_value e
    \<and> engine_heard H K e' = engine_heard H K e \<and> position e' = position e \<and> votes_sent out = []"
proof (cases "e_parked e")
  case True
  with assms have "enter_propose P (e_round e) (e\<lparr>e_parked := False\<rparr>) = Some (e', out)" by (simp add: unpark_def)
  from enter_propose_frame [OF this] votes_enter_propose [OF this] show ?thesis
    by (auto simp: engine_heard_def position_def)
next
  case False
  with assms show ?thesis by (simp add: unpark_def)
qed

lemma ingest_keeps:
  assumes ing: "ingest P msg e = Some e'" and heard: "engine_heard H K e"
    and fed: "\<And>vm. msg = Vote vm \<Longrightarrow> vm_voter vm \<in> H \<Longrightarrow> ballot vm \<in> K"
  shows "e_locked_round e' = e_locked_round e \<and> e_locked_value e' = e_locked_value e
    \<and> position e' = position e \<and> engine_heard H K e'"
proof (cases msg)
  case (Proposal pm)
  with ing have "ingest_proposal P pm e = Some e'" by (simp add: ingest_def)
  then show ?thesis using heard by (cases rule: ingest_proposal_cases) (auto simp: engine_heard_def position_def)
next
  case (Vote vm)
  with ing have "e' = ingest_vote P vm e" by (simp add: ingest_def)
  with heard fed [OF Vote] show ?thesis
    by (cases "vm_vote_type vm") (auto simp: ingest_vote_def engine_heard_def position_def store_heard_ingest)
qed

lemma commit_history:
  assumes pre: "hm_get (e_proposals e) r = Some pm" "e_quorum e \<le> count_precommits e r (MId (proposed_id P (pm_value pm)))"
      "proposed_is_valid P (pm_value pm) (e_tip e) (e_height e) (e_current_set e)"
    and c: "commit P r (proposed_id P (pm_value pm)) (pm_value pm) e = Some (e', out)"
    and hist: "history_ok H P st K D hist e" and member: "member_ok e" and room: "room st (hist @ out)"
    and pos: "position e \<le> position e'"
  shows "history_ok H P st K D (hist @ out) e'"
proof -
  have inv: "engine_inv P e" and chain: "chain_of e = foldl (chain_step P) st (committed_blocks hist)"
    and heard: "engine_heard H (K \<union> cast hist) e" and room0: "room st hist"
    using hist room by (auto simp: history_ok_def room_def)
  have step: "rule_step P e e' out" using pre c by (rule rule_step.commit_rule)
  obtain s out' where nxt: "start_round P 0 (rolled P (pm_value pm) (proposed_id P (pm_value pm)) s e) = Some (e', out')"
    and out: "out = Committed \<lparr>blk_header = pr_header (pm_value pm), blk_attestations = pr_attestations (pm_value pm),
      blk_governance = pr_governance (pm_value pm), blk_qc = build_qc P e r (proposed_id P (pm_value pm))\<rparr> # out'"
    using c by (cases rule: commit_SomeE) auto
  have b: "backed H (K \<union> cast hist) (roster_at P st (committed_blocks hist) (e_height e)) (e_height e) VPrecommit r
      (proposed_id P (pm_value pm))"
    using inv heard member pre(2)
    by (intro count_backed [OF _ _ _ history_roster [OF inv chain room0]])
      (auto simp: engine_inv_def engine_heard_def member_ok_def e_quorum_def count_precommits_def)
  show ?thesis
    by (rule history_commit [OF hist room _ commit_chain(1) [OF c]])
      (use b nxt out pre pos commit_chain [OF c] engine_inv_rule [OF step inv] rule_step_me [OF step]
        start_round_keeps [OF nxt] in
        \<open>auto simp: votes_start_round proposed_is_valid_iff proposed_id_def rolled_def reset_height_state_def engine_heard_def\<close>)
qed

lemma polka_history:
  assumes polka: "e_step e = StPrevote" "e_round e \<notin> e_polka_applied e" "hm_get (e_proposals e) (e_round e) = Some pm"
      "e_quorum e \<le> count_prevotes e (e_round e) (MId (proposed_id P (pm_value pm)))"
      "proposed_is_valid P (pm_value pm) (e_tip e) (e_height e) (e_current_set e)"
      "emit_precommit P (Some (proposed_id P (pm_value pm)))
        (e\<lparr>e_polka_applied := insert (e_round e) (e_polka_applied e),
           e_locked_value := Some (pm_value pm), e_locked_round := Some (e_round e)\<rparr>) = Some (e1, out)"
    and hist: "history_ok H P st K D hist e" and member: "member_ok e" and room: "room st hist"
  shows "history_ok H P st K D (hist @ out)
    (e1\<lparr>e_step := StPrecommit, e_valid_value := Some (pm_value pm), e_valid_round := Some (e_round e)\<rparr>)"
proof -
  have step: "rule_step P e (e1\<lparr>e_step := StPrecommit, e_valid_value := Some (pm_value pm), e_valid_round := Some (e_round e)\<rparr>) out"
    using polka by (rule rule_step.polka_lock)
  have inv: "engine_inv P e" and chain: "chain_of e = foldl (chain_step P) st (committed_blocks hist)"
    and heard: "engine_heard H (K \<union> cast hist) e" using hist by (auto simp: history_ok_def)
  have b: "backed H (K \<union> cast hist) (roster_at P st (committed_blocks hist) (e_height e)) (e_height e) VPrevote (e_round e)
      (proposed_id P (pm_value pm))"
    using inv heard member polka(4)
    by (intro count_backed [OF _ _ _ history_roster [OF inv chain room]])
      (auto simp: engine_inv_def engine_heard_def member_ok_def e_quorum_def count_prevotes_def)
  from polka(6) obtain vm where
    vm: "vote_create P (e_me_sk e) (e_me_pk e) (e_height e) (e_round e) VPrecommit (Some (proposed_id P (pm_value pm))) = Some vm"
    and e1: "e1 = e\<lparr>e_polka_applied := insert (e_round e) (e_polka_applied e), e_locked_value := Some (pm_value pm),
      e_locked_round := Some (e_round e), e_precommits := store_own_vote P e vm (e_precommits e)\<rparr>"
    and out: "out = [Broadcast (Vote vm)]"
    by (auto simp: emit_precommit_def bind_eq_Some_conv store_own_vote_def)
  show ?thesis
    by (rule history_precommit [OF hist room polka(1) vm out engine_inv_rule [OF step inv]])
      (use b polka(1) in \<open>auto simp: e1 chain_of_def position_def\<close>)
qed

lemma rule_step_history:
  assumes "rule_step P e e' out" and "history_ok H P st K D hist e" and "member_ok e" and "room st (hist @ out)"
    and "position e \<le> position e'"
  shows "history_ok H P st K D (hist @ out) e'"
  using assms
proof (induction rule: rule_step.induct)
  case (commit_rule e r pm e' out)
  then show ?case by (intro commit_history)
next
  case (skip_rule e r e' out)
  then have inv: "engine_inv P e" by (simp add: history_ok_def)
  show ?case
    by (rule history_quiet [OF skip_rule.prems(1)])
      (use skip_rule start_round_keeps [OF skip_rule(4)] start_round_frame [OF skip_rule(4)] inv in
        \<open>auto simp: votes_start_round committed_start_round chain_of_start_round history_ok_def
          intro: engine_inv_start_round less_imp_le\<close>)
next
  case (prevote_rule e pm bid e1 out)
  then show ?case by (intro history_prevote) (auto simp: room_def)
next
  case (polka_lock e pm e1 out)
  then show ?case by (intro polka_history) (auto simp: room_def)
next
  case (polka_late e pm)
  have step: "rule_step P e (e\<lparr>e_polka_applied := insert (e_round e) (e_polka_applied e),
      e_valid_value := Some (pm_value pm), e_valid_round := Some (e_round e)\<rparr>) []"
    using polka_late.hyps by (rule rule_step.polka_late)
  have hist: "engine_inv P e" "engine_heard H (K \<union> cast hist) e" using polka_late.prems(1) by (auto simp: history_ok_def)
  show ?case
    by (rule history_quiet [OF polka_late.prems(1) _ _ engine_inv_rule [OF step hist(1)]])
      (use hist(2) in \<open>auto simp: chain_of_def position_def engine_heard_def\<close>)
next
  case (precommit_nil_rule e e1 out)
  then show ?case by (intro history_nil) (auto simp: room_def)
next
  case (prevote_timer e)
  then show ?case
    by (intro history_quiet) (auto simp: history_ok_def engine_inv_def chain_of_def position_def engine_heard_def)
next
  case (precommit_timer e)
  then show ?case
    by (intro history_quiet) (auto simp: history_ok_def engine_inv_def chain_of_def position_def engine_heard_def)
qed

lemma timeout_history:
  assumes "timeout_action P kind e = Some (e', out)" and hist: "history_ok H P st K D hist e" and "member_ok e"
    and "room st hist" and e': "engine_inv P e'" "e_me_pk e' = e_me_pk e" "position e \<le> position e'"
  shows "history_ok H P st K D (hist @ out) e'"
proof (cases kind)
  case ToPropose
  with assms show ?thesis
    by (auto simp: timeout_action_def bind_eq_Some_conv split: if_splits intro: history_prevote)
next
  case ToPrevote
  with assms show ?thesis
    by (auto simp: timeout_action_def bind_eq_Some_conv split: if_splits intro: history_nil)
next
  case ToPrecommit
  with assms(1) have s: "start_round P (e_round e + 1) e = Some (e', out)" by (simp add: timeout_action_def)
  show ?thesis
    by (rule history_quiet [OF hist _ _ e'(1) _ e'(2,3)])
      (use s start_round_keeps [OF s] hist in
        \<open>auto simp: votes_start_round committed_start_round chain_of_start_round history_ok_def\<close>)
qed

text \<open>
  Any step of an engine whose inputs are known: the votes under the names of honest validators are
  ballots they have cast, and the finalized blocks it adopts were decided.
\<close>

definition known_inputs :: "VerifyingKey set \<Rightarrow> prims \<Rightarrow> ballot set \<Rightarrow> (u64 \<times> Hash) set \<Rightarrow> Input \<Rightarrow> bool" where
  "known_inputs H P K D x \<longleftrightarrow> (case x of
     InMsg (Vote vm) \<Rightarrow> vm_voter vm \<in> H \<longrightarrow> ballot vm \<in> K
   | InMsg (Proposal pm) \<Rightarrow> True
   | InBlock b \<Rightarrow> (bh_height (blk_header b), header_id P (blk_header b)) \<in> D)"

lemma fed_step_history:
  assumes "fed_step (known_inputs H P K D) P e e' out" and "history_ok H P st K D hist e" and "member_ok e"
    and "room st (hist @ out)"
  shows "history_ok H P st K D (hist @ out) e'"
proof -
  note step = fed_step_any [OF assms(1)]
  have inv: "engine_inv P e" and heard: "engine_heard H (K \<union> cast hist) e"
    and chain: "chain_of e = foldl (chain_step P) st (committed_blocks hist)"
    using assms(2) by (auto simp: history_ok_def)
  have "room st hist" using assms(4) by (simp add: room_def)
  have "moves e e' out"
  proof (rule engine_step_moves [OF step])
    assume "committed_blocks out \<noteq> []"
    then have "unat (snd (snd st)) + length (committed_blocks hist) < 2 ^ 64 - 1"
      using assms(4) by (cases "committed_blocks out") (auto simp: room_def)
    then show "e_height e \<noteq> - 1"
      unfolding history_height(1) [OF chain \<open>room st hist\<close>] by (rule height_below_max)
  qed
  then have pos: "position e \<le> position e'" by (simp add: moves_def)
  note quiet = history_quiet [OF assms(2) _ _ engine_inv_step [OF step inv] _ engine_step_me [OF step] pos]
  note chain' = engine_step_chain [OF step]
  from assms(1) show ?thesis
  proof cases
    case by_rule
    from rule_step_history [OF this assms(2-4) pos] show ?thesis .
  next
    case by_entry
    from by_entry(3) start_round_keeps [OF by_entry(3)] heard chain' show ?thesis
      by (intro quiet) (auto simp: votes_start_round committed_start_round)
  next
    case by_unpark
    from unpark_keeps [OF by_unpark] chain_of_unpark [OF by_unpark] heard show ?thesis by (intro quiet) auto
  next
    case (by_timeout kind)
    from timeout_history [OF by_timeout(1) assms(2,3) \<open>room st hist\<close> engine_inv_step [OF step inv] engine_step_me [OF step] pos]
    show ?thesis .
  next
    case (by_message msg)
    have "e_locked_round e' = e_locked_round e \<and> e_locked_value e' = e_locked_value e
        \<and> position e' = position e \<and> engine_heard H (K \<union> cast hist) e'"
      by (rule ingest_keeps [OF by_message(2) heard]) (use by_message(3) in \<open>simp add: known_inputs_def\<close>)
    with by_message(1) chain' show ?thesis by (intro quiet) auto
  next
    case (by_sync b)
    from by_sync(2) have b: "bh_height (blk_header b) = e_height e" and e': "e_locked_round e' = None"
      "e_prevotes e' = []" "e_precommits e' = []"
      by (auto simp: apply_synced_block_def reload_set_def reset_height_state_def bind_eq_Some_conv Let_def
          split: if_splits sum.splits)
    from by_sync(3) b have d: "(e_height e, header_id P (blk_header b)) \<in> D" by (simp add: known_inputs_def)
    show ?thesis
      by (rule history_commit [OF assms(2,4) _ _ engine_inv_step [OF step inv] _ engine_step_me [OF step] pos, of b])
        (use b d e' chain' by_sync(1) in \<open>auto simp: engine_heard_def\<close>)
  qed (use heard chain' quiet [of out] in \<open>auto simp: engine_heard_def set_time_def\<close>)
qed

lemma fed_steps_history:
  assumes "fed_steps (known_inputs H P K D) P e e' out" and "history_ok H P st K D hist e"
    and "room st (hist @ out)"
    and "\<forall>i\<le>length (committed_blocks (hist @ out)).
      e_me_pk e \<in> set (roster_at P st (committed_blocks (hist @ out)) (snd (snd st) + of_nat i))"
  shows "history_ok H P st K D (hist @ out) e'"
  using assms
proof (induction rule: fed_steps.induct)
  case (idle e)
  then show ?case by simp
next
  case (more e e1 out1 e2 out2)
  let ?h1 = "hist @ out1"
  let ?cs = "committed_blocks ?h1" and ?ds = "committed_blocks out2" and ?h0 = "snd (snd st)"
  from more.prems(2) have room: "room st ?h1" by (simp add: room_def)
  have len: "i < 2 ^ 64" if "i \<le> length ?cs" for i using room that by (simp add: room_def)
  have same: "roster_at P st (?cs @ ?ds) (?h0 + of_nat i) = roster_at P st ?cs (?h0 + of_nat i)" if "i \<le> length ?cs" for i
    by (rule roster_at_grows) (simp only: unat_index [OF len [OF that]] that)
  have mem: "e_me_pk e \<in> set (roster_at P st ?cs (?h0 + of_nat i))" if "i \<le> length ?cs" for i
    using more.prems(3) [rule_format, of i] same [OF that] that by simp
  have h1: "history_ok H P st K D ?h1 e1" using more.prems(1) room mem by (intro more.IH) auto
  then have inv: "engine_inv P e1" and chain: "chain_of e1 = foldl (chain_step P) st ?cs" by (auto simp: history_ok_def)
  have "member_ok e1"
    using mem [OF order_refl] history_height(1) [OF chain room] history_roster [OF inv chain room]
      engine_steps_me [OF fed_steps_any [OF more.hyps(1)]] by (simp add: member_ok_def bft_Some_iff)
  from fed_step_history [OF more.hyps(2) h1 this] more.prems(2) show ?case by simp
qed

lemma history_start:
  assumes "engine_inv P e" and "chain_of e = st" and "e_prevotes e = []" "e_precommits e = []" "e_locked_round e = None"
  shows "history_ok H P st K D [] e"
  using assms
  by (simp add: history_ok_def engine_heard_def votes_placed_def lock_recorded_def cast_def
      precommits_justified_def locks_respected_def blocks_decided_def)

lemma history_mono:
  assumes "history_ok H P st K D hist e" and "K \<subseteq> K'" and "D \<subseteq> D'"
  shows "history_ok H P st K' D' hist e"
proof -
  have sub: "K \<union> cast hist \<subseteq> K' \<union> cast hist" using assms(2) by auto
  have placed: "votes_placed st hist e" using assms(1) by (simp add: history_ok_def)
  note old = cast_placed(2) [OF placed]
  from assms(1,3) precommits_justified_grows [OF _ sub old, where ds = "[]"]
    locks_respected_grows [OF _ sub old, where ds = "[]"] blocks_decided_mono [OF _ sub assms(3)] store_heard_mono [OF _ sub]
  show ?thesis unfolding history_ok_def engine_heard_def by auto
qed

end
