(* ===== verification/Network.thy ===== *)
theory Network
  imports Agreement Node_Loop
begin

text \<open>
  Several nodes of one genesis, the honest ones among them running the code of
  \<^verbatim>\<open>crates/node/src/node.rs\<close>, each event of each node at any time, messages lost, delayed, reordered,
  repeated or made up. What the messages must not do is speak for an honest validator: a vote in its
  name is one it has sent, in the height, round and step it was sent for, and a finalized block is one
  that an honest node holds.
\<close>

section \<open>The network\<close>

record Network =
  net_node :: "VerifyingKey \<Rightarrow> Node"
  net_out :: "VerifyingKey \<Rightarrow> NodeOut list"

definition net_blocks :: "Network \<Rightarrow> VerifyingKey \<Rightarrow> SlcBlock list" where
  "net_blocks net v = bs_blocks (nd_store (net_node net v))"

definition ballots_by :: "Network \<Rightarrow> VerifyingKey \<Rightarrow> ballot set" where
  "ballots_by net v = ballot ` {vm \<in> set (node_votes (net_out net v)). vm_voter vm = v}"

text \<open>What may happen to node \<open>v\<close>: an honest validator's votes arrive as they were sent.\<close>

type_synonym net_guard = "VerifyingKey set \<Rightarrow> Network \<Rightarrow> VerifyingKey \<Rightarrow> Event \<Rightarrow> bool"

definition genuine :: net_guard where
  "genuine H net v ev \<longleftrightarrow> (case ev of
     EvWire (WConsensus (Vote vm)) \<Rightarrow> vm_voter vm \<in> H \<longrightarrow> ballot vm \<in> ballots_by net (vm_voter vm)
   | EvWire (WBlocks bs) \<Rightarrow> (\<forall>b\<in>set bs. \<exists>w\<in>H. b \<in> set (net_blocks net w))
   | _ \<Rightarrow> True)"

text \<open>
  A weaker reading of the same demand, by signatures: the vote is one the validator has signed, but a
  relay may have changed the round it carries. Timers fire when they were set.
\<close>

definition unforged :: net_guard where
  "unforged H net v ev \<longleftrightarrow> (case ev of
     EvWire (WConsensus (Vote vm)) \<Rightarrow> vm_voter vm \<in> H \<longrightarrow>
       (\<exists>vm'\<in>set (node_votes (net_out net (vm_voter vm))). vm = vm'\<lparr>vm_round := vm_round vm\<rparr>)
   | EvWire (WBlocks bs) \<Rightarrow> (\<forall>b\<in>set bs. \<exists>w\<in>H. b \<in> set (net_blocks net w))
   | EvTimeout h r kind \<Rightarrow> (\<exists>x\<in>set (net_out net v). case x of Arm h' r' kind' _ \<Rightarrow> h' = h \<and> r' = r \<and> kind' = kind | _ \<Rightarrow> False)
   | _ \<Rightarrow> True)"

inductive net_reach ::
  "net_guard \<Rightarrow> prims \<Rightarrow> (SlcBlock \<Rightarrow> string option) \<Rightarrow> GenesisConfig \<Rightarrow> VerifyingKey set \<Rightarrow> Network \<Rightarrow> bool"
  for G P ser g H where
  net_start: "(\<And>v. v \<in> H \<Longrightarrow> \<exists>tr sk st base n env. mldsa_correct P sk v \<and> bs_blocks st = []
      \<and> node_new P tr g sk v st base = Some n
      \<and> node_start P ser env n = Some (net_node net v, net_out net v)) \<Longrightarrow>
    net_reach G P ser g H net"
| net_event: "net_reach G P ser g H net \<Longrightarrow> v \<in> H \<Longrightarrow>
    node_event P ser env ev (net_node net v) = Some (n', out) \<Longrightarrow> event_ok ev \<Longrightarrow> G H net v ev \<Longrightarrow>
    net_reach G P ser g H (net\<lparr>net_node := (net_node net)(v := n'), net_out := (net_out net)(v := net_out net v @ out)\<rparr>)"

text \<open>
  The assumptions on the validators: at every height an honest node has reached it is a validator
  itself, and at most \<open>(n - 1) / 3\<close> of the \<open>n\<close> validators are not honest. The heights are not exhausted.
\<close>

definition honest_majority :: "prims \<Rightarrow> chain_state \<Rightarrow> VerifyingKey set \<Rightarrow> Network \<Rightarrow> bool" where
  "honest_majority P st H net \<longleftrightarrow> (\<forall>v\<in>H. unat (snd (snd st)) + length (net_blocks net v) < 2 ^ 64
     \<and> (\<forall>i\<le>length (net_blocks net v). let vals = roster_at P st (net_blocks net v) (snd (snd st) + of_nat i) in
          v \<in> set vals \<and> card (set vals - H) \<le> (length vals - 1) div 3))"

text \<open>Committed blocks with the same id are the same, the consequence of a collision-free digest.\<close>

definition ids_bind :: "prims \<Rightarrow> VerifyingKey set \<Rightarrow> Network \<Rightarrow> bool" where
  "ids_bind P H net \<longleftrightarrow> (\<forall>v\<in>H. \<forall>w\<in>H. \<forall>b\<in>set (net_blocks net v). \<forall>c\<in>set (net_blocks net w).
     header_id P (blk_header b) = header_id P (blk_header c) \<longrightarrow> block_value b = block_value c)"

section \<open>What the histories of the honest nodes have in common\<close>

definition all_cast :: "VerifyingKey set \<Rightarrow> (VerifyingKey \<Rightarrow> Effect list) \<Rightarrow> ballot set" where
  "all_cast H hist = (\<Union>w\<in>H. cast (hist w))"

definition decided ::
  "VerifyingKey set \<Rightarrow> prims \<Rightarrow> chain_state \<Rightarrow> (VerifyingKey \<Rightarrow> Effect list) \<Rightarrow> (u64 \<times> Hash) set" where
  "decided H P st hist = {(h, a). \<exists>w\<in>H. unat (h - snd (snd st)) \<le> length (committed_blocks (hist w))
     \<and> (\<exists>r. backed H (all_cast H hist) (roster_at P st (committed_blocks (hist w)) h) h VPrecommit r a)}"

definition histories :: "prims \<Rightarrow> chain_state \<Rightarrow> VerifyingKey set \<Rightarrow> (VerifyingKey \<Rightarrow> Effect list) \<Rightarrow> Network \<Rightarrow> bool" where
  "histories P st H hist net \<longleftrightarrow> (\<forall>v\<in>H.
     history_ok H P st (all_cast H hist) (decided H P st hist) (hist v) (nd_engine (net_node net v))
     \<and> committed_blocks (hist v) = net_blocks net v \<and> e_me_pk (nd_engine (net_node net v)) = v
     \<and> ballots_by net v \<subseteq> all_cast H hist)"

lemma all_cast_grows: "(\<And>w. w \<in> H \<Longrightarrow> cast (hist w) \<subseteq> cast (hist' w)) \<Longrightarrow> all_cast H hist \<subseteq> all_cast H hist'"
  by (auto simp: all_cast_def)

lemma decided_grows:
  assumes "\<And>w. w \<in> H \<Longrightarrow> \<exists>more. hist' w = hist w @ more"
  shows "all_cast H hist \<subseteq> all_cast H hist'" and "decided H P st hist \<subseteq> decided H P st hist'"
proof -
  show sub: "all_cast H hist \<subseteq> all_cast H hist'" using assms by (intro all_cast_grows) fastforce
  show "decided H P st hist \<subseteq> decided H P st hist'"
  proof (clarsimp simp: decided_def)
    fix h a w r
    assume w: "w \<in> H" "unat (h - snd (snd st)) \<le> length (committed_blocks (hist w))"
      and b: "backed H (all_cast H hist) (roster_at P st (committed_blocks (hist w)) h) h VPrecommit r a"
    from assms [OF w(1)] obtain ext where ext: "hist' w = hist w @ ext" by blast
    with w b backed_mono [OF b sub] show "\<exists>w\<in>H. unat (h - snd (snd st)) \<le> length (committed_blocks (hist' w)) \<and>
        (\<exists>r. backed H (all_cast H hist') (roster_at P st (committed_blocks (hist' w)) h) h VPrecommit r a)"
      by (intro bexI [of _ w]) auto
  qed
qed

lemma node_new_fresh:
  assumes "node_new P tr g sk pk st base = Some n"
  shows "e_prevotes (nd_engine n) = []" "e_precommits (nd_engine n) = []" "e_locked_round (nd_engine n) = None"
  using assms
  by (auto simp: node_new_def engine_with_registry_def bind_eq_Some_conv case_prod_beta Let_def)

lemma node_start_history:
  assumes new: "node_new P tr g sk v st base = Some n" "bs_blocks st = []" "mldsa_correct P sk v"
    and start: "node_start P ser env n = Some (n', out)"
    and room: "length (bs_blocks (nd_store n')) + 1 < 2 ^ 64"
    and member: "\<forall>i\<le>length (bs_blocks (nd_store n')).
      v \<in> set (roster_at P (genesis_state (validator_keys g)) (bs_blocks (nd_store n')) (1 + of_nat i))"
  shows "\<exists>lab. history_ok H P (genesis_state (validator_keys g)) {} {} lab (nd_engine n')
    \<and> committed_blocks lab = bs_blocks (nd_store n') \<and> e_me_pk (nd_engine n') = v \<and> node_votes out = votes_sent lab"
proof -
  let ?st = "genesis_state (validator_keys g)"
  have c: "chain_valid P ?st (bs_blocks st)" using new(2) by simp
  note n = node_new_chain [OF new(1) c]
  from node_start_follows [OF start n(4,5), of "known_inputs H P {} {}"] obtain lab where
    steps: "fed_steps (known_inputs H P {} {}) P (nd_engine n) (nd_engine n') lab"
    and blocks: "bs_blocks (nd_store n') = committed_blocks lab" and votes: "node_votes out = votes_sent lab"
    by (auto simp: follows_def n(2) new(2))
  have "history_ok H P ?st {} {} [] (nd_engine n)"
    using n(1,6) new node_new_fresh [OF new(1)] by (intro history_start) auto
  from fed_steps_history [OF steps this] room member blocks n(3)
  have "history_ok H P ?st {} {} lab (nd_engine n')" by (simp add: room_def genesis_state_def)
  moreover have "e_me_pk (nd_engine n') = v" using engine_steps_me [OF fed_steps_any [OF steps]] n(3) by simp
  ultimately show ?thesis using blocks votes by auto
qed

text \<open>Re-sent votes under a validator's own name are among those it holds.\<close>

lemma regossip_heard:
  assumes "engine_heard H K e" and "vm \<in> set (votes_sent (regossip P e))" and "vm_voter vm \<in> H"
  shows "ballot vm \<in> K"
  using assms
  by (auto simp: regossip_def own_stored_vote_def engine_heard_def store_heard_def bind_eq_Some_conv
      split: if_splits option.splits)

lemma node_event_regossip:
  assumes "node_event P ser env EvRegossip n = Some (n', out)"
  shows "set (node_votes out) \<subseteq> set (votes_sent (regossip P (set_time (env_now env) (nd_engine n))))"
proof (cases "nd_running n")
  case True
  let ?e = "set_time (env_now env) (nd_engine n)"
  from True assms have "handle_effects P ser env (regossip P ?e) (n\<lparr>nd_engine := ?e\<rparr>) = (n', out)"
    by (simp add: node_event_def dispatch_def case_prod_beta prod_eq_iff)
  from handle_effects_votes [OF this] show ?thesis by simp
qed (use assms in \<open>simp add: node_event_def\<close>)

lemma genuine_fed:
  assumes "histories P st H hist net" and "genuine H net v ev"
  shows "event_fed (known_inputs H P (all_cast H hist) (decided H P st hist)) ev"
proof -
  have vote: "ballot vm \<in> all_cast H hist" if "vm_voter vm \<in> H" "ballot vm \<in> ballots_by net (vm_voter vm)" for vm
    using that assms(1) by (auto simp: histories_def)
  have block: "(bh_height (blk_header b), header_id P (blk_header b)) \<in> decided H P st hist"
    if w: "w \<in> H" and b: "b \<in> set (net_blocks net w)" for w b
  proof -
    let ?cs = "committed_blocks (hist w)"
    from w assms(1) have hist: "history_ok H P st (all_cast H hist) (decided H P st hist) (hist w) (nd_engine (net_node net w))"
      and cs: "?cs = net_blocks net w" by (auto simp: histories_def)
    from b cs obtain i where i: "i < length ?cs" "b = ?cs ! i" by (metis in_set_conv_nth)
    have sub: "all_cast H hist \<union> cast (hist w) = all_cast H hist" using w by (auto simp: all_cast_def)
    from hist i have "bh_height (blk_header b) = snd (snd st) + of_nat i"
      and dec: "(snd (snd st) + of_nat i, header_id P (blk_header b)) \<in> decided H P st hist
        \<or> (\<exists>r. backed H (all_cast H hist) (roster_at P st ?cs (snd (snd st) + of_nat i)) (snd (snd st) + of_nat i)
              VPrecommit r (header_id P (blk_header b)))"
      unfolding history_ok_def blocks_decided_def Let_def sub by auto
    moreover have "unat (snd (snd st) + of_nat i - snd (snd st)) \<le> length ?cs"
      using i(1) by (simp add: unat_of_nat)
    ultimately show ?thesis using w by (auto simp: decided_def)
  qed
  from assms(2) show ?thesis
    by (auto simp: event_fed_def known_inputs_def genuine_def intro: vote block
        split: Event.splits WireMsg.splits ConsensusMsg.splits)
qed

lemma honest_majority_before:
  assumes "honest_majority P st H net'" and "\<And>v. v \<in> H \<Longrightarrow> \<exists>ds. net_blocks net' v = net_blocks net v @ ds"
  shows "honest_majority P st H net"
  unfolding honest_majority_def Let_def
proof (intro ballI conjI allI impI)
  fix v assume v: "v \<in> H"
  let ?cs = "net_blocks net v" and ?h0 = "snd (snd st)"
  from assms(2) [OF v] obtain ds where ds: "net_blocks net' v = ?cs @ ds" by blast
  from assms(1) v ds have room: "unat ?h0 + length (?cs @ ds) < 2 ^ 64"
    and all: "\<And>i. i \<le> length (?cs @ ds) \<Longrightarrow> v \<in> set (roster_at P st (?cs @ ds) (?h0 + of_nat i))
      \<and> card (set (roster_at P st (?cs @ ds) (?h0 + of_nat i)) - H) \<le> (length (roster_at P st (?cs @ ds) (?h0 + of_nat i)) - 1) div 3"
    by (auto simp: honest_majority_def Let_def)
  from room show "unat ?h0 + length ?cs < 2 ^ 64" by simp
  fix i assume i: "i \<le> length ?cs"
  with room have "i < 2 ^ 64" by simp
  from unat_index [OF this, of ?h0] i have "roster_at P st (?cs @ ds) (?h0 + of_nat i) = roster_at P st ?cs (?h0 + of_nat i)"
    by (intro roster_at_grows) simp
  with all [of i] i show "v \<in> set (roster_at P st ?cs (?h0 + of_nat i))"
    "card (set (roster_at P st ?cs (?h0 + of_nat i)) - H) \<le> (length (roster_at P st ?cs (?h0 + of_nat i)) - 1) div 3"
    by simp_all
qed

lemma histories_step:
  assumes hist: "histories P st H hist net" and v: "v \<in> H" and major: "honest_majority P st H net'"
    and ev: "node_event P ser env ev (net_node net v) = Some (n', out)" "event_ok ev" "genuine H net v ev"
    and net': "net' = net\<lparr>net_node := (net_node net)(v := n'), net_out := (net_out net)(v := net_out net v @ out)\<rparr>"
  shows "\<exists>hist'. histories P st H hist' net'"
proof -
  let ?K = "all_cast H hist" and ?D = "decided H P st hist" and ?n = "net_node net v"
  from node_event_follows [OF ev(1,2) genuine_fed [OF hist ev(3)]] obtain lab where
    steps: "fed_steps (known_inputs H P ?K ?D) P (nd_engine ?n) (nd_engine n') lab"
    and blocks: "bs_blocks (nd_store n') = net_blocks net v @ committed_blocks lab"
    and votes: "ev \<noteq> EvRegossip \<longrightarrow> node_votes out = votes_sent lab"
    by (auto simp: follows_def net_blocks_def)
  define hist' where "hist' = hist(v := hist v @ lab)"
  let ?K' = "all_cast H hist'" and ?D' = "decided H P st hist'"
  have ext: "\<exists>more. hist' w = hist w @ more" for w by (simp add: hist'_def)
  note grow = decided_grows [of H hist' hist, OF ext]
  from hist v have h: "history_ok H P st ?K ?D (hist v) (nd_engine ?n)" and cs: "committed_blocks (hist v) = net_blocks net v"
    and me: "e_me_pk (nd_engine ?n) = v" by (auto simp: histories_def)
  have cs': "committed_blocks (hist v @ lab) = net_blocks net' v" by (simp add: cs blocks net' net_blocks_def)
  from major v have room: "room st (hist v @ lab)"
    and mem: "\<forall>i\<le>length (committed_blocks (hist v @ lab)).
        e_me_pk (nd_engine ?n) \<in> set (roster_at P st (committed_blocks (hist v @ lab)) (snd (snd st) + of_nat i))"
    unfolding honest_majority_def Let_def room_def cs' me by auto
  have mine: "history_ok H P st ?K' ?D' (hist v @ lab) (nd_engine n')"
    by (rule history_mono [OF fed_steps_history [OF steps h room mem] grow])
  have others: "history_ok H P st ?K' ?D' (hist w) (nd_engine (net_node net w))" if "w \<in> H" for w
    using that hist by (intro history_mono [OF _ grow]) (simp add: histories_def)
  have me': "e_me_pk (nd_engine n') = v" using engine_steps_me [OF fed_steps_any [OF steps]] me by simp
  have new: "ballot vm \<in> ?K'" if "vm \<in> set (node_votes out)" "vm_voter vm = v" for vm
  proof (cases "ev = EvRegossip")
    case True
    let ?e = "set_time (env_now env) (nd_engine ?n)"
    from h v have "engine_heard H ?K ?e"
      by (auto simp: history_ok_def engine_heard_def set_time_def all_cast_def intro: store_heard_mono)
    with that node_event_regossip [OF ev(1) [unfolded True]] v grow(1) show ?thesis by (auto dest: regossip_heard)
  next
    case False
    with votes that v show ?thesis by (auto simp: all_cast_def hist'_def cast_def intro!: bexI [of _ v])
  qed
  have old: "ballots_by net w \<subseteq> ?K'" if "w \<in> H" for w
    using that hist grow(1) by (auto simp: histories_def)
  have "histories P st H hist' net'"
    unfolding histories_def
  proof
    fix w assume w: "w \<in> H"
    show "history_ok H P st ?K' ?D' (hist' w) (nd_engine (net_node net' w)) \<and> committed_blocks (hist' w) = net_blocks net' w
        \<and> e_me_pk (nd_engine (net_node net' w)) = w \<and> ballots_by net' w \<subseteq> ?K'"
    proof (cases "w = v")
      case True
      have "ballots_by net' v = ballots_by net v \<union> ballot ` {vm \<in> set (node_votes out). vm_voter vm = v}"
        by (auto simp: ballots_by_def net')
      with True mine cs' me' new old [OF v] show ?thesis by (auto simp: hist'_def net')
    next
      case False
      with w others old hist show ?thesis by (auto simp: histories_def hist'_def net' net_blocks_def ballots_by_def)
    qed
  qed
  then show ?thesis by blast
qed

lemma net_histories:
  assumes "net_reach genuine P ser g H net" and "honest_majority P (genesis_state (validator_keys g)) H net"
  shows "\<exists>hist. histories P (genesis_state (validator_keys g)) H hist net"
  using assms
proof (induction rule: net_reach.induct)
  case (net_start net)
  let ?st = "genesis_state (validator_keys g)"
  have "\<exists>lab. history_ok H P ?st {} {} lab (nd_engine (net_node net v)) \<and> committed_blocks lab = net_blocks net v
      \<and> e_me_pk (nd_engine (net_node net v)) = v \<and> node_votes (net_out net v) = votes_sent lab" if v: "v \<in> H" for v
  proof -
    from net_start.hyps [OF v] obtain tr sk st base n env where
      s: "node_new P tr g sk v st base = Some n" "bs_blocks st = []" "mldsa_correct P sk v"
        "node_start P ser env n = Some (net_node net v, net_out net v)" by blast
    from net_start.prems v have "length (net_blocks net v) + 1 < 2 ^ 64"
      and "\<forall>i\<le>length (net_blocks net v). v \<in> set (roster_at P ?st (net_blocks net v) (1 + of_nat i))"
      by (auto simp: honest_majority_def genesis_state_def Let_def)
    from node_start_history [OF s, folded net_blocks_def, OF this] show ?thesis by blast
  qed
  then obtain hist where hist: "\<And>v. v \<in> H \<Longrightarrow> history_ok H P ?st {} {} (hist v) (nd_engine (net_node net v))
      \<and> committed_blocks (hist v) = net_blocks net v
      \<and> e_me_pk (nd_engine (net_node net v)) = v \<and> node_votes (net_out net v) = votes_sent (hist v)" by metis
  then have "histories P ?st H hist net"
    by (auto simp: histories_def ballots_by_def all_cast_def cast_def intro: history_mono)
  then show ?case by blast
next
  case (net_event net v env ev n' out)
  let ?net' = "net\<lparr>net_node := (net_node net)(v := n'), net_out := (net_out net)(v := net_out net v @ out)\<rparr>"
  from node_event_follows [OF net_event.hyps(3,4), of "\<lambda>_. True"] obtain ds where
    "bs_blocks (nd_store n') = net_blocks net v @ ds" by (auto simp: follows_def net_blocks_def)
  then have "\<exists>ds. net_blocks ?net' w = net_blocks net w @ ds" for w by (simp add: net_blocks_def)
  from net_event.IH [OF honest_majority_before [OF net_event.prems this]] obtain hist where
    "histories P (genesis_state (validator_keys g)) H hist net" by blast
  from histories_step [OF this net_event.hyps(2) net_event.prems net_event.hyps(3-5) refl] show ?case .
qed

section \<open>Agreement\<close>

lemma histories_cast:
  assumes "histories P st H hist net" and "(v, h, r, vt, x) \<in> all_cast H hist"
  shows "v \<in> H" and "(v, h, r, vt, x) \<in> cast (hist v)"
    and "unat (h - snd (snd st)) \<le> length (net_blocks net v)"
proof -
  from assms(2) obtain w where w: "w \<in> H" "(v, h, r, vt, x) \<in> cast (hist w)" by (auto simp: all_cast_def)
  with assms(1) have placed: "votes_placed st (hist w) (nd_engine (net_node net w))"
    and "e_me_pk (nd_engine (net_node net w)) = w" "committed_blocks (hist w) = net_blocks net w"
    by (auto simp: histories_def history_ok_def)
  with w cast_placed [OF placed w(2)] show "v \<in> H" "(v, h, r, vt, x) \<in> cast (hist v)"
    "unat (h - snd (snd st)) \<le> length (net_blocks net v)" by auto
qed

lemma histories_rules:
  assumes "histories P st H hist net" and "v \<in> H"
  shows "votes_placed st (hist v) (nd_engine (net_node net v))"
    and "precommits_justified H (all_cast H hist) P st (net_blocks net v) (cast (hist v))"
    and "locks_respected H (all_cast H hist) P st (net_blocks net v) (cast (hist v))"
    and "blocks_decided H (all_cast H hist) P st (decided H P st hist) (net_blocks net v)"
proof -
  have "all_cast H hist \<union> cast (hist v) = all_cast H hist" using assms(2) by (auto simp: all_cast_def)
  with assms show "votes_placed st (hist v) (nd_engine (net_node net v))"
    "precommits_justified H (all_cast H hist) P st (net_blocks net v) (cast (hist v))"
    "locks_respected H (all_cast H hist) P st (net_blocks net v) (cast (hist v))"
    "blocks_decided H (all_cast H hist) P st (decided H P st hist) (net_blocks net v)"
    by (auto simp: histories_def history_ok_def)
qed

text \<open>One height: where the honest nodes have the same roster, two decided blocks have the same id.\<close>

lemma histories_decide_once:
  assumes hist: "histories P st H hist net"
    and same: "\<And>w. w \<in> H \<Longrightarrow> unat (h - snd (snd st)) \<le> length (net_blocks net w) \<Longrightarrow> roster_at P st (net_blocks net w) h = vals"
    and few: "card (set vals - H) \<le> (length vals - 1) div 3"
    and dec: "backed H (all_cast H hist) vals h VPrecommit r a" "backed H (all_cast H hist) vals h VPrecommit r' b"
  shows "a = b"
proof (rule bft.decisions_agree [where B = "set vals - H" and vals = vals
      and pv = "votes_for H (all_cast H hist) vals h VPrevote" and pc = "votes_for H (all_cast H hist) vals h VPrecommit"])
  show "finite (set vals - H)" "card (set vals - H) \<le> (length vals - 1) div 3" using few by simp_all
  show "bft.polka vals (votes_for H (all_cast H hist) vals h VPrecommit) r a"
    "bft.polka vals (votes_for H (all_cast H hist) vals h VPrecommit) r' b" using dec by (simp_all add: backed_def)
next
  fix v r a b
  assume "v \<notin> set vals - H" "votes_for H (all_cast H hist) vals h VPrevote v r a" "votes_for H (all_cast H hist) vals h VPrevote v r b"
  then have v: "v \<in> H" and "(v, h, r, VPrevote, Some a) \<in> all_cast H hist" "(v, h, r, VPrevote, Some b) \<in> all_cast H hist"
    by (auto simp: votes_for_def)
  from cast_once [OF histories_rules(1) [OF hist v]] histories_cast(2) [OF hist this(2)] histories_cast(2) [OF hist this(3)]
  show "a = b" by blast
next
  fix v r a
  assume "v \<notin> set vals - H" "votes_for H (all_cast H hist) vals h VPrecommit v r a"
  then have v: "v \<in> H" and c: "(v, h, r, VPrecommit, Some a) \<in> all_cast H hist" by (auto simp: votes_for_def)
  from histories_rules(2) [OF hist v] histories_cast(2) [OF hist c] same [OF v histories_cast(3) [OF hist c]]
  show "bft.polka vals (votes_for H (all_cast H hist) vals h VPrevote) r a"
    by (auto simp: precommits_justified_def backed_def)
next
  fix v r a r' b
  assume "v \<notin> set vals - H" "votes_for H (all_cast H hist) vals h VPrecommit v r a"
    "votes_for H (all_cast H hist) vals h VPrevote v r' b" and r: "r < r'" "b \<noteq> a"
  then have v: "v \<in> H" and c: "(v, h, r, VPrecommit, Some a) \<in> all_cast H hist" and c': "(v, h, r', VPrevote, Some b) \<in> all_cast H hist"
    by (auto simp: votes_for_def)
  from histories_rules(3) [OF hist v] histories_cast(2) [OF hist c] histories_cast(2) [OF hist c'] r
    same [OF v histories_cast(3) [OF hist c]]
  show "\<exists>vr\<ge>r. vr < r' \<and> bft.polka vals (votes_for H (all_cast H hist) vals h VPrevote) vr b"
    unfolding locks_respected_def backed_def by metis
qed

lemma histories_agree:
  assumes hist: "histories P st H hist net" and major: "honest_majority P st H net" and bind: "ids_bind P H net"
  shows "v \<in> H \<Longrightarrow> w \<in> H \<Longrightarrow> i < length (net_blocks net v) \<Longrightarrow> i < length (net_blocks net w) \<Longrightarrow>
    block_value (net_blocks net v ! i) = block_value (net_blocks net w ! i)"
proof (induction i arbitrary: v w rule: less_induct)
  case (less i)
  let ?cs = "net_blocks net" and ?h = "snd (snd st) + of_nat i"
  let ?id = "\<lambda>u. header_id P (blk_header (?cs u ! i))"
  define vals where "vals = roster_at P st (?cs v) ?h"
  have "i < 2 ^ 64" using major less.prems by (auto simp: honest_majority_def)
  note idx = unat_index [OF this, of "snd (snd st)"]
  have same: "roster_at P st (?cs u) ?h = vals" if u: "u \<in> H" "unat (?h - snd (snd st)) \<le> length (?cs u)" for u
  proof -
    from u(2) idx have "i \<le> length (?cs u)" by simp
    then have "map block_value (take i (?cs u)) = map block_value (take i (?cs v))"
      using less.IH [OF _ u(1) less.prems(1)] less.prems(3) by (intro nth_equalityI) auto
    from foldl_chain_step_values [OF this, of P st] show ?thesis by (simp only: roster_at_def vals_def idx)
  qed
  have few: "card (set vals - H) \<le> (length vals - 1) div 3"
    using major less.prems(1,3) by (auto simp: honest_majority_def Let_def vals_def)
  have dec: "\<exists>r. backed H (all_cast H hist) vals ?h VPrecommit r (?id u)" if u: "u \<in> H" "i < length (?cs u)" for u
  proof -
    from histories_rules(4) [OF hist u(1)] u(2) have "(?h, ?id u) \<in> decided H P st hist
        \<or> (\<exists>r. backed H (all_cast H hist) (roster_at P st (?cs u) ?h) ?h VPrecommit r (?id u))"
      unfolding blocks_decided_def Let_def by blast
    moreover have "roster_at P st (?cs u) ?h = vals" using u idx by (intro same) simp_all
    moreover have "\<exists>r. backed H (all_cast H hist) vals ?h VPrecommit r (?id u)" if "(?h, ?id u) \<in> decided H P st hist"
    proof -
      from that obtain x r where "x \<in> H" "unat (?h - snd (snd st)) \<le> length (committed_blocks (hist x))"
        "backed H (all_cast H hist) (roster_at P st (committed_blocks (hist x)) ?h) ?h VPrecommit r (?id u)"
        by (auto simp only: decided_def mem_Collect_eq prod.case)
      with hist same show ?thesis by (auto simp: histories_def)
    qed
    ultimately show ?thesis by auto
  qed
  from dec [OF less.prems(1,3)] dec [OF less.prems(2,4)] histories_decide_once [OF hist same few]
  have "?id v = ?id w" by blast
  with bind less.prems show ?case by (auto simp: ids_bind_def)
qed

end
