(* ===== verification/Net_Scenario.thy ===== *)
theory Net_Scenario
  imports Network Scenario
begin

text \<open>
  Concrete networks: tables of running nodes to which a script of events is played, and two scripts
  for four validators of which three are honest nodes and the fourth says what the script says. In
  the first every message is what it claims to be and the nodes decide one block. In the second the
  precommits of an earlier round are presented as precommits of a later one.
\<close>

section \<open>Playing a script\<close>

type_synonym net_table = "(VerifyingKey \<times> Node \<times> NodeOut list) list"

definition net_of :: "net_table \<Rightarrow> Network" where
  "net_of xs = \<lparr>net_node = (\<lambda>v. fst (the (map_of xs v))), net_out = (\<lambda>v. snd (the (map_of xs v)))\<rparr>"

fun net_boot ::
  "prims \<Rightarrow> (SlcBlock \<Rightarrow> string option) \<Rightarrow> GenesisConfig \<Rightarrow> node_env \<Rightarrow> (SigningKey \<times> VerifyingKey) list \<Rightarrow> net_table option" where
  "net_boot P ser g env [] = Some []"
| "net_boot P ser g env ((sk, pk) # keys) =
     do {
       n \<leftarrow> node_new P demo_transport g sk pk demo_store 1000;
       (n', out) \<leftarrow> node_start P ser env n;
       xs \<leftarrow> net_boot P ser g env keys;
       Some ((pk, n', out) # xs)
     }"

fun net_exec ::
  "net_guard \<Rightarrow> prims \<Rightarrow> (SlcBlock \<Rightarrow> string option) \<Rightarrow> (VerifyingKey \<times> node_env \<times> Event) list \<Rightarrow> net_table \<Rightarrow> net_table option" where
  "net_exec G P ser [] xs = Some xs"
| "net_exec G P ser ((v, env, ev) # evs) xs =
     do {
       (n, out) \<leftarrow> map_of xs v;
       (n', out') \<leftarrow> (if event_ok ev \<and> G (set (map fst xs)) (net_of xs) v ev then node_event P ser env ev n else None);
       net_exec G P ser evs (AList.update v (n', out @ out') xs)
     }"

lemma net_boot_Some:
  assumes "net_boot P ser g env keys = Some xs"
  shows "map fst xs = map snd keys \<and> (\<forall>(pk, n', out)\<in>set xs. \<exists>sk n. (sk, pk) \<in> set keys
    \<and> node_new P demo_transport g sk pk demo_store 1000 = Some n \<and> node_start P ser env n = Some (n', out))"
  using assms
proof (induction keys arbitrary: xs)
  case (Cons k keys)
  obtain sk pk where k: "k = (sk, pk)" by force
  with Cons.prems obtain n n' out ys where "node_new P demo_transport g sk pk demo_store 1000 = Some n"
    "node_start P ser env n = Some (n', out)" "net_boot P ser g env keys = Some ys" "xs = (pk, n', out) # ys"
    by (auto simp: bind_eq_Some_conv)
  with Cons.IH [of ys] show ?case by (fastforce simp: k)
qed simp

lemma net_boot_reach:
  assumes "net_boot P ser g env keys = Some xs" and "\<forall>(sk, pk)\<in>set keys. mldsa_correct P sk pk"
  shows "net_reach G P ser g (set (map fst xs)) (net_of xs)"
proof (rule net_reach.net_start)
  fix v assume "v \<in> set (map fst xs)"
  then obtain n' out where x: "map_of xs v = Some (n', out)" by (cases "map_of xs v") (auto simp: map_of_eq_None_iff)
  from bspec [OF conjunct2 [OF net_boot_Some [OF assms(1)]] map_of_SomeD [OF x]] assms(2) obtain sk n where
    "mldsa_correct P sk v" "node_new P demo_transport g sk v demo_store 1000 = Some n"
    "node_start P ser env n = Some (n', out)" by auto
  then show "\<exists>tr sk st base n env. mldsa_correct P sk v \<and> bs_blocks st = [] \<and> node_new P tr g sk v st base = Some n
      \<and> node_start P ser env n = Some (net_node (net_of xs) v, net_out (net_of xs) v)"
    by (intro exI [of _ demo_transport] exI [of _ sk] exI [of _ demo_store] exI [of _ 1000] exI [of _ n] exI [of _ env])
      (simp add: net_of_def x demo_store_def)
qed

lemma net_of_update:
  "net_of (AList.update v (n', out') xs) = (net_of xs)\<lparr>net_node := (net_node (net_of xs))(v := n'),
     net_out := (net_out (net_of xs))(v := out')\<rparr>"
  by (simp add: net_of_def update_conv' fun_eq_iff)

lemma net_exec_reach:
  assumes "net_exec G P ser evs xs = Some ys" and "net_reach G P ser g (set (map fst xs)) (net_of xs)"
  shows "net_reach G P ser g (set (map fst xs)) (net_of ys) \<and> map fst ys = map fst xs"
  using assms
proof (induction evs arbitrary: xs)
  case (Cons q evs)
  obtain v env ev where q: "q = (v, env, ev)" by (metis prod_cases3)
  from Cons.prems(1) obtain n out n' out' where x: "map_of xs v = Some (n, out)"
    and ev: "event_ok ev" "G (set (map fst xs)) (net_of xs) v ev" "node_event P ser env ev n = Some (n', out')"
    and rest: "net_exec G P ser evs (AList.update v (n', out @ out') xs) = Some ys"
    by (auto simp: q bind_eq_Some_conv split: if_splits)
  from x have node: "net_node (net_of xs) v = n" "net_out (net_of xs) v = out" by (simp_all add: net_of_def)
  from x have v: "v \<in> set (map fst xs)" by (force dest: map_of_SomeD)
  from v have keys: "map fst (AList.update v (n', out @ out') xs) = map fst xs" by (simp add: update_keys)
  have "net_reach G P ser g (set (map fst xs)) (net_of (AList.update v (n', out @ out') xs))"
    using net_reach.net_event [OF Cons.prems(2) v, of env ev n' out'] ev node by (simp add: net_of_update)
  with Cons.IH [OF rest] show ?case by (simp add: keys)
qed simp

text \<open>What is asked of the table at the end, in an executable form.\<close>

definition table_ok :: "prims \<Rightarrow> chain_state \<Rightarrow> VerifyingKey list \<Rightarrow> net_table \<Rightarrow> bool" where
  "table_ok P st vals xs = list_all (\<lambda>(v, n, out). length (bs_blocks (nd_store n)) \<le> 1
     \<and> list_all (\<lambda>i. roster_at P st (bs_blocks (nd_store n)) (snd (snd st) + of_nat i) = vals) [0, 1]) xs"

lemma table_majority:
  assumes "table_ok P (genesis_state ks) vals xs" and "distinct (map fst xs)" and "set (map fst xs) \<subseteq> set vals"
    and "card (set vals - set (map fst xs)) \<le> (length vals - 1) div 3"
  shows "honest_majority P (genesis_state ks) (set (map fst xs)) (net_of xs)"
  unfolding honest_majority_def Let_def
proof (intro ballI)
  fix v assume v: "v \<in> set (map fst xs)"
  then obtain n out where x: "(v, n, out) \<in> set xs" by auto
  with assms(2) have "net_blocks (net_of xs) v = bs_blocks (nd_store n)" by (simp add: net_blocks_def net_of_def)
  moreover from assms(1) x have "length (bs_blocks (nd_store n)) \<le> 1"
    and "\<And>i. i \<in> {0, 1} \<Longrightarrow> roster_at P (genesis_state ks) (bs_blocks (nd_store n)) (snd (snd (genesis_state ks)) + of_nat i) = vals"
    by (auto simp: table_ok_def list_all_iff)
  moreover have "i \<in> {0, 1}" if "i \<le> length (bs_blocks (nd_store n))" for i using that calculation(2) by auto
  ultimately show "unat (snd (snd (genesis_state ks))) + length (net_blocks (net_of xs) v) < 2 ^ 64 \<and>
      (\<forall>i\<le>length (net_blocks (net_of xs) v).
        v \<in> set (roster_at P (genesis_state ks) (net_blocks (net_of xs) v) (snd (snd (genesis_state ks)) + of_nat i)) \<and>
        card (set (roster_at P (genesis_state ks) (net_blocks (net_of xs) v) (snd (snd (genesis_state ks)) + of_nat i)) - set (map fst xs))
        \<le> (length (roster_at P (genesis_state ks) (net_blocks (net_of xs) v) (snd (snd (genesis_state ks)) + of_nat i)) - 1) div 3)"
    using assms(3,4) v by (auto simp: genesis_state_def)
qed

section \<open>Four validators\<close>

text \<open>A digest of one byte, short enough to follow a run and different for the blocks of the scripts.\<close>

definition brief_digest :: "byte list \<Rightarrow> byte list" where
  "brief_digest bs = take 1 (if length bs < 3 then bs else drop (length bs - 2) bs)"

definition brief_prims :: prims where
  "brief_prims = toy_prims\<lparr>sha3_256 := brief_digest\<rparr>"

lemma brief_mldsa_correct [simp]: "mldsa_correct brief_prims (SigningKey k) (VerifyingKey k)"
  by (simp add: mldsa_correct_def brief_prims_def toy_prims_def)

definition quad_pk :: "byte \<Rightarrow> VerifyingKey" where
  "quad_pk k = VerifyingKey [k]"

definition quad_keys :: "VerifyingKey list" where
  "quad_keys = map quad_pk [1, 2, 3, 4]"

definition quad_genesis :: GenesisConfig where
  "quad_genesis = \<lparr>gc_chain_id = ''quad'', gc_validators = map (\<lambda>k. \<lparr>vi_pubkey = k, vi_addr = ''h''\<rparr>) quad_keys\<rparr>"

definition quad_boot :: "net_table option" where
  "quad_boot = net_boot brief_prims demo_ser quad_genesis demo_env (map (\<lambda>k. (SigningKey [k], quad_pk k)) [1, 2, 3])"

text \<open>The block with the one attestation and a given time stamp, which is also its id.\<close>

definition quad_block :: "byte \<Rightarrow> Proposed" where
  "quad_block t = \<lparr>pr_header = \<lparr>bh_height = 1, bh_prev_hash = zero_hash, bh_merkle_root = leaf_hash brief_prims demo_att,
       bh_tx_count = 1, bh_timestamp = ucast t, bh_gov_root = governance_root brief_prims []\<rparr>,
     pr_attestations = [demo_att], pr_governance = []\<rparr>"

type_synonym scene = "VerifyingKey \<times> node_env \<times> Event"

definition submits :: "byte \<Rightarrow> scene" where
  "submits k = (quad_pk k, demo_env\<lparr>env_now := 5\<rparr>, EvSubmit demo_att)"

definition fires :: "byte \<Rightarrow> u64 \<Rightarrow> TimeoutKind \<Rightarrow> scene" where
  "fires k r kind = (quad_pk k, demo_env\<lparr>env_now := 6\<rparr>, EvTimeout 1 r kind)"

definition gets :: "byte \<Rightarrow> ConsensusMsg \<Rightarrow> scene" where
  "gets k m = (quad_pk k, demo_env\<lparr>env_now := 5\<rparr>, EvWire (WConsensus m))"

definition proposal_of :: "byte \<Rightarrow> u64 \<Rightarrow> u64 option \<Rightarrow> byte \<Rightarrow> ConsensusMsg" where
  "proposal_of k r vr t = Proposal (the (proposal_create brief_prims (SigningKey [k]) (quad_pk k) 1 r vr (quad_block t)))"

definition vote_of :: "byte \<Rightarrow> u64 \<Rightarrow> VoteType \<Rightarrow> byte option \<Rightarrow> VoteMsg" where
  "vote_of k r vt t = the (vote_create brief_prims (SigningKey [k]) (quad_pk k) 1 r vt (map_option (\<lambda>b. Hash [b]) t))"

abbreviation prevote_of :: "byte \<Rightarrow> u64 \<Rightarrow> byte option \<Rightarrow> ConsensusMsg" where
  "prevote_of k r t \<equiv> Vote (vote_of k r VPrevote t)"

abbreviation precommit_of :: "byte \<Rightarrow> u64 \<Rightarrow> byte option \<Rightarrow> ConsensusMsg" where
  "precommit_of k r t \<equiv> Vote (vote_of k r VPrecommit t)"

text \<open>The stores at the end, each block by its time stamp, together with the facts the theorems need.\<close>

definition quad_result :: "net_guard \<Rightarrow> scene list \<Rightarrow> (VerifyingKey \<times> u64 list) list \<Rightarrow> bool" where
  "quad_result G scenes stores =
     (case quad_boot \<bind> net_exec G brief_prims demo_ser scenes of
        None \<Rightarrow> False
      | Some xs \<Rightarrow> map (\<lambda>(v, n, out). (v, map (bh_timestamp \<circ> blk_header) (bs_blocks (nd_store n)))) xs = stores
          \<and> list_all (\<lambda>(v, n, out). list_all (\<lambda>b. block_value b = quad_block (ucast (bh_timestamp (blk_header b))))
               (bs_blocks (nd_store n))) xs
          \<and> table_ok brief_prims (genesis_state quad_keys) quad_keys xs)"

text \<open>
  An undisturbed round. The second validator proposes, the first and the third see a quorum of
  prevotes and decide with the precommit of the fourth.
\<close>

definition plain_script :: "scene list" where
  "plain_script =
     [submits 2, gets 1 (proposal_of 2 0 None 5), gets 3 (proposal_of 2 0 None 5),
      gets 1 (prevote_of 2 0 (Some 5)), gets 1 (prevote_of 3 0 (Some 5)),
      gets 3 (prevote_of 1 0 (Some 5)), gets 3 (prevote_of 2 0 (Some 5)),
      gets 1 (precommit_of 3 0 (Some 5)), gets 1 (precommit_of 4 0 (Some 5)),
      gets 3 (precommit_of 1 0 (Some 5)), gets 3 (precommit_of 4 0 (Some 5))]"

text \<open>
  Four rounds. In the first only validator 1 sees the prevotes for block 5 and locks it. In the second,
  validator 2 locks block 6, and validator 1 learns too late of its prevotes. In the third, validator 3
  locks block 5. In the fourth, validator 1 may follow the prevotes for block 6 of the second round, and
  validator 2 decides block 6. Validator 3 decides block 5, because the precommit that validator 1
  sent in the first round is shown to it as one of the third. Validator 4 is faulty throughout.
\<close>

definition fork_round0 :: "scene list" where
  "fork_round0 =
     [submits 2, submits 3, gets 1 (proposal_of 2 0 None 5), gets 3 (proposal_of 2 0 None 5),
      gets 1 (prevote_of 2 0 (Some 5)), gets 1 (prevote_of 3 0 (Some 5)),
      gets 3 (prevote_of 1 0 (Some 5)), gets 3 (prevote_of 4 0 None), fires 3 0 ToPrevote,
      gets 3 (precommit_of 4 0 None), gets 3 (precommit_of 1 0 (Some 5)), fires 3 0 ToPrecommit]"

definition fork_round1 :: "scene list" where
  "fork_round1 =
     [gets 2 (prevote_of 3 1 (Some 6)), gets 2 (prevote_of 4 1 (Some 6)),
      gets 2 (proposal_of 3 1 None 6), gets 1 (prevote_of 3 1 (Some 6)),
      gets 1 (prevote_of 4 1 (Some 6)), gets 1 (proposal_of 3 1 None 6), fires 1 1 ToPrevote,
      gets 1 (prevote_of 2 1 (Some 6)), gets 1 (precommit_of 4 1 None),
      gets 1 (precommit_of 2 1 (Some 6)), fires 1 1 ToPrecommit]"

definition fork_round2 :: "scene list" where
  "fork_round2 =
     [gets 1 (proposal_of 4 2 (Some 0) 5), gets 3 (prevote_of 1 2 (Some 5)),
      gets 3 (prevote_of 4 2 (Some 5)), gets 3 (prevote_of 2 0 (Some 5)),
      gets 3 (proposal_of 4 2 (Some 0) 5), gets 1 (prevote_of 4 2 None),
      gets 1 (prevote_of 3 2 (Some 5)), fires 1 2 ToPrevote, gets 1 (precommit_of 4 2 None),
      gets 1 (precommit_of 3 2 (Some 5)), fires 1 2 ToPrecommit]"

definition fork_round3 :: "scene list" where
  "fork_round3 =
     [gets 2 (prevote_of 1 3 (Some 6)), gets 2 (prevote_of 4 3 (Some 6)),
      gets 2 (proposal_of 1 3 (Some 1) 6), gets 1 (prevote_of 2 3 (Some 6)),
      gets 1 (prevote_of 4 3 (Some 6)), gets 2 (precommit_of 1 3 (Some 6)),
      gets 2 (precommit_of 4 3 (Some 6)), gets 3 (precommit_of 4 2 (Some 5)),
      gets 3 (Vote ((vote_of 1 0 VPrecommit (Some 5))\<lparr>vm_round := 2\<rparr>))]"

section \<open>Code equations\<close>

text \<open>Shorter evaluation: small integers, the contexts and tags as byte lists, small pools.\<close>

lemma to_be_bytes_code [code]:
  "to_be_bytes n w = (if n = 0 then [] else if drop_bit 8 w = 0 then replicate (n - 1) 0 @ [ucast w]
     else map (\<lambda>i. ucast (drop_bit (8 * i) w)) (rev [0..<n]))"
proof (cases n)
  case (Suc m)
  show ?thesis
  proof (cases "drop_bit 8 w = 0")
    case True
    have "drop_bit (8 * i) w = 0" if "0 < i" for i
    proof -
      from that obtain j where "8 * i = 8 * j + 8" by (cases i) auto
      then show ?thesis using True by (metis drop_bit_drop_bit drop_bit_of_0)
    qed
    then have "map (\<lambda>i. ucast (drop_bit (8 * i) w) :: byte) (rev [1..<Suc m]) = replicate m 0"
      by (intro replicate_eqI) auto
    with True Suc show ?thesis by (simp add: to_be_bytes_def upt_conv_Cons del: upt_Suc)
  qed (simp add: to_be_bytes_def)
qed (simp add: to_be_bytes_def)

lemma ctx_code [code]:
  "ctx_BLOCK = [83, 76, 67, 45, 98, 108, 111, 99, 107, 45, 118, 49]"
  "ctx_VOTE = [83, 76, 67, 45, 118, 111, 116, 101, 45, 118, 49]"
  "ctx_PROPOSAL = [83, 76, 67, 45, 112, 114, 111, 112, 111, 115, 97, 108, 45, 118, 49]"
  "ctx_ATTESTATION = [83, 76, 67, 45, 97, 116, 116, 101, 115, 116, 97, 116, 105, 111, 110, 45, 118, 49]"
  by code_simp+

lemma get_value_code [code]:
  "get_value P e =
     (let attestations = (if length (e_mempool e) < 3 then e_mempool e else take MAX_TXS (e_mempool e));
          merkle_root = merkle_root_of P (merkle_build P (map (leaf_hash P) attestations));
          governance = filter (\<lambda>g. is_authorized P g (e_current_set e)
                                 \<and> e_height e < vc_activation_height (svc_change g)) (e_gov_mempool e);
          header = \<lparr>bh_height = e_height e, bh_prev_hash = e_tip e, bh_merkle_root = merkle_root,
                    bh_tx_count = len_as_u32 attestations, bh_timestamp = e_now e,
                    bh_gov_root = governance_root P governance\<rparr>
      in \<lparr>pr_header = header, pr_attestations = attestations, pr_governance = governance\<rparr>)"
  by (simp add: get_value_def MAX_TXS_def)

lemma governance_root_code [code]:
  "governance_root P changes = digest P ([83, 76, 67, 45, 103, 111, 118, 114, 111, 111, 116, 45, 118, 49]
     @ u32_be (len_as_u32 changes) @ concat (map (\<lambda>c. as_bytes (commitment P c)) changes))"
  by (simp add: governance_root_def ascii_def)

section \<open>The runs\<close>

lemma quad_block_id: "proposed_id brief_prims (quad_block t) = Hash [t]"
proof -
  have "governance_root brief_prims [] = Hash [0]" "leaf_hash brief_prims demo_att = Hash [49]" by code_simp+
  moreover have "drop_bit 8 (ucast t :: u64) = 0" by (rule bit_word_eqI) (auto simp: bit_drop_bit_eq bit_ucast_iff dest: bit_imp_le_length)
  moreover have "(ucast (ucast t :: u64) :: byte) = t" by (rule bit_word_eqI) (simp add: bit_ucast_iff)
  ultimately show ?thesis
    by (simp add: proposed_id_def header_id_def quad_block_def header_signing_bytes_def digest_def brief_prims_def
        brief_digest_def zero_hash_def to_be_bytes_code)
qed

lemma block_value_id: "header_id P (blk_header b) = proposed_id P (block_value b)"
  by (simp add: block_value_def proposed_id_def)

lemma quad_resultE:
  assumes "quad_result G scenes stores"
  obtains xs where "net_reach G brief_prims demo_ser quad_genesis (set (map quad_pk [1, 2, 3])) (net_of xs)"
    and "honest_majority brief_prims (genesis_state quad_keys) (set (map quad_pk [1, 2, 3])) (net_of xs)"
    and "ids_bind brief_prims (set (map quad_pk [1, 2, 3])) (net_of xs)"
    and "\<And>v ts. (v, ts) \<in> set stores \<Longrightarrow> map block_value (net_blocks (net_of xs) v) = map (quad_block \<circ> ucast) ts"
proof -
  from assms obtain ys xs where boot: "quad_boot = Some ys" and exec: "net_exec G brief_prims demo_ser scenes ys = Some xs"
    and stores: "map (\<lambda>(v, n, out). (v, map (bh_timestamp \<circ> blk_header) (bs_blocks (nd_store n)))) xs = stores"
    and blocks: "\<forall>(v, n, out)\<in>set xs. \<forall>b\<in>set (bs_blocks (nd_store n)). block_value b = quad_block (ucast (bh_timestamp (blk_header b)))"
    and ok: "table_ok brief_prims (genesis_state quad_keys) quad_keys xs"
    by (auto simp: quad_result_def list_all_iff bind_eq_Some_conv split: option.splits)
  let ?H = "set (map quad_pk [1, 2, 3])"
  have ys: "map fst ys = map quad_pk [1, 2, 3]" using net_boot_Some [OF boot [unfolded quad_boot_def]] by simp
  have "net_reach G brief_prims demo_ser quad_genesis (set (map fst ys)) (net_of ys)"
    by (rule net_boot_reach [OF boot [unfolded quad_boot_def]]) (auto simp: quad_pk_def)
  from net_exec_reach [OF exec this] ys have xs: "map fst xs = map quad_pk [1, 2, 3]"
    and reach: "net_reach G brief_prims demo_ser quad_genesis ?H (net_of xs)" by simp_all
  have dist: "distinct (map fst xs)" by (simp add: xs quad_pk_def)
  have major: "honest_majority brief_prims (genesis_state quad_keys) ?H (net_of xs)"
    using table_majority [OF ok dist] xs by (simp add: quad_keys_def quad_pk_def)
  have store: "net_blocks (net_of xs) v = bs_blocks (nd_store n)" if "(v, n, out) \<in> set xs" for v n out
    using that dist by (simp add: net_blocks_def net_of_def)
  show ?thesis
  proof (rule that [OF reach major])
    have quad: "\<exists>t. block_value b = quad_block t" if v: "v \<in> ?H" and b: "b \<in> set (net_blocks (net_of xs) v)" for v b
    proof -
      from v have "v \<in> fst ` set xs" unfolding xs [symmetric] by simp
      then obtain n out where x: "(v, n, out) \<in> set xs" by auto
      with bspec [OF blocks x] b show ?thesis by (auto simp: store [OF x])
    qed
    show "ids_bind brief_prims ?H (net_of xs)"
      unfolding ids_bind_def block_value_id
    proof (intro ballI impI)
      fix v w b c
      assume "v \<in> ?H" "w \<in> ?H" "b \<in> set (net_blocks (net_of xs) v)" "c \<in> set (net_blocks (net_of xs) w)"
        and "proposed_id brief_prims (block_value b) = proposed_id brief_prims (block_value c)"
      with quad [of v b] quad [of w c] show "block_value b = block_value c" by (auto simp: quad_block_id)
    qed
  next
    fix v ts assume "(v, ts) \<in> set stores"
    with stores obtain n out where x: "(v, n, out) \<in> set xs"
      and "ts = map (bh_timestamp \<circ> blk_header) (bs_blocks (nd_store n))" by auto
    with bspec [OF blocks x] show "map block_value (net_blocks (net_of xs) v) = map (quad_block \<circ> ucast) ts"
      by (simp add: store [OF x] comp_def)
  qed
qed

lemma plain_run: "quad_result genuine plain_script [(quad_pk 1, [5]), (quad_pk 2, []), (quad_pk 3, [5])]"
  by code_simp

lemma fork_run:
  "quad_result unforged (fork_round0 @ fork_round1 @ fork_round2 @ fork_round3)
     [(quad_pk 1, []), (quad_pk 2, [6]), (quad_pk 3, [5])]"
  by code_simp

end
