(* ===== verification/Network_Props.thy ===== *)
theory Network_Props
  imports Net_Scenario
begin

text \<open>
  The safety of the agreement in a network with faulty validators, and where it ends.
\<close>

section \<open>Agreement\<close>


lemma quad_validator_keys [simp]: "validator_keys quad_genesis = quad_keys"
  by (simp add: quad_genesis_def validator_keys_def comp_def)


section \<open>Precommits without a round\<close>

text \<open>
  C17: The demand on the rounds is needed, and the signatures do not enforce it. There is a run with four
  validators, three of them honest nodes, in which every vote under an honest validator's name is one
  that it has signed and only the round of one precommit is changed, and timers fire only when set; all
  other assumptions of the agreement hold. Two honest nodes commit different blocks at the first height.
\<close>

theorem relabelled_precommit_forks:
  "\<exists>net. net_reach unforged brief_prims demo_ser quad_genesis (set (map quad_pk [1, 2, 3])) net
     \<and> honest_majority brief_prims (genesis_state (validator_keys quad_genesis)) (set (map quad_pk [1, 2, 3])) net
     \<and> ids_bind brief_prims (set (map quad_pk [1, 2, 3])) net
     \<and> map block_value (net_blocks net (quad_pk 2)) = [quad_block 6]
     \<and> map block_value (net_blocks net (quad_pk 3)) = [quad_block 5]
     \<and> proposed_id brief_prims (quad_block 6) \<noteq> proposed_id brief_prims (quad_block 5)"
proof -
  from fork_run obtain xs where
    r: "net_reach unforged brief_prims demo_ser quad_genesis (set (map quad_pk [1, 2, 3])) (net_of xs)"
      "honest_majority brief_prims (genesis_state quad_keys) (set (map quad_pk [1, 2, 3])) (net_of xs)"
      "ids_bind brief_prims (set (map quad_pk [1, 2, 3])) (net_of xs)"
    and b: "\<And>v ts. (v, ts) \<in> set [(quad_pk 1, []), (quad_pk 2, [6]), (quad_pk 3, [5])] \<Longrightarrow>
      map block_value (net_blocks (net_of xs) v) = map (quad_block \<circ> ucast) (ts :: u64 list)"
    by (rule quad_resultE) blast
  from b [of "quad_pk 2" "[6]"] b [of "quad_pk 3" "[5]"] r show ?thesis
    by (intro exI [of _ "net_of xs"]) (simp add: quad_block_id)
qed

end
