(* ===== verification/Keystore.thy ===== *)
theory Keystore
  imports License
begin

text \<open>
  Key files: the validator and client keystore (\<^verbatim>\<open>crates/node/src/keystore.rs\<close>) and the license
  issuer's (\<^verbatim>\<open>crates/license/src/keystore.rs\<close>). The file system is a map from paths to
  contents with the paths that can be written; the JSON form of a key file (\<^verbatim>\<open>serde_json\<close>) is
  an argument, and so are the random bytes of a key generation.
\<close>

section \<open>Files\<close>

record host =
  h_files :: "string \<Rightarrow> string option"
  h_writable :: "string \<Rightarrow> bool"

definition fs_exists :: "string \<Rightarrow> host \<Rightarrow> bool" where
  "fs_exists path H \<longleftrightarrow> h_files H path \<noteq> None"

definition fs_write :: "string \<Rightarrow> string \<Rightarrow> host \<Rightarrow> host option" where
  "fs_write path content H =
     (if h_writable H path then Some (H\<lparr>h_files := (h_files H)(path \<mapsto> content)\<rparr>) else None)"

lemma fs_write_SomeD:
  assumes "fs_write path content H = Some H'"
  shows "h_files H' = (h_files H)(path \<mapsto> content)" and "h_writable H' = h_writable H"
  using assms by (auto simp: fs_write_def split: if_splits)

section \<open>The node's keystore\<close>

record KeyFile =
  kf_secret_key :: string
  kf_public_key :: string

record key_json =
  kj_to_string :: "KeyFile \<Rightarrow> string option"
  kj_from_str :: "string \<Rightarrow> KeyFile option"

datatype KeystoreError = KsRead | KsWrite | KsJson | KsHex | KsKey CryptoError | KsGenerate CryptoError

definition keystore_save ::
  "prims \<Rightarrow> key_json \<Rightarrow> string \<Rightarrow> SigningKey \<Rightarrow> VerifyingKey \<Rightarrow> host \<Rightarrow> KeystoreError + host" where
  "keystore_save P J path sk pk H =
     (case kj_to_string J \<lparr>kf_secret_key = hex_encode P (sk_bytes sk), kf_public_key = vk_to_hex P pk\<rparr> of
        None \<Rightarrow> Inl KsJson
      | Some json \<Rightarrow> (case fs_write path json H of None \<Rightarrow> Inl KsWrite | Some H' \<Rightarrow> Inr H'))"

definition keystore_load ::
  "prims \<Rightarrow> key_json \<Rightarrow> string \<Rightarrow> host \<Rightarrow> KeystoreError + (SigningKey \<times> VerifyingKey)" where
  "keystore_load P J path H =
     (case h_files H path of
        None \<Rightarrow> Inl KsRead
      | Some json \<Rightarrow>
          (case kj_from_str J json of
             None \<Rightarrow> Inl KsJson
           | Some kf \<Rightarrow>
               (case hex_decode P (kf_secret_key kf) of
                  None \<Rightarrow> Inl KsHex
                | Some raw \<Rightarrow>
                    (case sk_from_bytes P raw of
                       Inl e \<Rightarrow> Inl (KsKey e)
                     | Inr sk \<Rightarrow>
                         (case vk_from_hex P (kf_public_key kf) of
                            Inl e \<Rightarrow> Inl (KsKey e)
                          | Inr pk \<Rightarrow> Inr (sk, pk))))))"

definition keystore_generate ::
  "prims \<Rightarrow> key_json \<Rightarrow> byte list \<Rightarrow> string \<Rightarrow> host \<Rightarrow> KeystoreError + ((SigningKey \<times> VerifyingKey) \<times> host)" where
  "keystore_generate P J seed path H =
     (case sk_generate P seed of
        Inl e \<Rightarrow> Inl (KsGenerate e)
      | Inr (sk, pk) \<Rightarrow>
          (case keystore_save P J path sk pk H of Inl e \<Rightarrow> Inl e | Inr H' \<Rightarrow> Inr ((sk, pk), H')))"

section \<open>The issuer's keystore\<close>

definition issuer_file_generate ::
  "prims \<Rightarrow> key_json \<Rightarrow> byte list \<Rightarrow> string \<Rightarrow> host \<Rightarrow> KeystoreError + (LicenseIssuer \<times> host)" where
  "issuer_file_generate P J seed path H =
     (case slh_generate P seed of
        Inl e \<Rightarrow> Inl (KsGenerate e)
      | Inr (sk, pk) \<Rightarrow>
          (case kj_to_string J \<lparr>kf_secret_key = hex_encode P (slh_sk_bytes sk), kf_public_key = slh_vk_to_hex P pk\<rparr> of
             None \<Rightarrow> Inl KsJson
           | Some json \<Rightarrow>
               (case fs_write path json H of
                  None \<Rightarrow> Inl KsWrite
                | Some H' \<Rightarrow> Inr (issuer_from_keypair sk pk, H'))))"

definition issuer_file_load :: "prims \<Rightarrow> key_json \<Rightarrow> string \<Rightarrow> host \<Rightarrow> KeystoreError + LicenseIssuer" where
  "issuer_file_load P J path H =
     (case h_files H path of
        None \<Rightarrow> Inl KsRead
      | Some json \<Rightarrow>
          (case kj_from_str J json of
             None \<Rightarrow> Inl KsJson
           | Some kf \<Rightarrow>
               (case hex_decode P (kf_secret_key kf) of
                  None \<Rightarrow> Inl KsHex
                | Some raw \<Rightarrow>
                    (case slh_sk_from_bytes P raw of
                       Inl e \<Rightarrow> Inl (KsKey e)
                     | Inr sk \<Rightarrow>
                         (case slh_vk_from_hex P (kf_public_key kf) of
                            Inl e \<Rightarrow> Inl (KsKey e)
                          | Inr pk \<Rightarrow> Inr (issuer_from_keypair sk pk))))))"

section \<open>Files give back the keys\<close>

text \<open>
  The interface of a key file, shared by the two keystores: \<open>store\<close> writes a key pair,
  \<open>fetch\<close> reads one, and pairs that are \<open>ok\<close> come back. The clients of the keystores need no
  more than this.
\<close>

locale key_store =
  fixes store :: "string \<Rightarrow> 'k \<Rightarrow> host \<Rightarrow> KeystoreError + host"
    and fetch :: "string \<Rightarrow> host \<Rightarrow> KeystoreError + 'k"
    and ok :: "'k \<Rightarrow> bool"
  assumes fetch_store: "ok k \<Longrightarrow> store path k H = Inr H' \<Longrightarrow> fetch path H' = Inr k"
    and store_frame: "store path k H = Inr H' \<Longrightarrow> other \<noteq> path \<Longrightarrow> h_files H' other = h_files H other"
    and fetch_local: "h_files H path = h_files H' path \<Longrightarrow> fetch path H = fetch path H'"
    and fetch_missing: "\<not> fs_exists path H \<Longrightarrow> fetch path H = Inl KsRead"
begin

lemma fetch_other: "store path k H = Inr H' \<Longrightarrow> other \<noteq> path \<Longrightarrow> fetch other H' = fetch other H"
  by (rule fetch_local) (rule store_frame)

lemma store_twice:
  "ok k \<Longrightarrow> store path k H = Inr H1 \<Longrightarrow> store path' k' H1 = Inr H2 \<Longrightarrow> path' \<noteq> path \<Longrightarrow> fetch path H2 = Inr k"
  by (metis fetch_other fetch_store)

lemma store_exists: "ok k \<Longrightarrow> store path k H = Inr H' \<Longrightarrow> fs_exists path H'"
  by (metis fetch_store fetch_missing sum.distinct(1))

end

definition json_inverse :: "key_json \<Rightarrow> bool" where
  "json_inverse J \<longleftrightarrow> (\<forall>kf s. kj_to_string J kf = Some s \<longrightarrow> kj_from_str J s = Some kf)"

text \<open>The keys that \<^verbatim>\<open>from_bytes\<close> takes back: those of the right widths that the crates accept.\<close>

definition pair_ok :: "prims \<Rightarrow> SigningKey \<times> VerifyingKey \<Rightarrow> bool" where
  "pair_ok P k \<longleftrightarrow> length (sk_bytes (fst k)) = SECKEY_LEN \<and> mldsa_sk_ok P (sk_bytes (fst k))
     \<and> length (vk_bytes (snd k)) = PUBKEY_LEN \<and> mldsa_pk_ok P (vk_bytes (snd k))"

definition issuer_ok :: "prims \<Rightarrow> LicenseIssuer \<Rightarrow> bool" where
  "issuer_ok P i \<longleftrightarrow> length (slh_sk_bytes (iss_sk i)) = SLH_SECKEY_LEN \<and> slh_sk_ok P (slh_sk_bytes (iss_sk i))
     \<and> length (slh_vk_bytes (iss_pk i)) = SLH_PUBKEY_LEN \<and> slh_pk_ok P (slh_vk_bytes (iss_pk i))"

text \<open>The second half of \<^verbatim>\<open>generate\<close> of the issuer's keystore.\<close>

definition issuer_file_save ::
  "prims \<Rightarrow> key_json \<Rightarrow> string \<Rightarrow> LicenseIssuer \<Rightarrow> host \<Rightarrow> KeystoreError + host" where
  "issuer_file_save P J path i H =
     (case kj_to_string J \<lparr>kf_secret_key = hex_encode P (slh_sk_bytes (iss_sk i)), kf_public_key = slh_vk_to_hex P (iss_pk i)\<rparr> of
        None \<Rightarrow> Inl KsJson
      | Some json \<Rightarrow> (case fs_write path json H of None \<Rightarrow> Inl KsWrite | Some H' \<Rightarrow> Inr H'))"

lemma issuer_file_generate_eq:
  "issuer_file_generate P J seed path H =
     (case slh_generate P seed of
        Inl e \<Rightarrow> Inl (KsGenerate e)
      | Inr (sk, pk) \<Rightarrow>
          (case issuer_file_save P J path (issuer_from_keypair sk pk) H of
             Inl e \<Rightarrow> Inl e | Inr H' \<Rightarrow> Inr (issuer_from_keypair sk pk, H')))"
  by (simp add: issuer_file_generate_def issuer_file_save_def issuer_from_keypair_def split: sum.splits option.splits prod.splits)

interpretation node_keys: key_store "\<lambda>path k. keystore_save P J path (fst k) (snd k)" "keystore_load P J"
  "\<lambda>k. hex_inverse P \<and> json_inverse J \<and> pair_ok P k" for P J
proof unfold_locales
  fix k path H H'
  assume ok: "hex_inverse P \<and> json_inverse J \<and> pair_ok P k"
    and "keystore_save P J path (fst k) (snd k) H = Inr H'"
  then obtain json where "kj_to_string J \<lparr>kf_secret_key = hex_encode P (sk_bytes (fst k)), kf_public_key = vk_to_hex P (snd k)\<rparr> = Some json"
    and w: "fs_write path json H = Some H'"
    by (auto simp: keystore_save_def split: option.splits)
  then have "kj_from_str J json = Some \<lparr>kf_secret_key = hex_encode P (sk_bytes (fst k)), kf_public_key = vk_to_hex P (snd k)\<rparr>"
    using ok by (simp add: json_inverse_def)
  moreover have "vk_from_hex P (vk_to_hex P (snd k)) = Inr (snd k)"
    using ok by (intro vk_hex.dec_enc) (simp add: pair_ok_def)
  moreover have "sk_from_bytes P (sk_bytes (fst k)) = Inr (fst k)" "hex_decode P (hex_encode P (sk_bytes (fst k))) = Some (sk_bytes (fst k))"
    using ok by (simp_all add: pair_ok_def sk_from_bytes_def hex_inverse_def)
  ultimately show "keystore_load P J path H' = Inr k"
    by (simp add: keystore_load_def fs_write_SomeD [OF w])
qed (auto simp: keystore_save_def keystore_load_def fs_exists_def dest: fs_write_SomeD split: option.splits)

interpretation issuer_keys: key_store "issuer_file_save P J" "issuer_file_load P J"
  "\<lambda>i. hex_inverse P \<and> json_inverse J \<and> issuer_ok P i" for P J
proof unfold_locales
  fix i path H H'
  assume ok: "hex_inverse P \<and> json_inverse J \<and> issuer_ok P i" and "issuer_file_save P J path i H = Inr H'"
  then obtain json where "kj_to_string J \<lparr>kf_secret_key = hex_encode P (slh_sk_bytes (iss_sk i)), kf_public_key = slh_vk_to_hex P (iss_pk i)\<rparr> = Some json"
    and w: "fs_write path json H = Some H'"
    by (auto simp: issuer_file_save_def split: option.splits)
  then have "kj_from_str J json = Some \<lparr>kf_secret_key = hex_encode P (slh_sk_bytes (iss_sk i)), kf_public_key = slh_vk_to_hex P (iss_pk i)\<rparr>"
    using ok by (simp add: json_inverse_def)
  moreover have "slh_vk_from_hex P (slh_vk_to_hex P (iss_pk i)) = Inr (iss_pk i)"
    using ok by (intro slh_vk_hex.dec_enc) (simp add: issuer_ok_def)
  moreover have "slh_sk_from_bytes P (slh_sk_bytes (iss_sk i)) = Inr (iss_sk i)"
    "hex_decode P (hex_encode P (slh_sk_bytes (iss_sk i))) = Some (slh_sk_bytes (iss_sk i))"
    using ok by (simp_all add: issuer_ok_def slh_sk_from_bytes_def hex_inverse_def)
  ultimately show "issuer_file_load P J path H' = Inr i"
    by (simp add: issuer_file_load_def fs_write_SomeD [OF w] issuer_from_keypair_def)
qed (auto simp: issuer_file_save_def issuer_file_load_def fs_exists_def dest: fs_write_SomeD split: option.splits)

end
