(* ===== verification/Startup.thy ===== *)
theory Startup
  imports Rpc Keystore
begin

text \<open>
  The validator program \<^verbatim>\<open>slc-node\<close> (\<^verbatim>\<open>crates/node/src/bin/slc-node.rs\<close>) up to the point where
  the node runs: its configuration (\<^verbatim>\<open>config.rs\<close>), the start-up with the license gate, the
  container entry point and the generator of a local network. Standard output is left out. The
  machine is explicit: files, environment, clock, sockets and random bytes; JSON (\<^verbatim>\<open>serde_json\<close>)
  is an argument.
\<close>

section \<open>Text\<close>

definition is_digit :: "char \<Rightarrow> bool" where
  "is_digit c \<longleftrightarrow> 48 \<le> (of_char c :: nat) \<and> (of_char c :: nat) \<le> 57"

definition digits_value :: "string \<Rightarrow> nat" where
  "digits_value ds = foldl (\<lambda>n c. 10 * n + (of_char c - 48)) 0 ds"

text \<open>\<^verbatim>\<open>str::parse\<close> for an unsigned type with the given greatest value.\<close>

definition parse_uint :: "nat \<Rightarrow> string \<Rightarrow> nat option" where
  "parse_uint most s =
     (let ds = (case s of c # rest \<Rightarrow> if c = CHR ''+'' \<and> rest \<noteq> [] then rest else s | [] \<Rightarrow> []) in
      if ds = [] \<or> \<not> list_all is_digit ds then None
      else if digits_value ds \<le> most then Some (digits_value ds) else None)"

definition parse_u64 :: "string \<Rightarrow> u64 option" where
  "parse_u64 s = map_option of_nat (parse_uint (2 ^ 64 - 1) s)"

definition parse_u32 :: "string \<Rightarrow> u32 option" where
  "parse_u32 s = map_option of_nat (parse_uint (2 ^ 32 - 1) s)"

fun split_on :: "char \<Rightarrow> string \<Rightarrow> string list" where
  "split_on c [] = [[]]"
| "split_on c (x # xs) =
     (if x = c then [] # split_on c xs
      else case split_on c xs of w # ws \<Rightarrow> (x # w) # ws | [] \<Rightarrow> [[x]])"

definition is_space :: "char \<Rightarrow> bool" where
  "is_space c \<longleftrightarrow> c = CHR '' '' \<or> (9 \<le> (of_char c :: nat) \<and> (of_char c :: nat) \<le> 13)"

definition trim :: "string \<Rightarrow> string" where
  "trim s = rev (dropWhile is_space (rev (dropWhile is_space s)))"

text \<open>\<^verbatim>\<open>BufRead::lines\<close>: the pieces between line feeds, without a carriage return before them.\<close>

definition chomp :: "string \<Rightarrow> string" where
  "chomp l = (if l \<noteq> [] \<and> last l = CHR 0x0D then butlast l else l)"

definition text_lines :: "string \<Rightarrow> string list" where
  "text_lines s = (let ws = split_on (CHR 0x0A) s in map chomp (if last ws = [] then butlast ws else ws))"

section \<open>Configuration\<close>

record NodeConfig =
  nc_genesis :: GenesisConfig
  nc_key_path :: string
  nc_block_store_path :: string
  nc_base_timeout_ms :: u64
  nc_listen :: "string option"
  nc_peers :: "string list option"
  nc_anchor_interval :: u64
  nc_anchor_backend :: "string option"
  nc_anchor_file :: "string option"
  nc_notaryhash_endpoint :: "string option"
  nc_notaryhash_api_key_env :: "string option"
  nc_anchor_key_path :: "string option"
  nc_rpc_addr :: "string option"
  nc_license_file :: "string option"
  nc_license_issuer_pubkey :: "string option"

text \<open>The fields that \<^verbatim>\<open>anchoring.rs\<close> reads.\<close>

definition anchor_config :: "NodeConfig \<Rightarrow> AnchorConfig" where
  "anchor_config c =
     \<lparr>ac_anchor_interval = nc_anchor_interval c, ac_anchor_backend = nc_anchor_backend c,
      ac_anchor_file = nc_anchor_file c, ac_notaryhash_endpoint = nc_notaryhash_endpoint c,
      ac_notaryhash_api_key_env = nc_notaryhash_api_key_env c\<rparr>"

text \<open>
  The JSON of \<^verbatim>\<open>serde_json\<close>: \<open>js_config_to\<close> prints a configuration directly, the two
  \<open>_value\<close> printers go through a \<^verbatim>\<open>serde_json::Value\<close> first.
\<close>

record json =
  js_keys :: key_json
  js_config_to :: "NodeConfig \<Rightarrow> string option"
  js_config_from :: "string \<Rightarrow> NodeConfig option"
  js_config_value :: "NodeConfig \<Rightarrow> string option"
  js_genesis_value :: "GenesisConfig \<Rightarrow> string option"
  js_genesis_from :: "string \<Rightarrow> GenesisConfig option"
  js_block_from :: "string \<Rightarrow> SlcBlock option"
  js_usage_from :: "string \<Rightarrow> Persisted option"
  js_license_from :: "string \<Rightarrow> LicenseError + SignedLicense"
  js_license_bytes :: "License \<Rightarrow> byte list"

record machine =
  mc_host :: host
  mc_env :: "string \<Rightarrow> string option"
  mc_now :: u64
  mc_now_meter :: u64
  mc_mkdir :: "string \<Rightarrow> bool"
  mc_bind :: "string \<Rightarrow> bool"
  mc_http :: "string \<Rightarrow> string + string"
  mc_seed :: "byte list"

definition read_file :: "string \<Rightarrow> machine \<Rightarrow> string option" where
  "read_file path M = h_files (mc_host M) path"

text \<open>A non-empty environment variable.\<close>

definition env_var :: "string \<Rightarrow> machine \<Rightarrow> string option" where
  "env_var k M = (case mc_env M k of Some v \<Rightarrow> if v \<noteq> [] then Some v else None | None \<Rightarrow> None)"

definition or_default :: "'a option \<Rightarrow> 'a \<Rightarrow> 'a" where
  "or_default v d = (case v of Some x \<Rightarrow> x | None \<Rightarrow> d)"

definition or_else_some :: "'a option \<Rightarrow> 'a \<Rightarrow> 'a option" where
  "or_else_some v d = (case v of Some x \<Rightarrow> Some x | None \<Rightarrow> Some d)"

datatype ConfigError = GenesisFileUnset | GenesisUnreadable | GenesisUnparsable | SerializeFailed | WriteFailed

definition config_from_env :: "GenesisConfig \<Rightarrow> machine \<Rightarrow> NodeConfig" where
  "config_from_env genesis M =
     \<lparr>nc_genesis = genesis,
      nc_key_path = or_default (env_var ''SLC_KEYSTORE'' M) ''/data/node.key'',
      nc_block_store_path = or_default (env_var ''SLC_STORE'' M) ''/data/blocks'',
      nc_base_timeout_ms = or_default (Option.bind (env_var ''SLC_BASE_TIMEOUT_MS'' M) parse_u64) 1000,
      nc_listen = or_else_some (env_var ''SLC_LISTEN'' M) ''0.0.0.0:9000'',
      nc_peers = map_option (\<lambda>s. map trim (split_on (CHR '','') s)) (env_var ''SLC_PEERS'' M),
      nc_anchor_interval = or_default (Option.bind (env_var ''SLC_ANCHOR_INTERVAL'' M) parse_u64) 0,
      nc_anchor_backend = env_var ''SLC_ANCHOR_BACKEND'' M,
      nc_anchor_file = env_var ''SLC_ANCHOR_FILE'' M,
      nc_notaryhash_endpoint = env_var ''SLC_NOTARYHASH_ENDPOINT'' M,
      nc_notaryhash_api_key_env = env_var ''SLC_NOTARYHASH_API_KEY_ENV'' M,
      nc_anchor_key_path = env_var ''SLC_ANCHOR_KEY_PATH'' M,
      nc_rpc_addr = or_else_some (env_var ''SLC_RPC'' M) ''0.0.0.0:7000'',
      nc_license_file = env_var ''SLC_LICENSE_FILE'' M,
      nc_license_issuer_pubkey = env_var ''SLC_LICENSE_ISSUER_PUBKEY'' M\<rparr>"

definition write_config :: "json \<Rightarrow> string \<Rightarrow> machine \<Rightarrow> ConfigError + machine" where
  "write_config J out M =
     (case env_var ''SLC_GENESIS_FILE'' M of
        None \<Rightarrow> Inl GenesisFileUnset
      | Some genesis_file \<Rightarrow>
          (case read_file genesis_file M of
             None \<Rightarrow> Inl GenesisUnreadable
           | Some s \<Rightarrow>
               (case js_genesis_from J s of
                  None \<Rightarrow> Inl GenesisUnparsable
                | Some genesis \<Rightarrow>
                    (case js_config_to J (config_from_env genesis M) of
                       None \<Rightarrow> Inl SerializeFailed
                     | Some content \<Rightarrow>
                         (case fs_write out content (mc_host M) of
                            None \<Rightarrow> Inl WriteFailed
                          | Some H \<Rightarrow> Inr (M\<lparr>mc_host := H\<rparr>))))))"

section \<open>Running a node\<close>

datatype Refusal =
    BadConfig
  | BadKeystore KeystoreError
  | LicenseRefused CheckError
  | NoListenAddress
  | CannotBind
  | BadAnchorKeystore KeystoreError
  | AnchorConfigError string
  | CannotMkdir
  | KeygenFailed KeystoreError
  | CannotWriteGenesis
  | GenesisFetchFailed
  | ConfigRefused ConfigError

text \<open>The node that is spawned, with what it listens on and its shared meter.\<close>

record Running =
  rn_node :: Node
  rn_listen :: string
  rn_rpc :: "string option"
  rn_meter :: "Meter \<times> (string \<Rightarrow> Persisted option)"
  rn_chain_id :: string
  rn_pubkey :: VerifyingKey

datatype Startup = Refused Refusal | Panicked | Started Running

definition listen_address :: "NodeConfig \<Rightarrow> VerifyingKey \<Rightarrow> string option" where
  "listen_address cfg pk =
     (case nc_listen cfg of
        Some a \<Rightarrow> Some a
      | None \<Rightarrow> map_option vi_addr (find (\<lambda>v. vi_pubkey v = pk) (gc_validators (nc_genesis cfg))))"

definition peer_list :: "NodeConfig \<Rightarrow> VerifyingKey \<Rightarrow> string list" where
  "peer_list cfg pk = (case nc_peers cfg of Some ps \<Rightarrow> ps | None \<Rightarrow> peer_addrs (nc_genesis cfg) pk)"

text \<open>The key pair that signs anchors: \<open>Inr None\<close> without anchoring.\<close>

definition anchor_identity ::
  "prims \<Rightarrow> json \<Rightarrow> NodeConfig \<Rightarrow> SigningKey \<Rightarrow> VerifyingKey \<Rightarrow> machine
   \<Rightarrow> Startup + (SigningKey \<times> VerifyingKey) option" where
  "anchor_identity P J cfg sk pk M =
     (if nc_anchor_interval cfg = 0 then Inr None
      else case nc_anchor_key_path cfg of
        Some p \<Rightarrow>
          (case keystore_load P (js_keys J) p (mc_host M) of
             Inl e \<Rightarrow> Inl (Refused (BadAnchorKeystore e))
           | Inr kp \<Rightarrow> Inr (Some kp))
      | None \<Rightarrow>
          (case sk_from_bytes P (sk_bytes sk) of
             Inl _ \<Rightarrow> Inl Panicked
           | Inr sk' \<Rightarrow> Inr (Some (sk', pk))))"

definition attach_anchor ::
  "bool \<Rightarrow> NodeConfig \<Rightarrow> (SigningKey \<times> VerifyingKey) option \<Rightarrow> machine \<Rightarrow> Node \<Rightarrow> Startup + Node" where
  "attach_anchor feature cfg identity M n =
     (case identity of
        None \<Rightarrow> Inr n
      | Some (anchor_sk, anchor_pk) \<Rightarrow>
          (case build_backend feature (mc_env M) (anchor_config cfg) anchor_sk anchor_pk of
             Inl e \<Rightarrow> Inl (Refused (AnchorConfigError e))
           | Inr None \<Rightarrow> Inr n
           | Inr (Some backend) \<Rightarrow>
               (case service_new backend (unat (nc_anchor_interval cfg)) of
                  None \<Rightarrow> Inl Panicked
                | Some service \<Rightarrow> Inr (with_anchor service n))))"

definition open_store :: "json \<Rightarrow> string \<Rightarrow> machine \<Rightarrow> BlockStore" where
  "open_store J path M =
     store_open (js_block_from J) (Some path)
       (case read_file path M of None \<Rightarrow> [] | Some content \<Rightarrow> text_lines content)"

definition usage_disk :: "json \<Rightarrow> machine \<Rightarrow> string \<Rightarrow> Persisted option" where
  "usage_disk J M path = Option.bind (read_file path M) (js_usage_from J)"

definition launch ::
  "prims \<Rightarrow> json \<Rightarrow> bool \<Rightarrow> NodeConfig \<Rightarrow> u64 option \<Rightarrow> SigningKey \<Rightarrow> VerifyingKey \<Rightarrow> string \<Rightarrow> machine \<Rightarrow> Startup" where
  "launch P J feature cfg cap sk pk addr M =
     (case anchor_identity P J cfg sk pk M of
        Inl r \<Rightarrow> r
      | Inr identity \<Rightarrow>
          (case node_new P (set_peers (peer_list cfg pk) \<lparr>t_peers = [], t_outbound = []\<rparr>) (nc_genesis cfg) sk pk
                  (open_store J (nc_block_store_path cfg) M) (unat (nc_base_timeout_ms cfg)) of
             None \<Rightarrow> Panicked
           | Some n \<Rightarrow>
               (case attach_anchor feature cfg identity M n of
                  Inl r \<Rightarrow> r
                | Inr n' \<Rightarrow>
                    (let path = Some (nc_block_store_path cfg @ ''.meter'') in
                     Started \<lparr>rn_node = n', rn_listen = addr, rn_rpc = nc_rpc_addr cfg,
                       rn_meter = (meter_new (usage_disk J M) cap path (mc_now_meter M), usage_disk J M),
                       rn_chain_id = gc_chain_id (nc_genesis cfg), rn_pubkey = pk\<rparr>))))"

definition license_gate :: "prims \<Rightarrow> json \<Rightarrow> NodeConfig \<Rightarrow> machine \<Rightarrow> CheckError + Entitlements option" where
  "license_gate P J cfg M =
     license_check P (js_license_bytes J)
       (\<lambda>path. case read_file path M of None \<Rightarrow> Inl [] | Some s \<Rightarrow> Inr s) (js_license_from J)
       (nc_license_file cfg) (nc_license_issuer_pubkey cfg) (gc_chain_id (nc_genesis cfg)) (mc_now M)"

definition run :: "prims \<Rightarrow> json \<Rightarrow> bool \<Rightarrow> string \<Rightarrow> machine \<Rightarrow> Startup" where
  "run P J feature config_path M =
     (case Option.bind (read_file config_path M) (js_config_from J) of
        None \<Rightarrow> Refused BadConfig
      | Some cfg \<Rightarrow>
          (case keystore_load P (js_keys J) (nc_key_path cfg) (mc_host M) of
             Inl e \<Rightarrow> Refused (BadKeystore e)
           | Inr (sk, pk) \<Rightarrow>
               (case license_gate P J cfg M of
                  Inl e \<Rightarrow> Refused (LicenseRefused e)
                | Inr ent \<Rightarrow>
                    (case listen_address cfg pk of
                       None \<Rightarrow> Refused NoListenAddress
                     | Some addr \<Rightarrow>
                         if \<not> mc_bind M addr then Refused CannotBind
                         else launch P J feature cfg (Option.bind ent max_notarizations_per_month) sk pk addr M))))"

section \<open>The container entry point\<close>

definition set_var :: "string \<Rightarrow> string \<Rightarrow> machine \<Rightarrow> machine" where
  "set_var k v M = M\<lparr>mc_env := (mc_env M)(k \<mapsto> v)\<rparr>"

definition write_file :: "string \<Rightarrow> string \<Rightarrow> machine \<Rightarrow> machine option" where
  "write_file path content M =
     (case fs_write path content (mc_host M) of None \<Rightarrow> None | Some H \<Rightarrow> Some (M\<lparr>mc_host := H\<rparr>))"

definition http_get :: "bool \<Rightarrow> string \<Rightarrow> machine \<Rightarrow> string + string" where
  "http_get feature url M =
     (if feature then mc_http M url
      else Inl ''genesis URL fetch needs the `notaryhash` feature; use SLC_GENESIS_JSON or mount a genesis file'')"

definition quoted :: "string \<Rightarrow> string" where
  "quoted s = CHR 0x22 # s @ [CHR 0x22]"

text \<open>The text written for a chain with one validator; nothing is escaped in it.\<close>

definition single_genesis :: "prims \<Rightarrow> string \<Rightarrow> VerifyingKey \<Rightarrow> string \<Rightarrow> string" where
  "single_genesis P chain pk addr =
     ''{'' @ quoted ''chain_id'' @ '':'' @ quoted chain @ '','' @ quoted ''validators'' @ '':[{''
     @ quoted ''pubkey'' @ '':'' @ quoted (vk_to_hex P pk) @ '','' @ quoted ''addr'' @ '':'' @ quoted addr @ ''}]}''"

definition bootstrap_key ::
  "prims \<Rightarrow> json \<Rightarrow> string \<Rightarrow> machine \<Rightarrow> Refusal + (VerifyingKey \<times> machine)" where
  "bootstrap_key P J keystore_path M =
     (if fs_exists keystore_path (mc_host M) then
        (case keystore_load P (js_keys J) keystore_path (mc_host M) of
           Inl e \<Rightarrow> Inl (BadKeystore e)
         | Inr (sk, pk) \<Rightarrow> Inr (pk, M))
      else
        (case keystore_generate P (js_keys J) (mc_seed M) keystore_path (mc_host M) of
           Inl e \<Rightarrow> Inl (KeygenFailed e)
         | Inr ((sk, pk), H) \<Rightarrow> Inr (pk, M\<lparr>mc_host := H\<rparr>)))"

definition written :: "machine option \<Rightarrow> Refusal + machine" where
  "written r = (case r of None \<Rightarrow> Inl CannotWriteGenesis | Some M \<Rightarrow> Inr M)"

definition provided_genesis :: "bool \<Rightarrow> string \<Rightarrow> machine \<Rightarrow> Refusal + machine" where
  "provided_genesis feature genesis_file M =
     (if fs_exists genesis_file (mc_host M) then Inr M
      else case env_var ''SLC_GENESIS_JSON'' M of
        Some json \<Rightarrow> written (write_file genesis_file json M)
      | None \<Rightarrow>
          (case env_var ''SLC_GENESIS_URL'' M of
             Some url \<Rightarrow>
               (case http_get feature url M of
                  Inl e \<Rightarrow> Inl GenesisFetchFailed
                | Inr body \<Rightarrow> written (write_file genesis_file body M))
           | None \<Rightarrow> Inr M))"

definition default_genesis :: "prims \<Rightarrow> VerifyingKey \<Rightarrow> string \<Rightarrow> machine \<Rightarrow> Refusal + machine" where
  "default_genesis P pk genesis_file M =
     (if fs_exists genesis_file (mc_host M) then Inr M
      else let addr = or_default (env_var ''SLC_PUBLIC_ADDR'' M) ''127.0.0.1:9000'';
               chain = or_default (env_var ''SLC_CHAIN_ID'' M) ''smartledger''
           in written (write_file genesis_file (single_genesis P chain pk addr) M))"

definition data_dir :: "machine \<Rightarrow> string" where
  "data_dir M = or_default (env_var ''SLC_DATA'' M) ''/data''"

definition resolve_paths :: "machine \<Rightarrow> string \<times> string \<times> string" where
  "resolve_paths M =
     (or_default (env_var ''SLC_KEYSTORE'' M) (data_dir M @ ''/node.key''),
      or_default (env_var ''SLC_STORE'' M) (data_dir M @ ''/blocks''),
      or_default (env_var ''SLC_GENESIS_FILE'' M) (data_dir M @ ''/genesis.json''))"

text \<open>The start-up and the machine it leaves; a refusal is reported with the machine as it was.\<close>

definition bootstrap :: "prims \<Rightarrow> json \<Rightarrow> bool \<Rightarrow> machine \<Rightarrow> Startup \<times> machine" where
  "bootstrap P J feature M =
     (let data = data_dir M;
          (keystore_path, store_path, genesis_file) = resolve_paths M;
          M0 = set_var ''SLC_GENESIS_FILE'' genesis_file
                 (set_var ''SLC_STORE'' store_path (set_var ''SLC_KEYSTORE'' keystore_path M))
      in if \<not> mc_mkdir M0 data then (Refused CannotMkdir, M0)
         else case bootstrap_key P J keystore_path M0 of
           Inl r \<Rightarrow> (Refused r, M0)
         | Inr (pk, M1) \<Rightarrow>
             (case provided_genesis feature genesis_file M1 of
                Inl r \<Rightarrow> (Refused r, M1)
              | Inr M2 \<Rightarrow>
                  (case default_genesis P pk genesis_file M2 of
                     Inl r \<Rightarrow> (Refused r, M2)
                   | Inr M3 \<Rightarrow>
                       (case write_config J (data @ ''/config.json'') M3 of
                          Inl e \<Rightarrow> (Refused (ConfigRefused e), M3)
                        | Inr M4 \<Rightarrow> (run P J feature (data @ ''/config.json'') M4, M4)))))"

section \<open>A local network\<close>

text \<open>\<^verbatim>\<open>Path::join\<close> with a relative file name.\<close>

definition path_join :: "string \<Rightarrow> string \<Rightarrow> string" where
  "path_join dir name = (if dir = [] then name else if last dir = CHR ''/'' then dir @ name else dir @ ''/'' @ name)"

definition node_file :: "nat \<Rightarrow> string \<Rightarrow> string" where
  "node_file i suffix = ''node'' @ show_nat i @ suffix"

definition devnet_addr :: "bool \<Rightarrow> nat \<Rightarrow> string" where
  "devnet_addr docker i =
     (if docker then node_file i '':9000'' else ''127.0.0.1:'' @ show_nat (9000 + i))"

datatype DevnetError = DevMkdir | DevKeygen KeystoreError | DevGenesis | DevConfig | DevPanic

text \<open>The first loop: a key pair per node, from the random bytes of that turn.\<close>

fun devnet_keys ::
  "prims \<Rightarrow> json \<Rightarrow> (nat \<Rightarrow> byte list) \<Rightarrow> string \<Rightarrow> bool \<Rightarrow> nat list \<Rightarrow> host
   \<Rightarrow> DevnetError + (ValidatorInfo list \<times> host)" where
  "devnet_keys P J seeds dir docker [] H = Inr ([], H)"
| "devnet_keys P J seeds dir docker (i # is) H =
     (case keystore_generate P (js_keys J) (seeds i) (path_join dir (node_file i ''.key'')) H of
        Inl e \<Rightarrow> Inl (DevKeygen e)
      | Inr ((sk, pk), H') \<Rightarrow>
          (case devnet_keys P J seeds dir docker is H' of
             Inl e \<Rightarrow> Inl e
           | Inr (infos, H'') \<Rightarrow> Inr (\<lparr>vi_pubkey = pk, vi_addr = devnet_addr docker i\<rparr> # infos, H'')))"

definition devnet_config :: "GenesisConfig \<Rightarrow> string \<Rightarrow> bool \<Rightarrow> nat \<Rightarrow> NodeConfig" where
  "devnet_config genesis dir docker i =
     \<lparr>nc_genesis = genesis,
      nc_key_path = (if docker then ''/data/'' @ node_file i ''.key'' else path_join dir (node_file i ''.key'')),
      nc_block_store_path =
        (if docker then ''/data/'' @ node_file i ''.blocks'' else path_join dir (node_file i ''.blocks'')),
      nc_base_timeout_ms = 1000,
      nc_listen = (if docker then Some ''0.0.0.0:9000'' else None),
      nc_peers = None,
      nc_anchor_interval = 0,
      nc_anchor_backend = None,
      nc_anchor_file = None,
      nc_notaryhash_endpoint = None,
      nc_notaryhash_api_key_env = None,
      nc_anchor_key_path = None,
      nc_rpc_addr = Some (if docker then ''0.0.0.0:7000'' else ''127.0.0.1:'' @ show_nat (7000 + i)),
      nc_license_file = None,
      nc_license_issuer_pubkey = None\<rparr>"

fun devnet_configs ::
  "json \<Rightarrow> GenesisConfig \<Rightarrow> string \<Rightarrow> bool \<Rightarrow> nat list \<Rightarrow> host \<Rightarrow> DevnetError + host" where
  "devnet_configs J genesis dir docker [] H = Inr H"
| "devnet_configs J genesis dir docker (i # is) H =
     (case js_config_value J (devnet_config genesis dir docker i) of
        None \<Rightarrow> Inl DevPanic
      | Some content \<Rightarrow>
          (case fs_write (path_join dir (node_file i ''.config.json'')) content H of
             None \<Rightarrow> Inl DevConfig
           | Some H' \<Rightarrow> devnet_configs J genesis dir docker is H'))"

definition init_devnet ::
  "prims \<Rightarrow> json \<Rightarrow> (nat \<Rightarrow> byte list) \<Rightarrow> string \<Rightarrow> nat \<Rightarrow> bool \<Rightarrow> machine \<Rightarrow> DevnetError + machine" where
  "init_devnet P J seeds dir n docker M =
     (if \<not> mc_mkdir M dir then Inl DevMkdir
      else case devnet_keys P J seeds dir docker [0..<n] (mc_host M) of
        Inl e \<Rightarrow> Inl e
      | Inr (infos, H) \<Rightarrow>
          (let genesis = \<lparr>gc_chain_id = ''smartledger-devnet'', gc_validators = infos\<rparr> in
           case js_genesis_value J genesis of
             None \<Rightarrow> Inl DevPanic
           | Some content \<Rightarrow>
               (case fs_write (path_join dir ''genesis.json'') content H of
                  None \<Rightarrow> Inl DevGenesis
                | Some H1 \<Rightarrow>
                    (case devnet_configs J genesis dir docker [0..<n] H1 of
                       Inl e \<Rightarrow> Inl e
                     | Inr H2 \<Rightarrow> Inr (M\<lparr>mc_host := H2\<rparr>)))))"

section \<open>The program\<close>

definition node_keygen :: "prims \<Rightarrow> json \<Rightarrow> string \<Rightarrow> machine \<Rightarrow> KeystoreError + (VerifyingKey \<times> machine)" where
  "node_keygen P J path M =
     (case keystore_generate P (js_keys J) (mc_seed M) path (mc_host M) of
        Inl e \<Rightarrow> Inl e
      | Inr ((sk, pk), H) \<Rightarrow> Inr (pk, M\<lparr>mc_host := H\<rparr>))"

fun find_map :: "('a \<Rightarrow> 'b option) \<Rightarrow> 'a list \<Rightarrow> 'b option" where
  "find_map f [] = None"
| "find_map f (x # xs) = (case f x of Some y \<Rightarrow> Some y | None \<Rightarrow> find_map f xs)"

datatype NodeExit = Success | Failure | Ran Startup | Aborted

definition render_config :: "json \<Rightarrow> string \<Rightarrow> machine \<Rightarrow> NodeExit \<times> machine" where
  "render_config J out M =
     (case write_config J out M of Inl _ \<Rightarrow> (Failure, M) | Inr M' \<Rightarrow> (Success, M'))"

text \<open>\<open>args\<close> is the whole command line; \<^verbatim>\<open>usize\<close> has 64 bits.\<close>

definition node_main ::
  "prims \<Rightarrow> json \<Rightarrow> bool \<Rightarrow> (nat \<Rightarrow> byte list) \<Rightarrow> string list \<Rightarrow> machine \<Rightarrow> NodeExit \<times> machine" where
  "node_main P J feature seeds args M =
     (if length args \<le> 1 then (Failure, M)
      else if args ! 1 = ''bootstrap'' then (case bootstrap P J feature M of (s, M') \<Rightarrow> (Ran s, M'))
      else if length args \<le> 2 then (Failure, M)
      else if args ! 1 = ''keygen'' then
        (case node_keygen P J (args ! 2) M of Inl _ \<Rightarrow> (Failure, M) | Inr (pk, M') \<Rightarrow> (Success, M'))
      else if args ! 1 = ''run'' then (Ran (run P J feature (args ! 2) M), M)
      else if args ! 1 = ''init-devnet'' then
        (case init_devnet P J seeds (args ! 2)
                (or_default (find_map (parse_uint (2 ^ 64 - 1)) (drop 3 args)) 4)
                (list_ex (\<lambda>a. a = ''--docker'') args) M of
           Inl DevPanic \<Rightarrow> (Aborted, M)
         | Inl _ \<Rightarrow> (Failure, M)
         | Inr M' \<Rightarrow> (Success, M'))
      else if args ! 1 = ''render-config'' then render_config J (args ! 2) M
      else (Failure, M))"

section \<open>What the entry point leaves on disk\<close>

text \<open>Every step before the node runs only adds files.\<close>

definition grows :: "machine \<Rightarrow> machine \<Rightarrow> bool" where
  "grows M M' \<longleftrightarrow> M' = M\<lparr>mc_host := mc_host M'\<rparr> \<and> h_writable (mc_host M') = h_writable (mc_host M)
     \<and> (\<forall>p. fs_exists p (mc_host M) \<longrightarrow> fs_exists p (mc_host M'))"

lemma grows_refl [simp]: "grows M M"
  by (simp add: grows_def)

lemma grows_trans: "grows M1 M2 \<Longrightarrow> grows M2 M3 \<Longrightarrow> grows M1 M3"
  unfolding grows_def by (metis machine.surjective machine.update_convs(1))

lemma grows_host:
  assumes "fs_write path content (mc_host M) = Some H"
  shows "grows M (M\<lparr>mc_host := H\<rparr>)" and "fs_exists path H"
  using fs_write_SomeD [OF assms] by (auto simp: grows_def fs_exists_def)

lemma growsD:
  assumes "grows M M'"
  shows "mc_env M' = mc_env M" and "mc_mkdir M' = mc_mkdir M" and "mc_http M' = mc_http M"
    and "mc_seed M' = mc_seed M" and "mc_bind M' = mc_bind M" and "mc_now M' = mc_now M"
    and "fs_exists p (mc_host M) \<Longrightarrow> fs_exists p (mc_host M')"
  using assms by (cases M; cases M'; simp add: grows_def)+

lemma env_var_cong: "mc_env M' = mc_env M \<Longrightarrow> env_var k M' = env_var k M"
  by (simp add: env_var_def)

lemma written_SomeD:
  "written (write_file path content M) = Inr M' \<Longrightarrow> grows M M' \<and> fs_exists path (mc_host M')"
  by (auto simp: written_def write_file_def intro: grows_host split: option.splits)

lemma keystore_generate_InrD:
  assumes "keystore_generate P J seed path (mc_host M) = Inr (k, H)"
  shows "grows M (M\<lparr>mc_host := H\<rparr>)" and "fs_exists path H"
  using assms by (auto simp: keystore_generate_def keystore_save_def intro: grows_host split: sum.splits option.splits)

lemma bootstrap_key_InrD:
  assumes "bootstrap_key P J path M = Inr (pk, M')"
  shows "grows M M'" and "fs_exists path (mc_host M')"
  using assms keystore_generate_InrD [of P "js_keys J" "mc_seed M" path M]
  by (auto simp: bootstrap_key_def split: if_splits sum.splits)

lemma genesis_InrD:
  shows "provided_genesis feature gf M = Inr M' \<Longrightarrow> grows M M'"
    and "default_genesis P pk gf M = Inr M' \<Longrightarrow> grows M M' \<and> fs_exists gf (mc_host M')"
  by (auto simp: provided_genesis_def default_genesis_def dest: written_SomeD split: if_splits option.splits sum.splits)

lemma write_config_InrD:
  assumes "write_config J out M = Inr M'"
  obtains gf s genesis content where "env_var ''SLC_GENESIS_FILE'' M = Some gf" "read_file gf M = Some s"
    "js_genesis_from J s = Some genesis" "js_config_to J (config_from_env genesis M) = Some content"
    "fs_write out content (mc_host M) = Some (mc_host M')" "M' = M\<lparr>mc_host := mc_host M'\<rparr>"
  using assms by (auto simp: write_config_def split: option.splits)

text \<open>Writing the configuration again changes nothing, if it does not overwrite the genesis.\<close>

lemma write_config_again:
  assumes "write_config J out M = Inr M'" and "env_var ''SLC_GENESIS_FILE'' M \<noteq> Some out"
  shows "write_config J out M' = Inr M'"
  using assms(1)
proof (rule write_config_InrD)
  fix gf s genesis content
  assume gf: "env_var ''SLC_GENESIS_FILE'' M = Some gf" and s: "read_file gf M = Some s"
    and g: "js_genesis_from J s = Some genesis" and c: "js_config_to J (config_from_env genesis M) = Some content"
    and w: "fs_write out content (mc_host M) = Some (mc_host M')" and M': "M' = M\<lparr>mc_host := mc_host M'\<rparr>"
  note f = fs_write_SomeD [OF w]
  have env: "mc_env M' = mc_env M" by (subst M') simp
  have "fs_write out content (mc_host M') = Some (mc_host M')"
    using w f by (auto simp: fs_write_def split: if_splits)
  moreover have "read_file gf M' = Some s" using gf s assms(2) by (simp add: read_file_def f)
  moreover have "config_from_env genesis M' = config_from_env genesis M"
    by (simp add: config_from_env_def env_var_cong [OF env])
  ultimately show ?thesis using gf g c by (simp add: write_config_def env_var_cong [OF env])
qed

lemma or_default_env_neq_Nil: "d \<noteq> [] \<Longrightarrow> or_default (env_var k M) d \<noteq> []"
  by (auto simp: or_default_def env_var_def split: option.splits if_splits)

lemma resolve_paths_neq_Nil:
  assumes "resolve_paths M = (ks, st, gf)"
  shows "ks \<noteq> []" and "st \<noteq> []" and "gf \<noteq> []"
  using assms by (auto simp: resolve_paths_def or_default_env_neq_Nil)

text \<open>The environment with the paths fixed.\<close>

definition fix_paths :: "machine \<Rightarrow> machine" where
  "fix_paths M =
     (case resolve_paths M of (ks, st, gf) \<Rightarrow>
        set_var ''SLC_GENESIS_FILE'' gf (set_var ''SLC_STORE'' st (set_var ''SLC_KEYSTORE'' ks M)))"

lemma fix_paths_env:
  assumes "mc_env M' = mc_env (fix_paths M)" and "resolve_paths M = (ks, st, gf)"
  shows "data_dir M' = data_dir M" and "resolve_paths M' = (ks, st, gf)" and "fix_paths M' = M'"
    and "env_var ''SLC_KEYSTORE'' M' = Some ks" and "env_var ''SLC_GENESIS_FILE'' M' = Some gf"
proof -
  note ne = resolve_paths_neq_Nil [OF assms(2)]
  have env: "mc_env M' = (mc_env M)(''SLC_KEYSTORE'' \<mapsto> ks, ''SLC_STORE'' \<mapsto> st, ''SLC_GENESIS_FILE'' \<mapsto> gf)"
    using assms by (simp add: fix_paths_def set_var_def)
  show d: "data_dir M' = data_dir M" by (simp add: data_dir_def env_var_def env)
  show "resolve_paths M' = (ks, st, gf)"
    using ne by (simp add: resolve_paths_def env_var_def env or_default_def)
  then show "fix_paths M' = M'" by (simp add: fix_paths_def set_var_def env fun_upd_idem)
  show "env_var ''SLC_KEYSTORE'' M' = Some ks" and "env_var ''SLC_GENESIS_FILE'' M' = Some gf"
    using ne by (simp_all add: env_var_def env)
qed

section \<open>A node without anchoring starts\<close>

lemma validator_set_bft_total: "keys \<noteq> [] \<Longrightarrow> validator_set_bft keys \<noteq> None"
proof -
  assume "keys \<noteq> []"
  then have "1 \<le> length keys - (length keys - 1) div 3" by (cases keys) simp_all
  then show ?thesis by (simp add: validator_set_bft_def validator_set_new_def Let_def)
qed

lemma node_new_empty:
  assumes "bs_blocks st = []" and "gc_validators g \<noteq> []"
  obtains n where "node_new P tr g sk pk st base = Some n" "nd_transport n = tr" "nd_store n = st"
proof -
  have "active_keys (registry_new (validator_keys g)) h = validator_keys g" for h
    by (simp add: active_keys_def registry_new_def)
  then obtain s where "active_set (replay_registry (validator_keys g) (snapshot st)) 1 = Some s"
    using validator_set_bft_total [of "validator_keys g"] assms
    by (auto simp: active_set_def replay_registry_def snapshot_def validator_keys_def)
  then have "\<exists>n. node_new P tr g sk pk st base = Some n \<and> nd_transport n = tr \<and> nd_store n = st"
    by (simp add: node_new_def engine_with_registry_def store_tip_def assms(1))
  then show ?thesis using that by blast
qed

lemma license_gate_None [simp]: "nc_license_file cfg = None \<Longrightarrow> license_gate P J cfg M = Inr None"
  by (simp add: license_gate_def license_check_def)

lemma meter_cap: "m_cap (meter_new disk cap path now) = cap"
  by (simp add: meter_new_def Let_def split: prod.splits)

lemma run_plain:
  assumes "read_file path M = Some s" and "js_config_from J s = Some cfg"
    and "keystore_load P (js_keys J) (nc_key_path cfg) (mc_host M) = Inr (sk, pk)"
    and "license_gate P J cfg M = Inr ent" and "nc_anchor_interval cfg = 0"
    and "listen_address cfg pk = Some addr" and "mc_bind M addr"
    and "read_file (nc_block_store_path cfg) M = None" and "gc_validators (nc_genesis cfg) \<noteq> []"
  shows "\<exists>r. run P J feature path M = Started r \<and> rn_listen r = addr \<and> rn_pubkey r = pk
    \<and> t_peers (nd_transport (rn_node r)) = peer_list cfg pk \<and> rn_chain_id r = gc_chain_id (nc_genesis cfg)
    \<and> m_cap (fst (rn_meter r)) = Option.bind ent max_notarizations_per_month"
proof -
  let ?tr = "set_peers (peer_list cfg pk) \<lparr>t_peers = [], t_outbound = []\<rparr>"
    and ?st = "open_store J (nc_block_store_path cfg) M"
  have "bs_blocks ?st = []" using assms(8) by (simp add: open_store_def store_open_def List.map_filter_def)
  then obtain n where n: "node_new P ?tr (nc_genesis cfg) sk pk ?st (unat (nc_base_timeout_ms cfg)) = Some n"
    "nd_transport n = ?tr" "nd_store n = ?st" "bs_blocks ?st = []"
    using node_new_empty [of ?st "nc_genesis cfg" P ?tr] assms(9) by metis
  have "anchor_identity P J cfg sk pk M = Inr None" by (simp add: anchor_identity_def assms(5))
  then show ?thesis
    using assms n by (simp add: run_def launch_def attach_anchor_def set_peers_def meter_cap)
qed

section \<open>What a started node has passed\<close>

definition config_inverse :: "json \<Rightarrow> bool" where
  "config_inverse J \<longleftrightarrow> (\<forall>c s. js_config_to J c = Some s \<longrightarrow> js_config_from J s = Some c)"

lemma bootstrap_StartedD:
  assumes "bootstrap P J feature M = (Started r, M')" and "resolve_paths M = (ks, st, gf)"
  obtains pk M1 M2 M3 where "mc_mkdir (fix_paths M) (data_dir M)"
    "bootstrap_key P J ks (fix_paths M) = Inr (pk, M1)" "provided_genesis feature gf M1 = Inr M2"
    "default_genesis P pk gf M2 = Inr M3" "write_config J (data_dir M @ ''/config.json'') M3 = Inr M'"
    "run P J feature (data_dir M @ ''/config.json'') M' = Started r"
  using assms by (auto simp: bootstrap_def fix_paths_def Let_def split: if_splits sum.splits)

lemma run_keystore:
  assumes "run P J feature path M = Started r" and "read_file path M = Some s" and "js_config_from J s = Some cfg"
  obtains sk pk where "keystore_load P (js_keys J) (nc_key_path cfg) (mc_host M) = Inr (sk, pk)"
  using assms by (auto simp: run_def split: sum.splits)

lemma run_StartedD:
  assumes "run P J feature path M = Started r"
  obtains s cfg sk pk ent addr where "read_file path M = Some s" "js_config_from J s = Some cfg"
    "keystore_load P (js_keys J) (nc_key_path cfg) (mc_host M) = Inr (sk, pk)"
    "license_gate P J cfg M = Inr ent" "listen_address cfg pk = Some addr" "mc_bind M addr"
    "launch P J feature cfg (Option.bind ent max_notarizations_per_month) sk pk addr M = Started r"
  using assms by (auto simp: run_def bind_eq_Some_conv split: option.splits sum.splits if_splits)

lemma launch_StartedD:
  assumes "launch P J feature cfg cap sk pk addr M = Started r"
  shows "rn_listen r = addr" and "rn_pubkey r = pk" and "rn_chain_id r = gc_chain_id (nc_genesis cfg)"
    and "m_cap (fst (rn_meter r)) = cap"
  using assms by (auto simp: launch_def anchor_identity_def attach_anchor_def meter_new_def Let_def
      split: option.splits sum.splits if_splits prod.splits)

lemma license_gate_InrD:
  assumes "license_gate P J cfg M = Inr ent"
  shows "case nc_license_file cfg of
      None \<Rightarrow> ent = None
    | Some file \<Rightarrow> \<exists>hex issuer text sl. nc_license_issuer_pubkey cfg = Some hex \<and> slh_vk_from_hex P hex = Inr issuer
        \<and> read_file file M = Some text \<and> js_license_from J text = Inr sl
        \<and> license_verify P (js_license_bytes J) sl issuer (mc_now M) (Some (gc_chain_id (nc_genesis cfg))) = Inr ()
        \<and> ent = Some (entitlements (sl_license sl))"
  using assms by (auto simp: license_gate_def license_check_def split: option.splits sum.splits)

text \<open>The same machine with other random bytes and another network.\<close>

definition reseed :: "byte list \<Rightarrow> (string \<Rightarrow> string + string) \<Rightarrow> machine \<Rightarrow> machine" where
  "reseed seed http M = M\<lparr>mc_seed := seed, mc_http := http\<rparr>"

lemma reseed_simps [simp]:
  "mc_host (reseed seed http M) = mc_host M" "mc_env (reseed seed http M) = mc_env M"
  "mc_mkdir (reseed seed http M) = mc_mkdir M" "mc_bind (reseed seed http M) = mc_bind M"
  "read_file p (reseed seed http M) = read_file p M" "env_var k (reseed seed http M) = env_var k M"
  by (simp_all add: reseed_def read_file_def env_var_def)

lemma config_reseed [simp]:
  "config_from_env g (reseed seed http M) = config_from_env g M"
  "license_gate P J cfg (reseed seed http M) = license_gate P J cfg M"
  "anchor_identity P J cfg sk pk (reseed seed http M) = anchor_identity P J cfg sk pk M"
  "attach_anchor feature cfg identity (reseed seed http M) n = attach_anchor feature cfg identity M n"
  "open_store J path (reseed seed http M) = open_store J path M"
  "usage_disk J (reseed seed http M) = usage_disk J M" "mc_now_meter (reseed seed http M) = mc_now_meter M"
proof -
  have now: "mc_now (reseed seed http M) = mc_now M" by (simp add: reseed_def)
  show "config_from_env g (reseed seed http M) = config_from_env g M" by (simp add: config_from_env_def)
  show "license_gate P J cfg (reseed seed http M) = license_gate P J cfg M" by (simp add: license_gate_def now)
  show "anchor_identity P J cfg sk pk (reseed seed http M) = anchor_identity P J cfg sk pk M"
    unfolding anchor_identity_def reseed_simps ..
  show "attach_anchor feature cfg identity (reseed seed http M) n = attach_anchor feature cfg identity M n"
    unfolding attach_anchor_def reseed_simps ..
  show "open_store J path (reseed seed http M) = open_store J path M" by (simp add: open_store_def)
  show "usage_disk J (reseed seed http M) = usage_disk J M" by (simp add: usage_disk_def fun_eq_iff)
  show "mc_now_meter (reseed seed http M) = mc_now_meter M" by (simp add: reseed_def)
qed

lemma run_reseed: "run P J feature path (reseed seed http M) = run P J feature path M"
proof -
  have "launch P J feature cfg cap sk pk addr (reseed seed http M) = launch P J feature cfg cap sk pk addr M" for cfg cap sk pk addr
    unfolding launch_def config_reseed ..
  then show ?thesis unfolding run_def reseed_simps config_reseed by presburger
qed

lemma write_config_reseed:
  assumes "write_config J out M = Inr M"
  shows "write_config J out (reseed seed http M) = Inr (reseed seed http M)"
  using assms
proof (rule write_config_InrD)
  fix gf s g content
  assume "env_var ''SLC_GENESIS_FILE'' M = Some gf" "read_file gf M = Some s" "js_genesis_from J s = Some g"
    "js_config_to J (config_from_env g M) = Some content" "fs_write out content (mc_host M) = Some (mc_host M)"
  then show ?thesis by (simp add: write_config_def)
qed

lemma fix_paths_reseed: "fix_paths M = M \<Longrightarrow> fix_paths (reseed seed http M) = reseed seed http M"
  by (cases M) (simp add: fix_paths_def resolve_paths_def data_dir_def set_var_def reseed_def env_var_def)

lemma paths_reseed [simp]:
  "resolve_paths (reseed seed http M) = resolve_paths M" "data_dir (reseed seed http M) = data_dir M"
  by (simp_all add: resolve_paths_def data_dir_def)

end
