(* ===== verification/Timers.thy ===== *)
theory Timers
  imports Node_Loop
begin

text \<open>
  The timer service (\<^verbatim>\<open>crates/node/src/timers.rs\<close>): a thread that holds the armed timers in a
  \<^verbatim>\<open>BinaryHeap\<close>, fires those that are due and sleeps until the next deadline or command. The
  heap is an interface here: what the thread relies on is that \<^verbatim>\<open>peek\<close> and \<^verbatim>\<open>pop\<close> give a
  timer of the earliest deadline; which one of several with the same deadline is left open, as it
  is in the standard library. An \<^verbatim>\<open>Instant\<close> is a natural number.
\<close>

section \<open>Timers and the heap\<close>

record Timer =
  tm_deadline :: nat
  tm_height :: u64
  tm_round :: u64
  tm_kind :: TimeoutKind

text \<open>\<^verbatim>\<open>Ord for Timer\<close> compares the deadlines the other way round.\<close>

definition timer_le :: "Timer \<Rightarrow> Timer \<Rightarrow> bool" where
  "timer_le a b \<longleftrightarrow> tm_deadline b \<le> tm_deadline a"

text \<open>The greatest timers in that order; \<open>tie\<close> says which of them the heap has at its top.\<close>

definition greatest :: "Timer list \<Rightarrow> Timer list" where
  "greatest h = filter (\<lambda>t. list_all (\<lambda>u. timer_le u t) h) h"

type_synonym tie_break = "Timer list \<Rightarrow> nat"

definition heap_push :: "Timer \<Rightarrow> Timer list \<Rightarrow> Timer list" where
  "heap_push t h = h @ [t]"

definition heap_peek :: "tie_break \<Rightarrow> Timer list \<Rightarrow> Timer option" where
  "heap_peek tie h =
     (if h = [] then None else Some (greatest h ! (tie h mod length (greatest h))))"

definition heap_pop :: "tie_break \<Rightarrow> Timer list \<Rightarrow> Timer list" where
  "heap_pop tie h = (case heap_peek tie h of None \<Rightarrow> h | Some t \<Rightarrow> remove1 t h)"

lemma greatest_neq_Nil: "h \<noteq> [] \<Longrightarrow> greatest h \<noteq> []"
proof -
  assume "h \<noteq> []"
  then obtain t where "t \<in> set h" "\<forall>u\<in>set h. tm_deadline t \<le> tm_deadline u"
    using arg_min_if_finite [of "set h" tm_deadline] by (metis List.finite_set leI set_empty)
  then have "t \<in> set (greatest h)" by (simp add: greatest_def timer_le_def list_all_iff)
  then show "greatest h \<noteq> []" by auto
qed

lemma heap_peek_SomeD:
  assumes "heap_peek tie h = Some t"
  shows "t \<in> set h" and "\<forall>u\<in>set h. tm_deadline t \<le> tm_deadline u"
proof -
  from assms have "h \<noteq> []" and t: "t = greatest h ! (tie h mod length (greatest h))"
    by (auto simp: heap_peek_def split: if_splits)
  then have "t \<in> set (greatest h)" using greatest_neq_Nil by simp
  then show "t \<in> set h" and "\<forall>u\<in>set h. tm_deadline t \<le> tm_deadline u"
    by (auto simp: greatest_def timer_le_def list_all_iff)
qed

lemma heap_pop_shorter: "heap_peek tie h = Some t \<Longrightarrow> length (heap_pop tie h) < length h"
  using heap_peek_SomeD(1) [of tie h t] length_pos_if_in_set [of t h] by (simp add: heap_pop_def length_remove1)

section \<open>The thread\<close>

text \<open>
  The inner loop: fire everything that is due at \<open>now\<close>. \<open>live\<close> says whether the node still
  receives events; when it does not, the first send fails and the thread ends. The result is
  whether the thread goes on, what was sent, and the heap.
\<close>

function fire_due :: "tie_break \<Rightarrow> bool \<Rightarrow> nat \<Rightarrow> Timer list \<Rightarrow> bool \<times> Timer list \<times> Timer list" where
  "fire_due tie live now h =
     (case heap_peek tie h of
        None \<Rightarrow> (True, [], h)
      | Some t \<Rightarrow>
          if tm_deadline t \<le> now then
            if live then
              let (on, fired, rest) = fire_due tie live now (heap_pop tie h) in (on, t # fired, rest)
            else (False, [], heap_pop tie h)
          else (True, [], h))"
  by pat_completeness auto
termination
  by (relation "measure (\<lambda>(tie, live, now, h). length h)") (auto dest: heap_pop_shorter)

declare fire_due.simps [simp del]

definition wait_for :: "tie_break \<Rightarrow> nat \<Rightarrow> Timer list \<Rightarrow> nat" where
  "wait_for tie now h =
     (case heap_peek tie h of Some t \<Rightarrow> tm_deadline t - now | None \<Rightarrow> 3600000)"

datatype Cmd = Schedule Timer | Stop

text \<open>What \<^verbatim>\<open>recv_timeout\<close> gives: a command, the end of the channel, or nothing in time.\<close>

datatype Recv = Received Cmd | Disconnected | TimedOut

definition timer_event :: "Timer \<Rightarrow> Event" where
  "timer_event t = EvTimeout (tm_height t) (tm_round t) (tm_kind t)"

text \<open>
  One turn of the outer loop per element of the list: the time when it begins, whether the node
  is alive, and what is received at its end. The result is what was fired, with the time, and the
  heap; a turn after the end of the thread does nothing.
\<close>

type_synonym turn = "nat \<times> bool \<times> Recv"

fun timer_loop :: "tie_break \<Rightarrow> turn list \<Rightarrow> Timer list \<Rightarrow> (nat \<times> Timer) list \<times> Timer list" where
  "timer_loop tie [] h = ([], h)"
| "timer_loop tie ((now, live, r) # turns) h =
     (let (on, fired, h1) = fire_due tie live now h;
          out = map (Pair now) fired
      in if \<not> on then (out, h1)
         else case r of
           Received (Schedule t) \<Rightarrow>
             (let (out', h') = timer_loop tie turns (heap_push t h1) in (out @ out', h'))
         | TimedOut \<Rightarrow> (let (out', h') = timer_loop tie turns h1 in (out @ out', h'))
         | _ \<Rightarrow> (out, h1))"

definition schedule :: "nat \<Rightarrow> u64 \<Rightarrow> u64 \<Rightarrow> TimeoutKind \<Rightarrow> nat \<Rightarrow> Cmd" where
  "schedule now height round kind delay =
     Schedule \<lparr>tm_deadline = now + delay, tm_height = height, tm_round = round, tm_kind = kind\<rparr>"

definition stop :: Cmd where
  "stop = Stop"

text \<open>The timers handed to the thread before it ends.\<close>

fun armed :: "turn list \<Rightarrow> Timer list" where
  "armed [] = []"
| "armed ((now, live, Received (Schedule t)) # turns) = t # armed turns"
| "armed ((now, live, TimedOut) # turns) = armed turns"
| "armed (_ # turns) = []"

section \<open>The heap as a priority queue\<close>

text \<open>What the thread needs of its queue, proved for it once.\<close>

locale timer_queue =
  fixes push :: "'t \<Rightarrow> 'q \<Rightarrow> 'q"
    and peek :: "'q \<Rightarrow> 't option"
    and pop :: "'q \<Rightarrow> 'q"
    and elems :: "'q \<Rightarrow> 't multiset"
    and due :: "'t \<Rightarrow> nat"
  assumes elems_push: "elems (push t q) = add_mset t (elems q)"
    and peek_None: "peek q = None \<longleftrightarrow> elems q = {#}"
    and elems_pop: "peek q = Some t \<Longrightarrow> elems q = add_mset t (elems (pop q))"
    and peek_least: "peek q = Some t \<Longrightarrow> u \<in># elems q \<Longrightarrow> due t \<le> due u"
begin

lemma peek_mem: "peek q = Some t \<Longrightarrow> t \<in># elems q"
  using elems_pop by fastforce

lemma none_due: "(\<And>t. peek q = Some t \<Longrightarrow> now < due t) \<Longrightarrow> u \<in># elems q \<Longrightarrow> now < due u"
  by (metis empty_iff not_None_eq order.strict_trans2 peek_None peek_least set_mset_empty)

lemma pop_size: "peek q = Some t \<Longrightarrow> size (elems (pop q)) < size (elems q)"
  by (simp add: elems_pop)

lemma pop_later: "peek q = Some t \<Longrightarrow> u \<in># elems (pop q) \<Longrightarrow> due t \<le> due u"
  using elems_pop peek_least by fastforce

end

interpretation heap: timer_queue heap_push "heap_peek tie" "heap_pop tie" mset tm_deadline for tie
proof unfold_locales
  fix q t
  assume "heap_peek tie q = Some t"
  with heap_peek_SomeD(1) [OF this] show "mset q = add_mset t (mset (heap_pop tie q))"
    by (simp add: heap_pop_def)
next
  fix q t u
  assume "heap_peek tie q = Some t" and "u \<in># mset q"
  with heap_peek_SomeD(2) [OF this(1)] show "tm_deadline t \<le> tm_deadline u" by simp
qed (auto simp: heap_push_def heap_peek_def split: if_splits)

section \<open>What is fired, and when\<close>

lemma fire_due_spec:
  assumes "fire_due tie live now h = (on, fired, rest)"
  shows "\<forall>t\<in>set fired. tm_deadline t \<le> now" and "live \<Longrightarrow> on"
    and "on \<Longrightarrow> mset h = mset fired + mset rest" and "on \<Longrightarrow> \<forall>t\<in>set rest. now < tm_deadline t"
    and "sorted (map tm_deadline fired)"
proof -
  have "(\<forall>t\<in>set fired. tm_deadline t \<le> now) \<and> (live \<longrightarrow> on)
      \<and> (on \<longrightarrow> mset h = mset fired + mset rest \<and> (\<forall>t\<in>set rest. now < tm_deadline t))
      \<and> sorted (map tm_deadline fired) \<and> set fired \<subseteq> set h"
    using assms
  proof (induction tie live now h arbitrary: fired rest rule: fire_due.induct)
    case (1 tie live now h)
    show ?case
    proof (cases "heap_peek tie h")
      case None
      with "1.prems" heap.peek_None [of tie h] show ?thesis by (simp add: fire_due.simps [of tie live now h])
    next
      case (Some t)
      consider (fire) "tm_deadline t \<le> now" live | (gone) "tm_deadline t \<le> now" "\<not> live" | (later) "now < tm_deadline t"
        by fastforce
      then show ?thesis
      proof cases
        case fire
        obtain fired' rest' where rec: "fire_due tie live now (heap_pop tie h) = (on, fired', rest')"
          and res: "fired = t # fired'" "rest = rest'"
          using "1.prems" [unfolded fire_due.simps [of tie live now h]] Some fire by (auto split: prod.splits)
        note IH = "1.IH" [OF Some fire rec]
        have "set (heap_pop tie h) \<subseteq> set h" using heap.elems_pop [OF Some] by (metis mset_eq_setD set_mset_mset set_mset_add_mset_insert subset_insertI)
        moreover have "\<forall>u\<in>set fired'. tm_deadline t \<le> tm_deadline u"
          using heap.pop_later [OF Some] IH by (metis set_mset_mset subsetD)
        ultimately show ?thesis using IH fire heap.elems_pop [OF Some] heap_peek_SomeD(1) [OF Some] by (auto simp: res)
      next
        case gone
        with "1.prems" [unfolded fire_due.simps [of tie live now h]] Some show ?thesis by auto
      next
        case later
        with "1.prems" Some have "fired = []" "rest = h" by (simp_all add: fire_due.simps [of tie live now h])
        with later heap.none_due [of tie h now] "1.prems" Some show ?thesis by (simp add: fire_due.simps [of tie live now h])
      qed
    qed
  qed
  then show "\<forall>t\<in>set fired. tm_deadline t \<le> now" and "live \<Longrightarrow> on"
    and "on \<Longrightarrow> mset h = mset fired + mset rest" and "on \<Longrightarrow> \<forall>t\<in>set rest. now < tm_deadline t"
    and "sorted (map tm_deadline fired)" by blast+
qed

lemma image_mset_snd_Pair [simp]: "image_mset snd (image_mset (Pair x) M) = M"
  by (simp add: multiset.map_comp comp_def)

text \<open>The ways a turn can go.\<close>

lemma turn_cases:
  assumes "timer_loop tie ((now, live, r) # turns) h = (out, h')"
    and "fire_due tie live now h = (on, fired, h1)"
  obtains (over) "\<not> on \<or> r = Received Stop \<or> r = Disconnected" "out = map (Pair now) fired" "h' = h1"
    | (sched) t out' where on "r = Received (Schedule t)"
        "timer_loop tie turns (heap_push t h1) = (out', h')" "out = map (Pair now) fired @ out'"
    | (timed) out' where on "r = TimedOut" "timer_loop tie turns h1 = (out', h')" "out = map (Pair now) fired @ out'"
  using assms by (auto simp: Let_def split: if_splits Recv.splits Cmd.splits prod.splits)

lemma timer_loop_never_early:
  "timer_loop tie turns h = (out, h') \<Longrightarrow> \<forall>(now, t)\<in>set out. tm_deadline t \<le> now"
proof (induction turns arbitrary: h out)
  case (Cons x turns)
  obtain now live r where x: "x = (now, live, r)" by (cases x)
  obtain on fired h1 where f: "fire_due tie live now h = (on, fired, h1)" by (metis prod_cases3)
  from Cons.prems [unfolded x] f show ?case
    by (cases rule: turn_cases) (use fire_due_spec(1) [OF f] Cons.IH in \<open>simp_all add: ball_Un\<close>)
qed simp

lemma timer_loop_conserves:
  assumes "timer_loop tie turns h = (out, h')" and "\<forall>(now, live, r)\<in>set turns. live"
  shows "mset (map snd out) + mset h' = mset h + mset (armed turns)"
  using assms
proof (induction turns arbitrary: h out)
  case (Cons x turns)
  obtain now live r where x: "x = (now, live, r)" by (cases x)
  obtain on fired h1 where f: "fire_due tie live now h = (on, fired, h1)" by (metis prod_cases3)
  from Cons.prems(2) x fire_due_spec(2,3) [OF f] have "on" and m: "mset h = mset fired + mset h1" by auto
  from Cons.prems(1) [unfolded x] f show ?case
  proof (cases rule: turn_cases)
    case over
    with \<open>on\<close> m show ?thesis by (auto simp: x comp_def)
  next
    case (sched t out')
    from Cons.IH [OF sched(3)] Cons.prems(2) m show ?thesis
      by (simp add: x sched heap_push_def comp_def ac_simps)
  next
    case (timed out')
    from Cons.IH [OF timed(3)] Cons.prems(2) m show ?thesis by (simp add: x timed comp_def ac_simps)
  qed
qed simp

text \<open>A thread whose node is alive and that has not been told to stop goes on to the next turn.\<close>

definition goes_on :: "turn list \<Rightarrow> bool" where
  "goes_on turns \<longleftrightarrow> list_all (\<lambda>(now, live, r). live \<and> r \<noteq> Received Stop \<and> r \<noteq> Disconnected) turns"

lemma timer_loop_append:
  assumes "goes_on xs" and "timer_loop tie xs h = (out1, h1)" and "timer_loop tie ys h1 = (out2, h2)"
  shows "timer_loop tie (xs @ ys) h = (out1 @ out2, h2)"
  using assms
proof (induction xs arbitrary: h out1)
  case (Cons x xs)
  obtain now live r where x: "x = (now, live, r)" by (cases x)
  obtain on fired h0 where f: "fire_due tie live now h = (on, fired, h0)" by (metis prod_cases3)
  from Cons.prems(1) x have on: "goes_on xs" "r \<noteq> Received Stop" "r \<noteq> Disconnected" by (auto simp: goes_on_def)
  from Cons.prems(1) x fire_due_spec(2) [OF f] have "on" by (simp add: goes_on_def)
  from Cons.prems(2) [unfolded x] f show ?case
  proof (cases rule: turn_cases)
    case over
    with \<open>on\<close> on show ?thesis by simp
  next
    case (sched t out')
    from Cons.IH [OF on(1) sched(3) Cons.prems(3)] show ?thesis by (simp add: x f sched)
  next
    case (timed out')
    from Cons.IH [OF on(1) timed(3) Cons.prems(3)] show ?thesis by (simp add: x f timed)
  qed
qed simp

lemma timer_loop_prompt:
  assumes "goes_on turns" and "timer_loop tie (turns @ [(now, True, TimedOut)]) h = (out, h')"
  shows "\<forall>t\<in>set h'. now < tm_deadline t"
proof -
  obtain out1 h1 where run: "timer_loop tie turns h = (out1, h1)" by force
  obtain on fired rest where f: "fire_due tie True now h1 = (on, fired, rest)" by (metis prod_cases3)
  note spec = fire_due_spec(2,4) [OF f]
  from timer_loop_append [OF assms(1) run, of "[(now, True, TimedOut)]"] f assms(2) spec(1) have "h' = rest" by auto
  with spec show ?thesis by simp
qed

lemma wait_for_bound: "t \<in> set h \<Longrightarrow> now + wait_for tie now h \<le> max now (tm_deadline t)"
  using heap.peek_None [of tie h] heap.peek_least [of tie h]
  by (fastforce simp: wait_for_def split: option.splits)

lemma armed_last: "goes_on turns \<Longrightarrow> armed (turns @ [(now, live, TimedOut)]) = armed turns"
  by (induction turns rule: armed.induct) (auto simp: goes_on_def)

end
