(* ===== verification/Gossip.thy ===== *)
theory Gossip
  imports Node_Loop
begin

text \<open>
  Sending to the peers: \<^verbatim>\<open>Transport::broadcast\<close> of \<^verbatim>\<open>crates/node/src/transport.rs\<close>. Connections
  are opened on demand and dropped when a write fails. What the network answers, whether a peer
  accepts a connection and whether a write goes through, is an argument.
\<close>

record net =
  net_connect :: "string \<Rightarrow> bool"
  net_write :: "string \<Rightarrow> bool"

text \<open>One peer: whether its connection is up afterwards, and the frame that went out on it.\<close>

definition send_to ::
  "net \<Rightarrow> ('m \<Rightarrow> string + byte list) \<Rightarrow> 'm \<Rightarrow> string \<Rightarrow> bool \<Rightarrow> bool \<times> byte list option" where
  "send_to N ser msg addr up =
     (if up \<or> net_connect N addr then
        (case write_frame ser msg of
           Inl _ \<Rightarrow> (False, None)
         | Inr fr \<Rightarrow> if net_write N addr then (True, Some fr) else (False, None))
      else (False, None))"

text \<open>\<open>None\<close> is the panic of an index out of range.\<close>

definition broadcast ::
  "net \<Rightarrow> ('m \<Rightarrow> string + byte list) \<Rightarrow> 'm \<Rightarrow> Transport \<Rightarrow> (Transport \<times> (string \<times> byte list) list) option" where
  "broadcast N ser msg t =
     (if length (t_outbound t) < length (t_peers t) then None
      else let rs = map (\<lambda>i. send_to N ser msg (t_peers t ! i) (t_outbound t ! i)) [0..<length (t_peers t)]
           in Some (t\<lparr>t_outbound := map fst rs @ drop (length (t_peers t)) (t_outbound t)\<rparr>,
                    List.map_filter (\<lambda>(addr, r). map_option (Pair addr) (snd r)) (zip (t_peers t) rs)))"

definition peers_ok :: "Transport \<Rightarrow> bool" where
  "peers_ok t \<longleftrightarrow> length (t_outbound t) = length (t_peers t) \<and> distinct (t_peers t)"

lemma peers_ok_add_peer: "peers_ok t \<Longrightarrow> peers_ok (add_peer a t)"
  by (simp add: peers_ok_def add_peer_def)

lemma peers_ok_set_peers: "distinct ps \<Longrightarrow> peers_ok (set_peers ps t)"
  by (simp add: peers_ok_def set_peers_def)

lemma zip_map_upt_nth:
  "zip xs (map (\<lambda>i. f (xs ! i) (ys ! i)) [0..<length xs]) = map (\<lambda>i. (xs ! i, f (xs ! i) (ys ! i))) [0..<length xs]"
  by (rule nth_equalityI) simp_all

lemma set_map_filter: "set (List.map_filter f xs) = {y. \<exists>x\<in>set xs. f x = Some y}"
  by (force simp: List.map_filter_def)

lemma send_to_Some:
  "snd (send_to N ser msg addr up) = Some fr \<longleftrightarrow>
     (up \<or> net_connect N addr) \<and> net_write N addr \<and> write_frame ser msg = Inr fr"
  by (simp add: send_to_def split: sum.splits)

lemma broadcast_sent:
  assumes "broadcast N ser msg t = Some (t', sent)"
  shows "(addr, fr) \<in> set sent \<longleftrightarrow>
    (\<exists>i<length (t_peers t). t_peers t ! i = addr \<and> (t_outbound t ! i \<or> net_connect N addr)
       \<and> net_write N addr \<and> write_frame ser msg = Inr fr)"
proof -
  from assms have "sent = List.map_filter (\<lambda>(addr, r). map_option (Pair addr) (snd r))
      (map (\<lambda>i. (t_peers t ! i, send_to N ser msg (t_peers t ! i) (t_outbound t ! i))) [0..<length (t_peers t)])"
    by (auto simp: broadcast_def zip_map_upt_nth Let_def split: if_splits)
  then show ?thesis
    by (auto simp: set_map_filter send_to_Some simp del: upt_conv_Cons)
qed

lemma broadcast_up:
  assumes "broadcast N ser msg t = Some (t', sent)" and "i < length (t_peers t)"
  shows "t_outbound t' ! i \<longleftrightarrow> (t_outbound t ! i \<or> net_connect N (t_peers t ! i)) \<and> net_write N (t_peers t ! i)
    \<and> (\<exists>fr. write_frame ser msg = Inr fr)"
  using assms by (auto simp: broadcast_def Let_def nth_append send_to_def split: if_splits sum.splits)

lemma broadcast_peers_ok:
  assumes "peers_ok t"
  shows "\<exists>t' sent. broadcast N ser msg t = Some (t', sent) \<and> peers_ok t' \<and> t_peers t' = t_peers t"
  using assms by (simp add: broadcast_def peers_ok_def Let_def)

end
