(* ===== verification/Process.thy ===== *)
theory Process
  imports Startup Timers Gossip
begin

text \<open>
  A spawned node as a process: \<^verbatim>\<open>Node::spawn\<close> and \<^verbatim>\<open>NodeHandle\<close> of \<^verbatim>\<open>crates/node/src/node.rs\<close>, the
  accept and reader threads of \<^verbatim>\<open>transport.rs\<close>, the threads of \<^verbatim>\<open>rpc.rs\<close> and the timer thread, all of
  which send events into one channel that the node's loop receives from. A run is a sequence of
  actions, each one turn of one thread, in any order. The blocks, the anchoring service and the
  meter that the threads share are fields of one state.
\<close>

section \<open>Sockets\<close>

text \<open>
  A bound listener has an address; what arrives on an accepted connection is the byte string its peer
  will have sent when it closes. \<open>resolve\<close> is the operating system's answer to a bind.
\<close>

record Listener =
  l_addr :: string
  l_transport :: Transport

definition transport_bind :: "(string \<Rightarrow> IoError + string) \<Rightarrow> string \<Rightarrow> IoError + Listener" where
  "transport_bind resolve addr =
     (case resolve addr of
        Inl e \<Rightarrow> Inl e
      | Inr actual \<Rightarrow> Inr \<lparr>l_addr = actual, l_transport = \<lparr>t_peers = [], t_outbound = []\<rparr>\<rparr>)"

definition local_addr :: "Listener \<Rightarrow> string" where
  "local_addr l = l_addr l"

definition peers :: "Transport \<Rightarrow> string list" where
  "peers t = t_peers t"

text \<open>\<^verbatim>\<open>SystemTime::now()\<close> since the epoch in seconds, zero for a clock before it.\<close>

definition now_unix :: "int \<Rightarrow> u64" where
  "now_unix clock = (if 0 \<le> clock then of_int clock else 0)"

section \<open>The state of the process\<close>

text \<open>\<open>SYNC_POLL_INTERVAL\<close> in milliseconds.\<close>

definition SYNC_POLL_INTERVAL :: nat where
  "SYNC_POLL_INTERVAL = 2000"

text \<open>
  The fields: the node with its loop (\<open>ps_started\<close> once its thread runs), the channel with all that was
  ever sent on it (\<open>ps_sent\<close>), the outputs of the loop, the timers of the timer thread, the clock in
  milliseconds with the next turns of the two periodic threads, the inbound connections of peers,
  the connections of clients with the bytes still to read and the bytes written back, the meter and
  the identity that the RPC shows.
\<close>

record Proc =
  ps_node :: Node
  ps_started :: bool
  ps_queue :: "Event list"
  ps_sent :: "Event list"
  ps_outs :: "NodeOut list"
  ps_timers :: "Timer list"
  ps_clock :: nat
  ps_next_gossip :: nat
  ps_next_sync :: nat
  ps_readers :: "byte list list"
  ps_rpc_bound :: bool
  ps_clients :: "(byte list \<times> byte list) list"
  ps_meter :: "(Meter \<times> (string \<Rightarrow> Persisted option)) option"
  ps_chain_id :: string
  ps_pubkey :: VerifyingKey

text \<open>\<^verbatim>\<open>Sender::send\<close>: it fails once the loop has ended and dropped its receiver.\<close>

definition proc_alive :: "Proc \<Rightarrow> bool" where
  "proc_alive p \<longleftrightarrow> nd_running (ps_node p)"

definition ev_send :: "Event list \<Rightarrow> Proc \<Rightarrow> Proc" where
  "ev_send evs p =
     (if proc_alive p then p\<lparr>ps_queue := ps_queue p @ evs, ps_sent := ps_sent p @ evs\<rparr> else p)"

text \<open>The builders: a node with a meter and an RPC address, ready to spawn.\<close>

record NodeBuilder =
  nb_node :: Node
  nb_rpc_addr :: "string option"
  nb_meter :: "(Meter \<times> (string \<Rightarrow> Persisted option)) option"
  nb_chain_id :: string
  nb_pubkey :: VerifyingKey

definition builder :: "GenesisConfig \<Rightarrow> VerifyingKey \<Rightarrow> Node \<Rightarrow> NodeBuilder" where
  "builder genesis me_pk n =
     \<lparr>nb_node = n, nb_rpc_addr = None, nb_meter = None, nb_chain_id = gc_chain_id genesis, nb_pubkey = me_pk\<rparr>"

definition with_metering ::
  "(string \<Rightarrow> Persisted option) \<Rightarrow> u64 option \<Rightarrow> string option \<Rightarrow> u64 \<Rightarrow> NodeBuilder \<Rightarrow> NodeBuilder" where
  "with_metering disk cap path now b = b\<lparr>nb_meter := Some (meter_new disk cap path now, disk)\<rparr>"

definition with_rpc :: "string \<Rightarrow> NodeBuilder \<Rightarrow> NodeBuilder" where
  "with_rpc addr b = b\<lparr>nb_rpc_addr := Some addr\<rparr>"

text \<open>\<open>bind_ok\<close> says which addresses can be bound; a failure is printed and the node runs without RPC.\<close>

definition spawn :: "(string \<Rightarrow> bool) \<Rightarrow> nat \<Rightarrow> NodeBuilder \<Rightarrow> Proc" where
  "spawn bind_ok clock b =
     \<lparr>ps_node = nb_node b, ps_started = False, ps_queue = [], ps_sent = [], ps_outs = [], ps_timers = [],
      ps_clock = clock, ps_next_gossip = clock + nd_base_timeout (nb_node b), ps_next_sync = clock + SYNC_POLL_INTERVAL,
      ps_readers = [],
      ps_rpc_bound = (case nb_rpc_addr b of None \<Rightarrow> False | Some addr \<Rightarrow> bind_ok addr),
      ps_clients = [], ps_meter = nb_meter b, ps_chain_id = nb_chain_id b, ps_pubkey = nb_pubkey b\<rparr>"

section \<open>The threads\<close>

text \<open>The JSON forms of what travels in frames.\<close>

record codec =
  cd_wire :: "byte list \<Rightarrow> string + WireMsg"
  cd_request :: "byte list \<Rightarrow> string + RpcRequest"
  cd_request_out :: "RpcRequest \<Rightarrow> string + byte list"
  cd_response :: "byte list \<Rightarrow> string + RpcResponse"
  cd_response_out :: "RpcResponse \<Rightarrow> string + byte list"

definition remove_nth :: "nat \<Rightarrow> 'a list \<Rightarrow> 'a list" where
  "remove_nth i xs = take i xs @ drop (Suc i) xs"

definition start_accept :: "byte list \<Rightarrow> Proc \<Rightarrow> Proc" where
  "start_accept stream p = p\<lparr>ps_readers := ps_readers p @ [stream]\<rparr>"

text \<open>One turn of the reader of connection \<open>i\<close>.\<close>

definition reader_turn :: "codec \<Rightarrow> nat \<Rightarrow> Proc \<Rightarrow> Proc" where
  "reader_turn C i p =
     (case read_frame (cd_wire C) (ps_readers p ! i) of
        Inl _ \<Rightarrow> p\<lparr>ps_readers := remove_nth i (ps_readers p)\<rparr>
      | Inr (m, rest) \<Rightarrow>
          if proc_alive p then (ev_send [EvWire m] p)\<lparr>ps_readers := (ps_readers p)[i := rest]\<rparr>
          else p\<lparr>ps_readers := remove_nth i (ps_readers p)\<rparr>)"

text \<open>What a client connection shares with the node.\<close>

definition rpc_view :: "Proc \<Rightarrow> rpc_state" where
  "rpc_view p = \<lparr>rs_committed = snapshot (nd_store (ps_node p)), rs_anchor = nd_anchor (ps_node p),
     rs_chain_id = ps_chain_id p, rs_pubkey = ps_pubkey p, rs_meter = ps_meter p\<rparr>"

definition serve_accept :: "byte list \<Rightarrow> Proc \<Rightarrow> Proc" where
  "serve_accept stream p = (if ps_rpc_bound p then p\<lparr>ps_clients := ps_clients p @ [(stream, [])]\<rparr> else p)"

text \<open>
  One turn of \<^verbatim>\<open>handle_conn\<close> on client \<open>i\<close>: the request is answered from what is shared at that
  moment, its events are sent, and the reply is written if the client still listens.
\<close>

definition conn_turn :: "codec \<Rightarrow> prims \<Rightarrow> nat \<Rightarrow> bool \<Rightarrow> u64 \<Rightarrow> bool \<Rightarrow> Proc \<Rightarrow> Proc" where
  "conn_turn C P i disk_ok now writable p =
     (case read_frame (cd_request C) (fst (ps_clients p ! i)) of
        Inl _ \<Rightarrow> p\<lparr>ps_clients := remove_nth i (ps_clients p)\<rparr>
      | Inr (req, rest) \<Rightarrow>
          (let (resp, rs, evs) = rpc_handle P disk_ok now (proc_alive p) req (rpc_view p);
               p1 = (ev_send evs p)\<lparr>ps_meter := rs_meter rs\<rparr>
           in case write_frame (cd_response_out C) resp of
                Inr fr \<Rightarrow>
                  if writable then p1\<lparr>ps_clients := (ps_clients p)[i := (rest, snd (ps_clients p ! i) @ fr)]\<rparr>
                  else p1\<lparr>ps_clients := remove_nth i (ps_clients p)\<rparr>
              | Inl _ \<Rightarrow> p1\<lparr>ps_clients := remove_nth i (ps_clients p)\<rparr>))"

text \<open>The periodic threads: a turn when the sleep is over.\<close>

definition gossip_tick :: "Proc \<Rightarrow> Proc" where
  "gossip_tick p =
     (if ps_next_gossip p \<le> ps_clock p
      then (ev_send [EvRegossip] p)\<lparr>ps_next_gossip := ps_clock p + nd_base_timeout (ps_node p)\<rparr> else p)"

definition sync_tick :: "Proc \<Rightarrow> Proc" where
  "sync_tick p =
     (if ps_next_sync p \<le> ps_clock p
      then (ev_send [EvSyncPoll] p)\<lparr>ps_next_sync := ps_clock p + SYNC_POLL_INTERVAL\<rparr> else p)"

text \<open>The timer thread fires what is due.\<close>

definition timers_turn :: "tie_break \<Rightarrow> Proc \<Rightarrow> Proc" where
  "timers_turn tie p =
     (let (on, fired, rest) = fire_due tie (proc_alive p) (ps_clock p) (ps_timers p)
      in (ev_send (map timer_event fired) p)\<lparr>ps_timers := rest\<rparr>)"

text \<open>The loop hands the timers it arms to the timer thread.\<close>

definition armed_timers :: "nat \<Rightarrow> NodeOut list \<Rightarrow> Timer list" where
  "armed_timers clock out = List.map_filter (\<lambda>x. case x of
     Arm h r kind delay \<Rightarrow> Some \<lparr>tm_deadline = clock + delay, tm_height = h, tm_round = r, tm_kind = kind\<rparr>
   | Send _ \<Rightarrow> None) out"

definition loop_out :: "Node \<Rightarrow> NodeOut list \<Rightarrow> Proc \<Rightarrow> Proc" where
  "loop_out n out p = p\<lparr>ps_node := n, ps_outs := ps_outs p @ out, ps_timers := ps_timers p @ armed_timers (ps_clock p) out\<rparr>"

definition loop_start :: "prims \<Rightarrow> (SlcBlock \<Rightarrow> string option) \<Rightarrow> node_env \<Rightarrow> Proc \<Rightarrow> Proc option" where
  "loop_start P ser env p =
     (if ps_started p then Some p
      else do { (n, out) \<leftarrow> node_start P ser env (ps_node p); Some ((loop_out n out p)\<lparr>ps_started := True\<rparr>) })"

definition loop_turn :: "prims \<Rightarrow> (SlcBlock \<Rightarrow> string option) \<Rightarrow> node_env \<Rightarrow> Proc \<Rightarrow> Proc option" where
  "loop_turn P ser env p =
     (case ps_queue p of
        ev # rest \<Rightarrow>
          if ps_started p \<and> nd_running (ps_node p) then
            do { (n, out) \<leftarrow> node_event P ser env ev (ps_node p); Some ((loop_out n out p)\<lparr>ps_queue := rest\<rparr>) }
          else Some p
      | [] \<Rightarrow> Some p)"

text \<open>The handle.\<close>

definition handle_submit :: "Attestation \<Rightarrow> Proc \<Rightarrow> Proc" where
  "handle_submit att p = ev_send [EvSubmit att] p"

definition handle_shutdown :: "Proc \<Rightarrow> Proc" where
  "handle_shutdown p = ev_send [EvShutdown] p"

definition handle_blocks :: "Proc \<Rightarrow> SlcBlock list" where
  "handle_blocks p = bs_blocks (nd_store (ps_node p))"

definition handle_anchor_records :: "Proc \<Rightarrow> AnchorRecord list" where
  "handle_anchor_records p = nd_anchor_records (ps_node p)"

section \<open>Runs\<close>

datatype Action =
    ActStart node_env | ActTurn node_env
  | ActAccept "byte list" | ActRead nat
  | ActClient "byte list" | ActServe nat bool u64 bool
  | ActGossip | ActSync | ActTimers tie_break | ActWait nat
  | ActSubmit Attestation | ActShutdown

definition act :: "codec \<Rightarrow> prims \<Rightarrow> (SlcBlock \<Rightarrow> string option) \<Rightarrow> Action \<Rightarrow> Proc \<Rightarrow> Proc option" where
  "act C P ser a p =
     (case a of
        ActStart env \<Rightarrow> loop_start P ser env p
      | ActTurn env \<Rightarrow> loop_turn P ser env p
      | ActAccept stream \<Rightarrow> Some (start_accept stream p)
      | ActRead i \<Rightarrow> Some (if i < length (ps_readers p) then reader_turn C i p else p)
      | ActClient stream \<Rightarrow> Some (serve_accept stream p)
      | ActServe i disk_ok now writable \<Rightarrow>
          Some (if i < length (ps_clients p) then conn_turn C P i disk_ok now writable p else p)
      | ActGossip \<Rightarrow> Some (gossip_tick p)
      | ActSync \<Rightarrow> Some (sync_tick p)
      | ActTimers tie \<Rightarrow> Some (timers_turn tie p)
      | ActWait ms \<Rightarrow> Some (p\<lparr>ps_clock := ps_clock p + ms\<rparr>)
      | ActSubmit att \<Rightarrow> Some (handle_submit att p)
      | ActShutdown \<Rightarrow> Some (handle_shutdown p))"

fun act_all :: "codec \<Rightarrow> prims \<Rightarrow> (SlcBlock \<Rightarrow> string option) \<Rightarrow> Action list \<Rightarrow> Proc \<Rightarrow> Proc option" where
  "act_all C P ser [] p = Some p"
| "act_all C P ser (a # as) p = do { p' \<leftarrow> act C P ser a p; act_all C P ser as p' }"

text \<open>A blocking client call. \<open>exchange\<close> is the connection: the bytes that come back for those sent.\<close>

definition rpc_call :: "codec \<Rightarrow> (byte list \<Rightarrow> IoError + byte list) \<Rightarrow> RpcRequest \<Rightarrow> IoError + RpcResponse" where
  "rpc_call C exchange req =
     (case write_frame (cd_request_out C) req of
        Inl e \<Rightarrow> Inl e
      | Inr fr \<Rightarrow>
          (case exchange fr of
             Inl e \<Rightarrow> Inl e
           | Inr reply \<Rightarrow> map_sum id fst (read_frame (cd_response C) reply)))"

section \<open>Every interleaving is a run of the loop\<close>

lemma ev_send_frame [simp]:
  "ps_node (ev_send evs p) = ps_node p" "ps_started (ev_send evs p) = ps_started p" "ps_outs (ev_send evs p) = ps_outs p"
  "ps_timers (ev_send evs p) = ps_timers p" "ps_clock (ev_send evs p) = ps_clock p"
  "ps_clients (ev_send evs p) = ps_clients p" "ps_readers (ev_send evs p) = ps_readers p"
  "ps_sent (ev_send evs p) = ps_sent p @ (if proc_alive p then evs else [])"
  "ps_queue (ev_send evs p) = ps_queue p @ (if proc_alive p then evs else [])"
  by (simp_all add: ev_send_def)

lemma node_events_snoc:
  "node_events P ser (evs @ [(env, ev)]) n = do {
     (n1, out1) \<leftarrow> node_events P ser evs n; (n2, out2) \<leftarrow> node_event P ser env ev n1; Some (n2, out1 @ out2) }"
  by (induction evs arbitrary: n) (auto simp: bind_eq_Some_conv split: Option.bind_splits)

lemma node_run_snoc:
  assumes "node_run P ser env0 evs n = Some (n1, out1)" and "node_event P ser env ev n1 = Some (n2, out2)"
  shows "node_run P ser env0 (evs @ [(env, ev)]) n = Some (n2, out1 @ out2)"
  using assms by (auto simp: node_run_def node_events_snoc bind_eq_Some_conv)

text \<open>
  The loop has handled a prefix of what was sent, in order, and the channel holds the rest.
\<close>

definition runs_loop :: "prims \<Rightarrow> (SlcBlock \<Rightarrow> string option) \<Rightarrow> Node \<Rightarrow> Proc \<Rightarrow> bool" where
  "runs_loop P ser n0 p \<longleftrightarrow>
     (if ps_started p then \<exists>env0 evs. node_run P ser env0 evs n0 = Some (ps_node p, ps_outs p) \<and> map snd evs @ ps_queue p = ps_sent p
      else ps_node p = n0 \<and> ps_outs p = [] \<and> ps_queue p = ps_sent p)"

lemma runs_loop_send:
  assumes "runs_loop P ser n0 p" and "ps_node p' = ps_node p" "ps_started p' = ps_started p" "ps_outs p' = ps_outs p"
    and "ps_queue p' = ps_queue p @ evs" "ps_sent p' = ps_sent p @ evs"
  shows "runs_loop P ser n0 p'"
  using assms by (auto simp: runs_loop_def split: if_splits)

lemma runs_loop_act:
  assumes "act C P ser a p = Some p'" and "runs_loop P ser n0 p"
  shows "runs_loop P ser n0 p'"
proof (cases a)
  case (ActStart env)
  show ?thesis
  proof (cases "ps_started p")
    case False
    with ActStart assms obtain n out where s: "node_start P ser env (ps_node p) = Some (n, out)"
      and p': "p' = (loop_out n out p)\<lparr>ps_started := True\<rparr>" and p: "ps_node p = n0" "ps_outs p = []" "ps_queue p = ps_sent p"
      by (auto simp: act_def loop_start_def runs_loop_def bind_eq_Some_conv)
    then have "node_run P ser env [] n0 = Some (n, out)" by (simp add: node_run_def)
    with p show ?thesis unfolding runs_loop_def p' loop_out_def by (auto intro!: exI [of _ env] exI [of _ "[]"])
  qed (use ActStart assms in \<open>simp add: act_def loop_start_def\<close>)
next
  case (ActTurn env)
  show ?thesis
  proof (cases "ps_queue p = [] \<or> \<not> (ps_started p \<and> nd_running (ps_node p))")
    case True
    with ActTurn assms show ?thesis by (auto simp: act_def loop_turn_def split: list.splits)
  next
    case False
    then obtain ev rest where q: "ps_queue p = ev # rest" "ps_started p" "nd_running (ps_node p)"
      by (cases "ps_queue p") auto
    with ActTurn assms(1) obtain n out where e: "node_event P ser env ev (ps_node p) = Some (n, out)"
      and p': "p' = (loop_out n out p)\<lparr>ps_queue := rest\<rparr>" by (auto simp: act_def loop_turn_def bind_eq_Some_conv)
    from assms(2) q obtain env0 evs where r: "node_run P ser env0 evs n0 = Some (ps_node p, ps_outs p)"
      and s: "map snd evs @ ps_queue p = ps_sent p" by (auto simp: runs_loop_def)
    from node_run_snoc [OF r e] s q show ?thesis
      unfolding runs_loop_def p' loop_out_def by (auto intro!: exI [of _ env0] exI [of _ "evs @ [(env, ev)]"])
  qed
qed (use assms in \<open>auto simp: act_def start_accept_def reader_turn_def serve_accept_def conn_turn_def gossip_tick_def
      sync_tick_def timers_turn_def handle_submit_def handle_shutdown_def Let_def case_prod_beta
      intro: runs_loop_send split: sum.splits if_splits\<close>)

lemma runs_loop_spawn: "runs_loop P ser (nb_node b) (spawn bind_ok clock b)"
  by (simp add: runs_loop_def spawn_def)

lemma runs_loop_all: "act_all C P ser as p = Some p' \<Longrightarrow> runs_loop P ser n0 p \<Longrightarrow> runs_loop P ser n0 p'"
  by (induction as arbitrary: p) (auto simp: bind_eq_Some_conv dest: runs_loop_act)

text \<open>Every timeout that reaches the channel is one that the loop has armed.\<close>

definition armed_by :: "NodeOut list \<Rightarrow> u64 \<Rightarrow> u64 \<Rightarrow> TimeoutKind \<Rightarrow> bool" where
  "armed_by out h r kind \<longleftrightarrow> (\<exists>d. Arm h r kind d \<in> set out)"

definition timers_armed :: "Proc \<Rightarrow> bool" where
  "timers_armed p \<longleftrightarrow> (\<forall>t\<in>set (ps_timers p). armed_by (ps_outs p) (tm_height t) (tm_round t) (tm_kind t))
     \<and> (\<forall>h r kind. EvTimeout h r kind \<in> set (ps_sent p) \<longrightarrow> armed_by (ps_outs p) h r kind)"

lemma timers_armed_send:
  assumes "timers_armed p" and "ps_outs p' = ps_outs p" and "set (ps_timers p') \<subseteq> set (ps_timers p)"
    and "\<And>h r kind. EvTimeout h r kind \<in> set (ps_sent p') \<Longrightarrow> EvTimeout h r kind \<in> set (ps_sent p)
      \<or> (\<exists>t\<in>set (ps_timers p). timer_event t = EvTimeout h r kind)"
  shows "timers_armed p'"
  using assms unfolding timers_armed_def by (auto simp: timer_event_def; blast)

lemma timers_armed_loop:
  assumes "timers_armed p"
  shows "timers_armed ((loop_out n out p)\<lparr>ps_queue := q\<rparr>)" "timers_armed ((loop_out n out p)\<lparr>ps_started := s\<rparr>)"
  using assms
  by (auto simp: timers_armed_def loop_out_def armed_by_def armed_timers_def List.map_filter_def split: NodeOut.splits; blast)+

lemma fire_due_sub:
  "fire_due tie live now h = (on, fired, rest) \<Longrightarrow> set fired \<subseteq> set h \<and> set rest \<subseteq> set h"
proof (induction tie live now h arbitrary: on fired rest rule: fire_due.induct)
  case (1 tie live now h)
  show ?case
  proof (cases "heap_peek tie h")
    case None
    with "1.prems" show ?thesis by (simp add: fire_due.simps [of tie live now h])
  next
    case (Some t)
    have pop: "set (heap_pop tie h) \<subseteq> set h" by (simp add: heap_pop_def Some set_remove1_subset)
    obtain on' fired' rest' where f: "fire_due tie live now (heap_pop tie h) = (on', fired', rest')" by (metis prod_cases3)
    from "1.IH" [OF Some _ _ f] "1.prems" Some pop f heap_peek_SomeD(1) [OF Some] show ?thesis
      by (auto simp: fire_due.simps [of tie live now h] split: if_splits)
  qed
qed

lemma rpc_events:
  "rpc_handle P disk_ok now alive req s = (resp, s', evs) \<Longrightarrow> EvTimeout h r kind \<notin> set evs"
  by (auto simp: rpc_handle_def record_usage_def Let_def case_prod_beta
      split: RpcRequest.splits if_splits option.splits prod.splits)

lemma timers_armed_act:
  assumes "act C P ser a p = Some p'" and "timers_armed p"
  shows "timers_armed p'"
proof (cases a)
  case (ActStart env)
  with assms show ?thesis by (auto simp: act_def loop_start_def bind_eq_Some_conv timers_armed_loop split: if_splits)
next
  case (ActTurn env)
  with assms show ?thesis
    by (auto simp: act_def loop_turn_def bind_eq_Some_conv timers_armed_loop split: if_splits list.splits)
next
  case (ActTimers tie)
  obtain on fired rest where f: "fire_due tie (proc_alive p) (ps_clock p) (ps_timers p) = (on, fired, rest)" by (metis prod_cases3)
  from f fire_due_sub [OF f] ActTimers assms show ?thesis
    by (intro timers_armed_send [OF assms(2)]) (force simp: act_def timers_turn_def split: if_splits)+
next
  case (ActServe i disk_ok now writable)
  show ?thesis
    by (rule timers_armed_send [OF assms(2)])
      (use ActServe assms(1) in \<open>auto simp: act_def conn_turn_def Let_def dest: rpc_events split: sum.splits prod.splits if_splits\<close>)
qed (use assms in \<open>auto simp: act_def start_accept_def reader_turn_def serve_accept_def gossip_tick_def
      sync_tick_def handle_submit_def handle_shutdown_def
      intro!: timers_armed_send [OF assms(2)] split: sum.splits if_splits\<close>)

lemma timers_armed_all: "act_all C P ser as p = Some p' \<Longrightarrow> timers_armed p \<Longrightarrow> timers_armed p'"
  by (induction as arbitrary: p) (auto simp: bind_eq_Some_conv dest: timers_armed_act)

lemma timers_armed_spawn: "timers_armed (spawn bind_ok clock b)"
  by (simp add: timers_armed_def spawn_def)

section \<open>A client's call\<close>

text \<open>What a fresh connection gives back: the client's bytes are accepted and its one request is served.\<close>

definition served :: "codec \<Rightarrow> prims \<Rightarrow> bool \<Rightarrow> u64 \<Rightarrow> Proc \<Rightarrow> byte list \<Rightarrow> Proc" where
  "served C P disk_ok now p stream = conn_turn C P (length (ps_clients p)) disk_ok now True (serve_accept stream p)"

definition exchange :: "codec \<Rightarrow> prims \<Rightarrow> bool \<Rightarrow> u64 \<Rightarrow> Proc \<Rightarrow> byte list \<Rightarrow> IoError + byte list" where
  "exchange C P disk_ok now p stream =
     (if \<not> ps_rpc_bound p then Inl UnexpectedEof
      else let cs = ps_clients (served C P disk_ok now p stream)
           in if length (ps_clients p) < length cs then Inr (snd (cs ! length (ps_clients p))) else Inl UnexpectedEof)"

lemma fits_frame:
  assumes "fits ser de m"
  shows "\<exists>fr. write_frame ser m = Inr fr \<and> (\<forall>rest. read_frame de (fr @ rest) = Inr (m, rest))"
proof -
  from assms obtain bytes where b: "ser m = Inr bytes" "length bytes \<le> MAX_FRAME" "de bytes = Inr m"
    by (auto simp: fits_def split: sum.splits)
  then obtain fr where fr: "write_frame ser m = Inr fr" by (simp add: write_frame_def)
  moreover have "read_frame de (fr @ rest) = Inr (m, rest)" for rest
    using read_write_frame [of ser m bytes de rest] b fr by auto
  ultimately show ?thesis by blast
qed

lemma rpc_call_served:
  assumes "fits (cd_request_out C) (cd_request C) req" and "ps_rpc_bound p"
    and h: "rpc_handle P disk_ok now (proc_alive p) req (rpc_view p) = (resp, rs, evs)"
    and "fits (cd_response_out C) (cd_response C) resp"
  shows "rpc_call C (exchange C P disk_ok now p) req = Inr resp"
proof -
  from fits_frame [OF assms(1)] obtain fr where fr: "write_frame (cd_request_out C) req = Inr fr"
    and rd: "\<And>rest. read_frame (cd_request C) (fr @ rest) = Inr (req, rest)" by blast
  from fits_frame [OF assms(4)] obtain re where re: "write_frame (cd_response_out C) resp = Inr re"
    and rr: "\<And>rest. read_frame (cd_response C) (re @ rest) = Inr (resp, rest)" by blast
  have view: "rpc_view (serve_accept fr p) = rpc_view p" "proc_alive (serve_accept fr p) = proc_alive p"
    by (simp_all add: rpc_view_def serve_accept_def proc_alive_def)
  have "exchange C P disk_ok now p fr = Inr re"
    using rd [of "[]"] h re assms(2) view
    by (simp add: exchange_def served_def conn_turn_def serve_accept_def nth_append)
  then show ?thesis using fr rr [of "[]"] by (simp add: rpc_call_def)
qed

end
