(* ===== verification/Process_Props.thy ===== *)
theory Process_Props
  imports Process Scenario
begin

text \<open>The spawned node with its threads: what every interleaving of them has in common.\<close>

section \<open>A run with its threads\<close>

definition demo_builder :: "Node \<Rightarrow> NodeBuilder" where
  "demo_builder n = with_rpc ''r:1'' (builder demo_genesis demo_pk n)"

definition demo_acts :: "Action list" where
  "demo_acts = [ActSubmit demo_att, ActStart demo_env, ActWait 5000, ActGossip, ActTurn demo_env]"

definition idle_codec :: codec where
  "idle_codec = \<lparr>cd_wire = (\<lambda>_. Inl []), cd_request = (\<lambda>_. Inl []), cd_request_out = (\<lambda>_. Inl []),
     cd_response = (\<lambda>_. Inl []), cd_response_out = (\<lambda>_. Inl [])\<rparr>"

lemma node_start_running:
  assumes "node_start P ser env n = Some (n', out)"
  shows "nd_running n' = nd_running n"
proof -
  from assms obtain e' effects where
    h: "handle_effects P ser env effects (n\<lparr>nd_engine := e'\<rparr>) = (n', out)"
    by (auto simp: node_start_def bind_eq_Some_conv)
  from handle_effects_frame(2) [OF this] show ?thesis by simp
qed

lemma node_new_running: "node_new P tr g sk pk st base = Some n \<Longrightarrow> nd_running n \<and> nd_base_timeout n = base"
  by (auto simp: node_new_def bind_eq_Some_conv case_prod_beta Let_def)

lemma demo_process:
  assumes "demo_result n n' out"
  shows "\<exists>p. act_all C lite_prims demo_ser demo_acts (spawn (\<lambda>_. True) 0 (demo_builder n)) = Some p
    \<and> ps_started p \<and> ps_node p = n' \<and> ps_outs p = out \<and> ps_sent p = [EvSubmit demo_att, EvRegossip]
    \<and> ps_queue p = [EvRegossip] \<and> ps_rpc_bound p"
proof -
  note r = demo_resultD [OF assms]
  from r(3) obtain n1 out1 out2 where s: "node_start lite_prims demo_ser demo_env n = Some (n1, out1)"
    and e: "node_event lite_prims demo_ser demo_env (EvSubmit demo_att) n1 = Some (n', out2)" and out: "out = out1 @ out2"
    by (auto simp: node_run_def demo_events_def bind_eq_Some_conv)
  have run: "nd_running n" "nd_running n1" and base: "nd_base_timeout n = 1000"
    using node_new_running [OF r(1)] node_start_running [OF s] by auto
  show ?thesis
    using s e out run base
    by (simp add: demo_acts_def act_def handle_submit_def ev_send_def proc_alive_def spawn_def demo_builder_def
        with_rpc_def builder_def loop_start_def loop_turn_def loop_out_def gossip_tick_def)
qed

section \<open>Refinement\<close>

text \<open>
  C7: The threads of a spawned node only feed its loop. Whatever turns the readers of peer connections, the
  client connections, the periodic threads, the timer thread, the handle and the loop take, in any
  order: the loop has handled a prefix of all events sent, in the order in which they were sent, the
  channel holds the rest, and the node is where the run over that prefix takes it. No event is
  lost, repeated or overtaken, and a timeout is sent only if the loop has armed it.
\<close>

theorem process_refines_node:
  assumes "act_all C P ser acts (spawn bind_ok clock b) = Some p"
  shows "(if ps_started p then \<exists>env0 evs. node_run P ser env0 evs (nb_node b) = Some (ps_node p, ps_outs p)
             \<and> map snd evs @ ps_queue p = ps_sent p
          else ps_node p = nb_node b \<and> ps_outs p = [] \<and> ps_queue p = ps_sent p)
    \<and> (\<forall>h r kind. EvTimeout h r kind \<in> set (ps_sent p) \<longrightarrow> (\<exists>d. Arm h r kind d \<in> set (ps_outs p)))"
  using runs_loop_all [OF assms runs_loop_spawn] timers_armed_all [OF assms timers_armed_spawn]
  by (auto simp: runs_loop_def timers_armed_def armed_by_def)

theorem process_refines_node_witness:
  "\<exists>(p :: Proc) env0 evs n. node_run lite_prims demo_ser env0 evs n = Some (ps_node p, ps_outs p)
     \<and> length (bs_blocks (nd_store (ps_node p))) = 1
     \<and> map snd evs @ ps_queue p = [EvSubmit demo_att, EvRegossip]"
proof -
  obtain n n' out where d: "demo_result n n' out" by (rule demo_run)
  from demo_process [OF d, of idle_codec] obtain p where
    p: "act_all idle_codec lite_prims demo_ser demo_acts (spawn (\<lambda>_. True) 0 (demo_builder n)) = Some p"
    and s: "ps_started p" "ps_node p = n'" "ps_sent p = [EvSubmit demo_att, EvRegossip]" by blast
  from process_refines_node [OF p] s demo_resultD(6) [OF d] show ?thesis by (intro exI [of _ p]) auto
qed

section \<open>Proofs over the RPC\<close>





end
