(* ===== verification/Ledger_Props.thy ===== *)
theory Ledger_Props
  imports Notary_Proof Toy_Prims
begin

text \<open>
  The properties of the ledger layer: Merkle proofs, headers, certificates, governance and
  notarization proofs.
\<close>

section \<open>Shared facts\<close>

lemma tree_preimages_prefix:
  "x \<in> tree_preimages P t \<Longrightarrow> \<exists>p rest. x = p # rest \<and> (p = LEAF_PREFIX \<or> p = NODE_PREFIX)"
  by (induction t) auto

lemma empty_root_differs:
  assumes "collision_free P (insert (ascii ''SLC-empty-merkle-v1'') (tree_preimages P t))"
  shows "data_root P t \<noteq> empty_root P"
proof
  assume eq: "data_root P t = empty_root P"
  obtain x where x: "x \<in> tree_preimages P t" "data_root P t = digest P x"
    using data_root_preimage by blast
  from eq x have "x = ascii ''SLC-empty-merkle-v1''"
    using digest_inject [OF assms, of x "ascii ''SLC-empty-merkle-v1''"] by (simp add: empty_root_def)
  with tree_preimages_prefix [OF x(1)] show False
    by (auto simp: ascii_def LEAF_PREFIX_def NODE_PREFIX_def)
qed

lemma data_tree_inject: "data_tree xs = data_tree ys \<Longrightarrow> xs \<noteq> [] \<Longrightarrow> ys \<noteq> [] \<Longrightarrow> xs = ys"
  by (metis tips_data_tree)

lemma insort_key_snoc: "f x \<le> f c \<Longrightarrow> insort_key f x (ys @ [c]) = insort_key f x ys @ [c]"
  by (induction ys) auto

lemma sort_key_snoc:
  "(\<And>x. x \<in> set xs \<Longrightarrow> f x \<le> f c) \<Longrightarrow> sort_key f (xs @ [c]) = sort_key f xs @ [c]"
  by (induction xs) (simp_all add: insort_key_snoc)

lemma sorted_bytes_mset: "sort (xs :: byte list list) = sort ys \<longleftrightarrow> mset xs = mset ys"
  by (metis mset_sort sorted_list_of_multiset_mset)

lemma mset_map_vk_bytes: "mset (map vk_bytes xs) = mset (map vk_bytes ys) \<longleftrightarrow> mset xs = mset ys"
proof
  assume "mset (map vk_bytes xs) = mset (map vk_bytes ys)"
  then have "image_mset VerifyingKey (mset (map vk_bytes xs)) = image_mset VerifyingKey (mset (map vk_bytes ys))"
    by simp
  then show "mset xs = mset ys" by (simp add: multiset.map_comp comp_def)
qed simp

section \<open>Merkle trees\<close>

text \<open>
  C23: For every list of leaf hashes and every index, \<^verbatim>\<open>MerkleTree::proof\<close> returns a path exactly
  when the index is in range, and the path recomputes the root of the tree from that leaf.
\<close>

theorem merkle_proof_complete:
  "case merkle_proof (merkle_build P leaves) i of
     None \<Rightarrow> length leaves \<le> i
   | Some path \<Rightarrow> i < length leaves
       \<and> compute_root P path (leaves ! i) = merkle_root_of P (merkle_build P leaves)"
proof (cases "i < length leaves")
  case True
  then have "leaves \<noteq> []" by auto
  with True merkle_proof_in_range [OF True, of P] climb_proof_loop [OF True, of P] show ?thesis
    by (simp add: compute_root_def merkle_root_nonempty)
next
  case False
  then show ?thesis by (simp add: merkle_proof_def levels_merkle_build)
qed

text \<open>
  C24: A path that leads from the leaf hash of some data to the root of a tree proves that the data
  is one of the tree's leaves, as long as the digests taken in building the tree and in checking
  the path have no collision. Neither an inner node nor a padded leaf can be passed off as data.
\<close>

theorem merkle_proof_sound:
  assumes "sha3_width P" and "xs \<noteq> []" and "path_wf path"
    and "collision_free P (merkle_preimages P xs \<union> insert (LEAF_PREFIX # d) (path_preimages P (hash_leaf P d) (steps path)))"
    and "compute_root P path (hash_leaf P d) = merkle_root_of P (merkle_build P (map (hash_leaf P) xs))"
  shows "d \<in> set xs"
proof -
  have "d \<in> set (tips (data_tree xs))"
    using assms by (intro path_reaches_tip [OF assms(1,4)])
      (auto simp: merkle_preimages_def path_wf_def compute_root_def merkle_root_data_root)
  then show ?thesis using assms(2) by (simp add: tips_data_tree)
qed

lemma data_tree_pair [simp]: "data_tree [[1], [2 :: byte]] = Fork (Tip [1]) (Tip [2])"
  by code_simp

theorem merkle_proof_sound_witness:
  "[2] \<in> set [[1], [2 :: byte]]"
proof (rule merkle_proof_sound [of pad_prims "[[1], [2]]"
      "\<lparr>steps = [\<lparr>sibling = hash_leaf pad_prims [1], sibling_is_left = True\<rparr>]\<rparr>" "[2]"])
  show "path_wf \<lparr>steps = [\<lparr>sibling = hash_leaf pad_prims [1], sibling_is_left = True\<rparr>]\<rparr>"
    by (simp add: path_wf_def hash_leaf_def HASH_LEN_def)
  show "collision_free pad_prims (merkle_preimages pad_prims [[1], [2]] \<union>
      insert (LEAF_PREFIX # [2]) (path_preimages pad_prims (hash_leaf pad_prims [2])
        (steps \<lparr>steps = [\<lparr>sibling = hash_leaf pad_prims [1], sibling_is_left = True\<rparr>]\<rparr>)))"
    by (auto simp: collision_free_def merkle_preimages_def pad_prims_def hash_leaf_def digest_def
        LEAF_PREFIX_def NODE_PREFIX_def)
  show "compute_root pad_prims \<lparr>steps = [\<lparr>sibling = hash_leaf pad_prims [1], sibling_is_left = True\<rparr>]\<rparr> (hash_leaf pad_prims [2])
      = merkle_root_of pad_prims (merkle_build pad_prims (map (hash_leaf pad_prims) [[1], [2]]))"
    by (simp add: compute_root_def merkle_root_data_root del: list.map)
qed simp_all

text \<open>
  The root commits to the whole list: two lists of leaf data of any lengths with the same root
  are the same list, as long as the digests taken in building them have no collision. The empty
  list has a root of its own.
\<close>

theorem merkle_root_binds:
  assumes "sha3_width P" and "collision_free P (merkle_preimages P xs \<union> merkle_preimages P ys)"
    and "merkle_root_of P (merkle_build P (map (hash_leaf P) xs)) =
         merkle_root_of P (merkle_build P (map (hash_leaf P) ys))"
  shows "xs = ys"
proof -
  consider "xs = []" "ys = []" | "xs = []" "ys \<noteq> []" | "xs \<noteq> []" "ys = []" | "xs \<noteq> []" "ys \<noteq> []" by blast
  then show ?thesis
  proof cases
    case 2
    with assms(2,3) empty_root_differs [of P "data_tree ys"] show ?thesis
      by (simp add: merkle_preimages_def merkle_root_empty merkle_root_data_root)
  next
    case 3
    with assms(2,3) empty_root_differs [of P "data_tree xs"] show ?thesis
      by (simp add: merkle_preimages_def merkle_root_empty merkle_root_data_root Un_commute)
  next
    case 4
    with assms have "data_tree xs = data_tree ys"
      by (intro data_root_inject [OF assms(1,2)]) (auto simp: merkle_preimages_def merkle_root_data_root)
    with 4 show ?thesis by (intro data_tree_inject)
  qed simp
qed

theorem merkle_root_binds_witness:
  "collision_free pad_prims (merkle_preimages pad_prims [[1], [2]]) \<and> [[1], [2 :: byte]] = [[1], [2]]"
proof
  show c: "collision_free pad_prims (merkle_preimages pad_prims [[1], [2]])"
    by (auto simp: collision_free_def merkle_preimages_def pad_prims_def hash_leaf_def digest_def
        LEAF_PREFIX_def NODE_PREFIX_def)
  show "[[1], [2 :: byte]] = [[1], [2]]"
    by (rule merkle_root_binds [of pad_prims]) (simp_all add: c del: list.map)
qed

section \<open>Headers, certificates\<close>

definition sample_header :: BlockHeader where
  "sample_header = \<lparr>bh_height = 1, bh_prev_hash = zero_hash, bh_merkle_root = zero_hash, bh_tx_count = 0,
     bh_timestamp = 7, bh_gov_root = zero_hash\<rparr>"

definition sample_vals :: "VerifyingKey list" where
  "sample_vals = [VerifyingKey [1], VerifyingKey [2], VerifyingKey [3], VerifyingKey [4]]"

definition sample_set :: ValidatorSet where
  "sample_set = \<lparr>set_validators = sample_vals, set_threshold = 3\<rparr>"

lemma sample_header_wf [simp]: "header_wf sample_header"
  by (simp add: header_wf_def sample_header_def zero_hash_def HASH_LEN_def)

lemma sample_set_bft [simp]: "validator_set_bft sample_vals = Some sample_set"
  by (simp add: bft_Some_iff sample_set_def sample_vals_def)

text \<open>
  The block id commits to every field of the header: two headers with the same id are equal, as
  long as their two encodings do not collide.
\<close>

theorem header_id_binds:
  assumes "header_wf h" and "header_wf h'"
    and "collision_free P {header_signing_bytes h, header_signing_bytes h'}"
    and "header_id P h = header_id P h'"
  shows "h = h'"
  using assms digest_inject [OF assms(3)] by (simp add: header_id_def header_signing_bytes_inject)

theorem header_id_binds_witness:
  "sample_header = sample_header\<lparr>bh_timestamp := 7\<rparr>"
  by (rule header_id_binds [of _ _ toy_prims])
    (simp_all add: sample_header_def header_wf_def zero_hash_def HASH_LEN_def collision_free_def)

text \<open>
  Fork accountability. If two headers both have a certificate that verifies under the same
  Byzantine validator set of \<open>n\<close> keys, then more than \<open>(n - 1) / 3\<close> of the validators have
  validly signed both block ids.
\<close>

theorem certificates_share_signers:
  assumes "validator_set_bft vals = Some vset"
    and "qc_verify P qc h vset = Inr ()" and "qc_verify P qc' h' vset = Inr ()"
  shows "(length vals - 1) div 3 < card {v \<in> set vals.
     (\<exists>s. vk_verify P v (as_bytes (header_id P h)) s ctx_BLOCK)
     \<and> (\<exists>s. vk_verify P v (as_bytes (header_id P h')) s ctx_BLOCK)}"
  using assms by (rule qc_overlap)

definition sample_qc :: QuorumCertificate where
  "sample_qc = \<lparr>qc_block_id = header_id toy_prims sample_header,
     qc_signatures = map (\<lambda>k. \<lparr>vs_validator = VerifyingKey k,
       vs_signature = Signature (k @ ctx_BLOCK @ as_bytes (header_id toy_prims sample_header))\<rparr>) [[1], [2], [3]]\<rparr>"

lemma toy_ids_differ: "distinct (map (vk_id toy_prims) sample_vals)"
  by code_simp

lemma sample_qc_verifies [simp]: "qc_verify toy_prims sample_qc sample_header sample_set = Inr ()"
  using toy_ids_differ
  by (auto simp: qc_verify_Inr_iff qc_is_final_def qc_count_valid_def sample_qc_def sample_set_def sample_vals_def)

theorem certificates_share_signers_witness:
  "1 < card {v \<in> set sample_vals. \<exists>s. vk_verify toy_prims v (as_bytes (header_id toy_prims sample_header)) s ctx_BLOCK}"
  using certificates_share_signers [OF sample_set_bft sample_qc_verifies sample_qc_verifies]
  by (simp add: sample_vals_def)

text \<open>
  Finality. If at most \<open>(n - 1) / 3\<close> of the validators (the set \<open>B\<close>) ever put valid
  signatures on the ids of two different headers of one height, then two headers of that height
  with certificates that verify under the set are the same header.
\<close>

theorem certificates_unique:
  assumes "validator_set_bft vals = Some vset"
    and "qc_verify P qc h vset = Inr ()" and "qc_verify P qc' h' vset = Inr ()"
    and "card B \<le> (length vals - 1) div 3" and "finite B"
    and "\<forall>v\<in>set vals - B. \<forall>x y. header_wf x \<and> header_wf y \<and> bh_height x = bh_height y
           \<and> (\<exists>s. vk_verify P v (as_bytes (header_id P x)) s ctx_BLOCK)
           \<and> (\<exists>s. vk_verify P v (as_bytes (header_id P y)) s ctx_BLOCK) \<longrightarrow> x = y"
    and "header_wf h" and "header_wf h'" and "bh_height h = bh_height h'"
  shows "h = h'"
proof -
  have q: "bft_quorum vals (qc_signers P qc vset)" "bft_quorum vals (qc_signers P qc' vset)"
    using assms by (auto simp: qc_verify_Inr_iff intro: qc_final_quorum)
  from bft.honest_common_member [OF q assms(5,4)] obtain v where
    v: "v \<in> qc_signers P qc vset" "v \<in> qc_signers P qc' vset" "v \<notin> B" by blast
  moreover have "v \<in> set vals" using v(1) q(1) by (auto simp: bft_quorum_def)
  moreover have "qc_block_id qc = header_id P h" "qc_block_id qc' = header_id P h'"
    using assms by (auto simp: qc_verify_Inr_iff)
  ultimately show ?thesis
    using qc_signersD(2) [OF v(1)] qc_signersD(2) [OF v(2)] assms(6-9) by auto
qed

definition once_prims :: prims where
  "once_prims = toy_prims\<lparr>sha3_256 := (\<lambda>bs. bs), mldsa_verify := (\<lambda>pk m s c. m = header_signing_bytes sample_header)\<rparr>"

theorem certificates_unique_witness:
  "let h = sample_header\<lparr>bh_timestamp := 7\<rparr> in sample_header = h"
proof -
  let ?sig = "\<lambda>k. \<lparr>vs_validator = VerifyingKey [k], vs_signature = Signature []\<rparr>"
  let ?qc = "\<lparr>qc_block_id = header_id once_prims sample_header, qc_signatures = [?sig 1, ?sig 2, ?sig 3]\<rparr>"
  have same: "sample_header\<lparr>bh_timestamp := 7\<rparr> = sample_header" by (simp add: sample_header_def)
  have sig: "vk_verify once_prims v (as_bytes (header_id once_prims x)) s c \<longleftrightarrow>
      header_signing_bytes x = header_signing_bytes sample_header" for v x s c
    by (simp add: vk_verify_def once_prims_def header_id_def digest_def)
  have qc: "qc_verify once_prims ?qc sample_header sample_set = Inr ()"
    by (simp add: qc_verify_Inr_iff qc_is_final_def qc_count_valid_def sample_set_def sample_vals_def sig)
      (simp add: once_prims_def vk_id_def digest_def)
  have "sample_header = sample_header\<lparr>bh_timestamp := 7\<rparr>"
    by (rule certificates_unique [OF sample_set_bft qc, of ?qc _ "{}"])
      (use qc in \<open>auto simp: same sig header_signing_bytes_inject\<close>)
  then show ?thesis by simp
qed

text \<open>
  A certificate that collects valid signatures of distinct validators verifies exactly when there
  are at least as many as the threshold; with fewer, the error reports how many were valid.
\<close>

theorem qc_verify_counts:
  assumes "distinct (map (vk_id P \<circ> vs_validator) sigs)"
    and "\<forall>a\<in>set sigs. vs_contains vset (vs_validator a)
           \<and> vk_verify P (vs_validator a) (as_bytes (header_id P h)) (vs_signature a) ctx_BLOCK"
  shows "qc_verify P \<lparr>qc_block_id = header_id P h, qc_signatures = sigs\<rparr> h vset =
     (if set_threshold vset \<le> length sigs then Inr ()
      else Inl (InsufficientQuorum (length sigs) (set_threshold vset)))"
proof -
  have "filter (\<lambda>a. vs_contains vset (vs_validator a)
      \<and> vk_verify P (vs_validator a) (as_bytes (header_id P h)) (vs_signature a) ctx_BLOCK) sigs = sigs"
    using assms(2) by (intro filter_True) auto
  with qct.loop_complete [OF assms(1), of "{}" vset "header_id P h" 0] show ?thesis
    by (simp add: qc_verify_def qc_count_valid_def Let_def)
qed

theorem qc_verify_counts_witness:
  "qc_verify toy_prims (sample_qc\<lparr>qc_signatures := take 2 (qc_signatures sample_qc)\<rparr>) sample_header sample_set
     = Inl (InsufficientQuorum 2 3)"
  using qc_verify_counts [of toy_prims "take 2 (qc_signatures sample_qc)" sample_set sample_header] toy_ids_differ
  by (auto simp: sample_qc_def sample_set_def sample_vals_def)

section \<open>Governance\<close>


definition sample_change :: SignedValidatorChange where
  "sample_change =
     (let c = \<lparr>vc_adds = [VerifyingKey [9]], vc_removes = [VerifyingKey [4]], vc_activation_height = 5\<rparr>
      in \<lparr>svc_change = c,
          svc_approvals = map (\<lambda>k. \<lparr>vs_validator = VerifyingKey k,
            vs_signature = Signature (k @ ctx_GOVERNANCE @ change_signing_bytes c)\<rparr>) [[1], [2], [3]]\<rparr>)"


lemma length_concat_chunks: "\<forall>x\<in>set xs. length x = w \<Longrightarrow> length (concat xs) = length xs * w"
  by (induction xs) auto

lemma sorted_keys_concat_inject:
  assumes "length xs = length ys" and "\<forall>k\<in>set xs \<union> set ys. length (vk_bytes k) = PUBKEY_LEN"
    and "concat (sort (map vk_bytes xs)) @ zs = concat (sort (map vk_bytes ys)) @ ws"
  shows "mset xs = mset ys \<and> zs = ws"
proof -
  let ?a = "sort (map vk_bytes xs)" and ?b = "sort (map vk_bytes ys)"
  have w: "\<forall>x\<in>set ?a \<union> set ?b. length x = PUBKEY_LEN" using assms(2) by auto
  have "length (concat ?a) = length ?a * PUBKEY_LEN" "length (concat ?b) = length ?b * PUBKEY_LEN"
    using w by (auto intro!: length_concat_chunks simp del: length_sort length_map)
  with assms(1,3) have "concat ?a = concat ?b" and zs: "zs = ws" by auto
  then have "?a = ?b"
    using concat_chunks_inject [of "\<lambda>x. x" ?a ?b PUBKEY_LEN] w assms(1) by auto
  with zs show ?thesis by (simp add: sorted_bytes_mset mset_map_vk_bytes del: mset_map)
qed

text \<open>
  C26: What the approvals sign is canonical and unambiguous: two changes have the same signing bytes
  exactly when they agree on the activation height and on the keys added and removed, whatever
  the order of the keys.
\<close>

theorem change_signing_bytes_canonical:
  assumes "\<forall>k\<in>set (vc_adds c @ vc_removes c @ vc_adds c' @ vc_removes c'). length (vk_bytes k) = PUBKEY_LEN"
    and "\<forall>ks\<in>{vc_adds c, vc_removes c, vc_adds c', vc_removes c'}. length ks < 2 ^ 32"
  shows "change_signing_bytes c = change_signing_bytes c' \<longleftrightarrow>
     vc_activation_height c = vc_activation_height c'
     \<and> mset (vc_adds c) = mset (vc_adds c') \<and> mset (vc_removes c) = mset (vc_removes c')"
proof
  assume eq: "change_signing_bytes c = change_signing_bytes c'"
  then have h: "vc_activation_height c = vc_activation_height c'"
    and n: "len_as_u32 (vc_adds c) = len_as_u32 (vc_adds c')"
    and tail: "concat (sort (map vk_bytes (vc_adds c))) @ u32_be (len_as_u32 (vc_removes c)) @ concat (sort (map vk_bytes (vc_removes c)))
      = concat (sort (map vk_bytes (vc_adds c'))) @ u32_be (len_as_u32 (vc_removes c')) @ concat (sort (map vk_bytes (vc_removes c')))"
    by (auto simp: change_signing_bytes_def Let_def len_as_u32_def)
  have len: "length xs = length ys" if "len_as_u32 xs = len_as_u32 ys" "length xs < 2 ^ 32" "length ys < 2 ^ 32" for xs ys :: "VerifyingKey list"
  proof -
    from that(1) have "unat (len_as_u32 xs) = unat (len_as_u32 ys)" by simp
    with that(2,3) show ?thesis by (simp add: len_as_u32_def unat_of_nat take_bit_nat_eq_self)
  qed
  have a: "length (vc_adds c) = length (vc_adds c')" using len [OF n] assms(2) by simp
  from sorted_keys_concat_inject [OF a _ tail] assms(1) have
    adds: "mset (vc_adds c) = mset (vc_adds c')"
    and tail2: "u32_be (len_as_u32 (vc_removes c)) @ concat (sort (map vk_bytes (vc_removes c)))
      = u32_be (len_as_u32 (vc_removes c')) @ concat (sort (map vk_bytes (vc_removes c')))" by auto
  from tail2 have m: "len_as_u32 (vc_removes c) = len_as_u32 (vc_removes c')"
    and rest: "concat (sort (map vk_bytes (vc_removes c))) @ [] = concat (sort (map vk_bytes (vc_removes c'))) @ []" by auto
  have b: "length (vc_removes c) = length (vc_removes c')" using len [OF m] assms(2) by simp
  from sorted_keys_concat_inject [OF b _ rest] assms(1) h adds show
    "vc_activation_height c = vc_activation_height c' \<and> mset (vc_adds c) = mset (vc_adds c') \<and> mset (vc_removes c) = mset (vc_removes c')"
    by auto
next
  assume "vc_activation_height c = vc_activation_height c'
     \<and> mset (vc_adds c) = mset (vc_adds c') \<and> mset (vc_removes c) = mset (vc_removes c')"
  then have "sort (map vk_bytes (vc_adds c)) = sort (map vk_bytes (vc_adds c'))"
    "sort (map vk_bytes (vc_removes c)) = sort (map vk_bytes (vc_removes c'))"
    "vc_activation_height c = vc_activation_height c'"
    by (simp_all add: sorted_bytes_mset mset_map_vk_bytes del: mset_map)
  then show "change_signing_bytes c = change_signing_bytes c'"
    by (simp add: change_signing_bytes_def Let_def)
qed

theorem change_signing_bytes_canonical_witness:
  "let a = VerifyingKey (replicate 1952 0); b = VerifyingKey (replicate 1952 1)
   in change_signing_bytes \<lparr>vc_adds = [a, b], vc_removes = [], vc_activation_height = 3\<rparr>
    = change_signing_bytes \<lparr>vc_adds = [b, a], vc_removes = [], vc_activation_height = 3\<rparr>"
  unfolding Let_def
  by (subst change_signing_bytes_canonical) (simp_all add: PUBKEY_LEN_def add_mset_commute)

text \<open>
  Recording a change that activates no earlier than the ones already recorded leaves the set of
  every earlier height alone, and from its activation on gives the old set with the change's
  removals and then its additions applied.
\<close>

theorem registry_record_in_order:
  assumes "\<forall>c'\<in>set (reg_changes reg). vc_activation_height c' \<le> vc_activation_height c"
  shows "active_keys (registry_record reg c) height =
     (if vc_activation_height c \<le> height
      then apply_change c (active_keys reg height) else active_keys reg height)
   \<and> set (apply_change c (active_keys reg height)) =
       set (active_keys reg height) - set (vc_removes c) \<union> set (vc_adds c)"
proof -
  have "sort_key vc_activation_height (filter (\<lambda>c. vc_activation_height c \<le> height) (reg_changes reg) @ [c])
      = sort_key vc_activation_height (filter (\<lambda>c. vc_activation_height c \<le> height) (reg_changes reg)) @ [c]"
    using assms by (intro sort_key_snoc) auto
  then show ?thesis by (simp add: active_keys_def registry_record_def set_apply_change)
qed

theorem registry_record_in_order_witness:
  "active_keys (registry_record (registry_new sample_vals) (svc_change sample_change)) 6
     = [VerifyingKey [1], VerifyingKey [2], VerifyingKey [3], VerifyingKey [9]]"
proof -
  have "active_keys (registry_new sample_vals) 6 = sample_vals"
    by (simp add: active_keys_def registry_new_def)
  with registry_record_in_order [of "registry_new sample_vals" "svc_change sample_change" 6] show ?thesis
    by (simp add: registry_new_def sample_change_def sample_vals_def apply_change_def remove_key_def add_key_def Let_def)
qed

section \<open>Notarization proofs\<close>

definition sample_att :: Attestation where
  "sample_att = \<lparr>att_pubkey = VerifyingKey (replicate 1952 0), att_hash = Hash (replicate 32 5),
     att_signature = Signature (replicate 3309 0)\<rparr>"

definition sample_block :: SlcBlock where
  "sample_block =
     (let h = sample_header\<lparr>bh_tx_count := 1, bh_merkle_root := leaf_hash lax_prims sample_att\<rparr>
      in \<lparr>blk_header = h, blk_attestations = [sample_att], blk_governance = [],
          blk_qc = \<lparr>qc_block_id = header_id lax_prims h,
                    qc_signatures = [\<lparr>vs_validator = VerifyingKey [1], vs_signature = Signature []\<rparr>]\<rparr>\<rparr>)"

definition solo_set :: ValidatorSet where
  "solo_set = \<lparr>set_validators = [VerifyingKey [1]], set_threshold = 1\<rparr>"

lemma solo_set_bft [simp]: "validator_set_bft [VerifyingKey [1]] = Some solo_set"
  by (simp add: bft_Some_iff solo_set_def)

lemma sample_block_good:
  "attestation_verify lax_prims sample_att"
  "bh_merkle_root (blk_header sample_block) =
     merkle_root_of lax_prims (merkle_build lax_prims (map (leaf_hash lax_prims) (blk_attestations sample_block)))"
  "qc_verify lax_prims (blk_qc sample_block) (blk_header sample_block) solo_set = Inr ()"
proof -
  show "attestation_verify lax_prims sample_att" by (simp add: attestation_verify_def)
  have "merkle_root_of lax_prims (merkle_build lax_prims [x]) = x" for x
    using merkle_proof_in_range [of 0 "[x]" lax_prims] climb_proof_loop [of 0 "[x]" lax_prims]
    by (simp add: merkle_root_nonempty pair_all.simps)
  then show "bh_merkle_root (blk_header sample_block) =
     merkle_root_of lax_prims (merkle_build lax_prims (map (leaf_hash lax_prims) (blk_attestations sample_block)))"
    by (simp add: sample_block_def Let_def)
  show "qc_verify lax_prims (blk_qc sample_block) (blk_header sample_block) solo_set = Inr ()"
    by (simp add: qc_verify_Inr_iff qc_is_final_def qc_count_valid_def sample_block_def solo_set_def Let_def)
qed

text \<open>
  A proof can be cut from a block for every attestation in it and for no other index, and if
  the block's attestation, Merkle root and certificate are good, the proof verifies.
\<close>

theorem proof_from_block_complete:
  "case proof_from_block P b i of
     None \<Rightarrow> length (blk_attestations b) \<le> i
   | Some pf \<Rightarrow> i < length (blk_attestations b) \<and> np_attestation pf = blk_attestations b ! i
       \<and> (attestation_verify P (blk_attestations b ! i)
          \<and> bh_merkle_root (blk_header b) = merkle_root_of P (merkle_build P (map (leaf_hash P) (blk_attestations b)))
          \<and> qc_verify P (blk_qc b) (blk_header b) vset = Inr ()
          \<longrightarrow> proof_verify P pf vset = Inr ())"
proof (cases "i < length (blk_attestations b)")
  case True
  from proof_from_block_eq [OF True, of P] show ?thesis by (auto simp: proof_verify_Inr_iff True)
next
  case False
  then show ?thesis by (simp add: proof_from_block_None)
qed

theorem proof_from_block_complete_witness:
  "\<exists>pf. proof_from_block lax_prims sample_block 0 = Some pf \<and> proof_verify lax_prims pf solo_set = Inr ()"
  using proof_from_block_complete [where P = lax_prims and b = sample_block and i = 0 and vset = solo_set] sample_block_good
  by (auto simp: sample_block_def Let_def split: option.splits)

text \<open>
  C22: What a verified proof establishes. If the proof's header is that of a block whose Merkle
  root is the root of its attestations, then the proof's attestation is one of them, its author
  signed the document hash, and at least \<open>n - (n - 1) / 3\<close> validators signed the header's id,
  as long as the digests taken have no collision.
\<close>

theorem proof_verify_sound:
  assumes "sha3_width P" and "validator_set_bft vals = Some vset"
    and "proof_verify P pf vset = Inr ()"
    and "np_header pf = blk_header b"
    and "bh_merkle_root (blk_header b) = merkle_root_of P (merkle_build P (map (leaf_hash P) (blk_attestations b)))"
    and "blk_attestations b \<noteq> []"
    and "\<forall>a\<in>insert (np_attestation pf) (set (blk_attestations b)). attestation_wf a" and "path_wf (np_path pf)"
    and "collision_free P (merkle_preimages P (map attestation_encode (blk_attestations b))
       \<union> insert (LEAF_PREFIX # attestation_encode (np_attestation pf))
           (path_preimages P (leaf_hash P (np_attestation pf)) (steps (np_path pf))))"
  shows "np_attestation pf \<in> set (blk_attestations b)
    \<and> vk_verify P (att_pubkey (np_attestation pf)) (as_bytes (proof_hash pf))
           (att_signature (np_attestation pf)) ctx_ATTESTATION
    \<and> length vals - (length vals - 1) div 3
           \<le> card {v \<in> set vals. \<exists>s. vk_verify P v (as_bytes (header_id P (np_header pf))) s ctx_BLOCK}"
proof -
  from assms(3) have v: "attestation_verify P (np_attestation pf)"
      "compute_root P (np_path pf) (leaf_hash P (np_attestation pf)) = bh_merkle_root (np_header pf)"
      "qc_block_id (np_qc pf) = header_id P (np_header pf)" "qc_is_final P (np_qc pf) vset"
    by (auto simp: proof_verify_Inr_iff qc_verify_Inr_iff)
  let ?ds = "map attestation_encode (blk_attestations b)"
  have "map (leaf_hash P) (blk_attestations b) = map (hash_leaf P) ?ds" by (simp add: leaf_hash_def)
  then have root: "bh_merkle_root (blk_header b) = data_root P (data_tree ?ds)"
    using assms(5,6) merkle_root_data_root [of ?ds P] by (simp del: map_map)
  have "attestation_encode (np_attestation pf) \<in> set (tips (data_tree ?ds))"
    using assms(6,8,9) v(2) root assms(4)
    by (intro path_reaches_tip [OF assms(1,9)])
      (auto simp: merkle_preimages_def path_wf_def leaf_hash_def compute_root_def)
  then obtain a where "a \<in> set (blk_attestations b)" "attestation_encode a = attestation_encode (np_attestation pf)"
    using assms(6) by (auto simp: tips_data_tree)
  with assms(7) have mem: "np_attestation pf \<in> set (blk_attestations b)" by (metis attestation_encode_inject insertCI)
  have sig: "vk_verify P (att_pubkey (np_attestation pf)) (as_bytes (proof_hash pf))
      (att_signature (np_attestation pf)) ctx_ATTESTATION"
    using v(1) by (simp add: attestation_verify_def proof_hash_def)
  have "bft_quorum vals (qc_signers P (np_qc pf) vset)" using assms(2) v(4) by (rule qc_final_quorum)
  then have "length vals - (length vals - 1) div 3 \<le> card (qc_signers P (np_qc pf) vset)"
    "qc_signers P (np_qc pf) vset \<subseteq> set vals"
    by (auto simp: bft_quorum_def bft_Some_iff)
  moreover from this(2) have "card (qc_signers P (np_qc pf) vset) \<le> card {v \<in> set vals. \<exists>s. vk_verify P v (as_bytes (header_id P (np_header pf))) s ctx_BLOCK}"
    using qc_signersD(2) v(3) by (intro card_mono) fastforce+
  ultimately have "length vals - (length vals - 1) div 3
      \<le> card {v \<in> set vals. \<exists>s. vk_verify P v (as_bytes (header_id P (np_header pf))) s ctx_BLOCK}" by linarith
  with mem sig show ?thesis by simp
qed

theorem proof_verify_sound_witness:
  "\<exists>pf. proof_verify lax_prims pf solo_set = Inr () \<and> np_attestation pf \<in> set (blk_attestations sample_block)"
proof -
  let ?pf = "\<lparr>np_attestation = sample_att, np_path = \<lparr>steps = []\<rparr>, np_header = blk_header sample_block,
    np_qc = blk_qc sample_block\<rparr>"
  have v: "proof_verify lax_prims ?pf solo_set = Inr ()"
    using sample_block_good by (simp add: proof_verify_Inr_iff compute_root_def) (simp add: sample_block_def Let_def)
  have tree: "data_tree [d] = Tip d" for d :: "byte list" by (simp add: data_tree_def pair_all.simps)
  have "np_attestation ?pf \<in> set (blk_attestations sample_block)"
    by (rule proof_verify_sound [OF _ solo_set_bft v, of sample_block, THEN conjunct1])
      (use sample_block_good(2) in \<open>simp_all add: sample_block_def sample_att_def attestation_wf_def PUBKEY_LEN_def
        HASH_LEN_def SIG_LEN_def path_wf_def collision_free_def merkle_preimages_def tree Let_def\<close>)
  with v show ?thesis by blast
qed

end
