(* ===== verification/Service_Props.thy ===== *)
theory Service_Props
  imports Scenario Ledger_Props
begin

text \<open>
  The properties of the services around consensus: public-chain anchoring, licenses and the
  notarization meter, the wire frames, and the block store.
\<close>

section \<open>Anchoring\<close>

text \<open>
  C35: A script is read as a checkpoint root exactly when it starts with the script the program
  writes for that root: no other prefix, version, push length or data length is taken for one.
\<close>

theorem opreturn_exact:
  "parse_root s = Some root \<longleftrightarrow> length (as_bytes root) = HASH_LEN \<and> (\<exists>rest. s = script root @ rest)"
  by (rule parse_root_iff)

text \<open>The service after it was told of a sequence of blocks, each under its own state of the world.\<close>

definition feed :: "prims \<Rightarrow> (anchor_world \<times> Hash \<times> u64) list \<Rightarrow> AnchorService \<Rightarrow> AnchorService" where
  "feed P bs s = foldl (\<lambda>s (W, bid, h). snd (record_block P W bid h s)) s bs"

lemma feed_snoc: "feed P (bs @ [(W, bid, h)]) s = snd (record_block P W bid h (feed P bs s))"
  by (simp add: feed_def)

lemma feed_inv: "service_inv P s \<Longrightarrow> service_inv P (feed P bs s)"
proof (induction bs rule: rev_induct)
  case Nil
  then show ?case by (simp add: feed_def)
next
  case (snoc b bs)
  obtain W bid h where b: "b = (W, bid, h)" by (cases b) auto
  from snoc show ?case unfolding b feed_snoc by (cases "record_block P W bid h (feed P bs s)") (auto intro: record_block_inv)
qed

lemma feed_ids: "service_ids (feed P bs s) = service_ids s @ map (\<lambda>(W, bid, h). bid) bs"
proof (induction bs rule: rev_induct)
  case Nil
  then show ?case by (simp add: feed_def)
next
  case (snoc b bs)
  obtain W bid h where b: "b = (W, bid, h)" by (cases b) auto
  from snoc show ?case unfolding b feed_snoc
    by (cases "record_block P W bid h (feed P bs s)") (auto dest: record_block_ids)
qed

lemma service_new_fresh:
  assumes "service_new backend interval = Some s"
  shows "service_inv P s" and "service_ids s = []"
  using assms by (auto simp: service_new_def service_inv_def service_ids_def split: if_splits)

text \<open>
  C32: Whatever the backend answers, anchoring loses, duplicates and reorders no block: the blocks of
  the published windows followed by the pending ones are those that were recorded, in order, and
  every published window has the Merkle root of its blocks, which its receipt names too.
\<close>

theorem anchoring_loses_nothing:
  assumes "service_new backend interval = Some s"
  shows "concat (map win_block_ids (svc_history (feed P bs s))) @ svc_pending_ids (feed P bs s)
           = map (\<lambda>(W, bid, h). bid) bs
    \<and> (\<forall>w\<in>set (svc_history (feed P bs s)).
         ar_checkpoint_root (win_record w)
           = merkle_root_of P (merkle_build P (map (checkpoint_leaf P) (win_block_ids w)))
         \<and> rc_checkpoint_root (ar_receipt (win_record w)) = ar_checkpoint_root (win_record w))"
  using feed_inv [OF service_new_fresh(1) [OF assms], of P bs] feed_ids [of P bs s] service_new_fresh(2) [OF assms]
  by (auto simp: service_ids_def service_inv_def window_ok_def)

definition demo_service :: AnchorService where
  "demo_service = the (service_new (Mock mock_new) 2)"

definition demo_feed :: "(anchor_world \<times> Hash \<times> u64) list" where
  "demo_feed = [(demo_world, Hash [1], 1), (demo_world, Hash [2], 2), (demo_world, Hash [3], 3)]"

lemma demo_service_new: "service_new (Mock mock_new) 2 = Some demo_service"
  by (simp add: demo_service_def service_new_def)

theorem anchoring_loses_nothing_witness:
  "concat (map win_block_ids (svc_history (feed lite_prims demo_feed demo_service)))
     @ svc_pending_ids (feed lite_prims demo_feed demo_service) = [Hash [1], Hash [2], Hash [3]]"
  using anchoring_loses_nothing [OF demo_service_new, where P = lite_prims and bs = demo_feed]
  by (simp add: demo_feed_def)


definition sample_proof :: NotarizationProof where
  "sample_proof = \<lparr>np_attestation = sample_att, np_path = \<lparr>steps = []\<rparr>, np_header = blk_header sample_block,
     np_qc = blk_qc sample_block\<rparr>"




lemma sample_proof_verifies: "proof_verify lax_prims sample_proof solo_set = Inr ()"
  using sample_block_good
  by (simp add: proof_verify_Inr_iff compute_root_def sample_proof_def) (simp add: sample_block_def Let_def)



text \<open>
  C34: An anchored proof that verifies ties the document to the anchored checkpoint: if the record's
  root is the root of a checkpoint over some block ids, the id of the proof's block is one of them,
  and the notarization verifies on its own, as long as the digests taken have no collision.
\<close>

theorem anchored_verify_sound:
  assumes "sha3_width P" and "anchored_verify P ap vset = Inr ()"
    and "from_block_ids P ids a b = Some cp" and "ar_checkpoint_root (ap_record ap) = cp_root cp"
    and "path_wf (ci_path (ap_checkpoint ap))"
    and "collision_free P (checkpoint_preimages P ids \<union> inclusion_preimages P (ap_checkpoint ap))"
  shows "header_id P (np_header (ap_notarization ap)) \<in> set ids
    \<and> proof_verify P (ap_notarization ap) vset = Inr ()"
proof -
  from assms(2,4) have "ci_block_id (ap_checkpoint ap) = header_id P (np_header (ap_notarization ap))"
    and "inclusion_verify P (ap_checkpoint ap) (cp_root cp)" and "proof_verify P (ap_notarization ap) vset = Inr ()"
    by (auto simp: anchored_verify_Inr_iff)
  with inclusion_sound [OF assms(1,6,5,3)] show ?thesis by auto
qed

definition sample_anchored :: AnchoredProof where
  "sample_anchored =
     (let bid = header_id lax_prims (blk_header sample_block) in
      \<lparr>ap_notarization = sample_proof,
       ap_checkpoint = \<lparr>ci_block_id = bid, ci_path = \<lparr>steps = []\<rparr>\<rparr>,
       ap_record = \<lparr>ar_from_height = 1, ar_to_height = 1, ar_checkpoint_root = checkpoint_leaf lax_prims bid,
         ar_receipt = \<lparr>rc_backend = ''mock'', rc_reference = [], rc_checkpoint_root = checkpoint_leaf lax_prims bid\<rparr>\<rparr>\<rparr>)"

theorem anchored_verify_sound_witness:
  "header_id lax_prims (np_header (ap_notarization sample_anchored))
     \<in> set [header_id lax_prims (blk_header sample_block)]"
proof -
  let ?bid = "header_id lax_prims (blk_header sample_block)"
  let ?cp = "the (from_block_ids lax_prims [?bid] 1 1)"
  have cp: "from_block_ids lax_prims [?bid] 1 1 = Some ?cp" by (simp add: from_block_ids_def Let_def)
  have single: "merkle_root_of lax_prims (merkle_build lax_prims [h]) = h" for h
    by (simp add: merkle_root_nonempty pair_all.simps)
  have tree: "data_tree [d] = Tip d" for d :: "byte list" by (simp add: data_tree_def pair_all.simps)
  have root: "cp_root ?cp = checkpoint_leaf lax_prims ?bid" by (simp add: from_block_ids_def Let_def single)
  have "anchored_verify lax_prims sample_anchored solo_set = Inr ()"
    using sample_proof_verifies
    by (simp add: anchored_verify_Inr_iff sample_anchored_def Let_def inclusion_verify_def compute_root_def sample_proof_def)
  then show ?thesis
    by (rule anchored_verify_sound [OF _ _ cp, THEN conjunct1, rotated])
      (simp_all add: root sample_anchored_def Let_def path_wf_def collision_free_def checkpoint_preimages_def
        inclusion_preimages_def merkle_preimages_def tree)
qed

section \<open>Licenses and metering\<close>

text \<open>
  C36: The meter admits no more than the cap in a window: over any sequence of requests within one
  window, whether or not the usage file can be written, the number admitted is what the counter
  has grown by, and the counter never passes the cap.
\<close>

theorem meter_within_cap:
  assumes "m_cap m = Some cap" and "m_count m \<le> cap" and "\<forall>(w, now)\<in>set reqs. in_window m now"
    and "record_all reqs (m, disk) = (oks, m', disk')"
  shows "length (filter id oks) = unat (m_count m') - unat (m_count m) \<and> m_count m' \<le> cap
    \<and> length (filter id oks) \<le> unat cap"
  using record_all_within_cap [OF assms] by (auto simp: word_le_nat_alt)

definition demo_meter :: Meter where
  "demo_meter = \<lparr>m_cap = Some 2, m_count = 0, m_window_start = 100, m_path = Some ''u''\<rparr>"

lemma demo_window: "in_window demo_meter 101" "in_window demo_meter 102"
  by (simp_all add: in_window_def demo_meter_def saturating_add_def WINDOW_SECS_def)

theorem meter_within_cap_witness:
  "length (filter id (fst (record_all [(True, 101), (False, 101), (True, 102)] (demo_meter, Map.empty)))) \<le> 2"
proof -
  obtain oks m' disk' where run: "record_all [(True, 101), (False, 101), (True, 102)] (demo_meter, Map.empty) = (oks, m', disk')"
    by (metis prod_cases3)
  have "length (filter id oks) \<le> unat (2 :: u64)"
    using meter_within_cap [OF _ _ _ run, of 2] demo_window by (simp add: demo_meter_def)
  with run show ?thesis by simp
qed

text \<open>
  Restarting does not reset the meter: a meter built from the usage file right after an
  admitted and persisted request is, within the window, the meter that wrote it.
\<close>

theorem meter_survives_restart:
  assumes "m_path m = Some p" and "try_record True now (m, disk) = (True, m', disk')" and "in_window m' now'"
  shows "meter_new disk' (m_cap m) (m_path m) now' = m'"
  using assms by (rule meter_restart)

theorem meter_survives_restart_witness:
  "case try_record True 101 (demo_meter, Map.empty) of
     (ok, m', disk') \<Rightarrow> ok \<and> meter_new disk' (Some 2) (Some ''u'') 102 = m' \<and> m_count m' = 1"
proof -
  obtain m' disk' where run: "try_record True 101 (demo_meter, Map.empty) = (True, m', disk')"
    and m': "m_window_start m' = 100" "m_count m' = 1"
    by (simp add: try_record_def roll_in_window [OF demo_window(1)]) (simp add: demo_meter_def Let_def)
  have "in_window m' 102" using demo_window(2) m' by (simp add: in_window_def demo_meter_def)
  from meter_survives_restart [OF _ run this] run m' show ?thesis by (simp add: demo_meter_def)
qed

section \<open>Frames and the block store\<close>

text \<open>
  C37: A connection delivers what was sent on it: whatever sequence of messages is written as frames,
  the reader at the other end hands over exactly that sequence, as long as every message fits a
  frame and is read back from its own serialisation; and it stops at the end of the stream.
\<close>

theorem frames_deliver:
  assumes "\<forall>m\<in>set ms. fits ser de m"
  shows "reader_loop de (sent_bytes ser ms) = ms"
proof -
  have "read_frame de [] = Inl UnexpectedEof" by (simp add: read_frame_def read_exact_def)
  from reader_loop_sent [OF assms this] show ?thesis by simp
qed

definition demo_text :: "byte list \<Rightarrow> string + byte list" where
  "demo_text m = Inr m"

theorem frames_deliver_witness:
  "reader_loop demo_text (sent_bytes demo_text [[1, 2], [], [3]]) = [[1, 2], [], [3]]"
  by (rule frames_deliver) (simp add: fits_def demo_text_def MAX_FRAME_def)

text \<open>
  The writer has no size limit but the reader has one: a message whose serialisation is
  longer than a frame may be is written without an error and ends the connection, and with it
  everything queued behind it.
\<close>

theorem oversized_frame_ends_connection:
  assumes "\<forall>m\<in>set ms. fits ser de m" and "ser big = Inr bytes"
    and "MAX_FRAME < length bytes" and "length bytes < 2 ^ 32"
  shows "write_frame ser big = Inr (u32_be (len_as_u32 bytes) @ bytes)
    \<and> reader_loop de (sent_bytes ser (ms @ big # later)) = ms"
proof -
  let ?rest = "sent_bytes ser (big # later)"
  have w: "write_frame ser big = Inr (u32_be (len_as_u32 bytes) @ bytes)" using assms(2) by (simp add: write_frame_def)
  then have "read_frame de ?rest = Inl (InvalidData ''frame too large'')"
    using assms(3) unat_len_as_u32 [OF assms(4)]
    by (simp add: sent_bytes_def read_frame_def read_exact_def from_be_bytes_u32_be Let_def)
  from reader_loop_sent [OF assms(1) this] w show ?thesis by (simp add: sent_bytes_def)
qed

theorem oversized_frame_ends_connection_witness:
  "reader_loop (\<lambda>bs. Inr (length bs)) (sent_bytes (\<lambda>n. Inr (replicate n 0)) ([3] @ 40000000 # [5])) = [3]"
  by (rule oversized_frame_ends_connection [where bytes = "replicate 40000000 0", THEN conjunct2])
    (simp_all add: fits_def MAX_FRAME_def)



end
