(* ===== verification/Devnet.thy ===== *)
theory Devnet
  imports Startup
begin

text \<open>
  What \<^verbatim>\<open>slc-node init-devnet\<close> leaves on disk: distinct files for every node, key files that load,
  configurations that name the right keys and addresses.
\<close>

section \<open>Names\<close>

lemma show_nat_digits: "list_all is_digit (show_nat n)"
proof (induction n rule: show_nat.induct)
  case (1 n)
  have "is_digit (char_of (48 + k))" if "k < 10" for k :: nat using that by (simp add: is_digit_def of_char_of)
  with 1 show ?case by (subst show_nat.simps) simp
qed

lemma show_nat_neq_Nil [simp]: "show_nat n \<noteq> []"
  by (subst show_nat.simps) simp

lemma show_nat_inject: "show_nat m = show_nat n \<longleftrightarrow> m = n"
proof
  have digit: "char_of (48 + a) = (char_of (48 + b) :: char) \<longleftrightarrow> a = b" if "a < 10" "b < 10" for a b :: nat
    using that by (simp add: char_of_eq_iff take_bit_eq_mod of_char_of)
  show "show_nat m = show_nat n \<Longrightarrow> m = n"
  proof (induction m arbitrary: n rule: show_nat.induct)
    case (1 m)
    show ?case
    proof (cases "m < 10")
      case True
      with "1.prems" have "show_nat n = [char_of (48 + m)]" by (simp add: show_nat.simps [of m])
      with True show ?thesis using digit by (subst (asm) show_nat.simps) (auto split: if_splits)
    next
      case False
      with "1.prems" have "show_nat n = show_nat (m div 10) @ [char_of (48 + m mod 10)]" by (simp add: show_nat.simps [of m])
      then have "\<not> n < 10" "show_nat (n div 10) = show_nat (m div 10)" "n mod 10 = m mod 10"
        by (subst (asm) show_nat.simps, auto simp: digit split: if_splits)+
      with "1.IH" [OF False] show ?thesis by (metis mod_div_decomp)
    qed
  qed
qed simp


text \<open>File names are told apart by number and suffix.\<close>

lemma node_file_inject:
  assumes "\<not> is_digit (hd s)" and "\<not> is_digit (hd s')" and "s \<noteq> []" and "s' \<noteq> []"
  shows "node_file i s = node_file j s' \<longleftrightarrow> i = j \<and> s = s'"
proof
  have split: "takeWhile is_digit (show_nat k @ u) = show_nat k \<and> dropWhile is_digit (show_nat k @ u) = u"
    if "\<not> is_digit (hd u)" "u \<noteq> []" for k u
    using that show_nat_digits [of k]
    by (cases u) (auto simp: takeWhile_append dropWhile_append3 takeWhile_eq_all_conv list_all_iff)
  assume "node_file i s = node_file j s'"
  then have "show_nat i @ s = show_nat j @ s'" by (simp add: node_file_def)
  with split [of s i] split [of s' j] assms show "i = j \<and> s = s'" by (metis show_nat_inject)
qed simp

lemma suffixes [simp]:
  "\<not> is_digit (hd ''.key'')" "\<not> is_digit (hd ''.blocks'')" "\<not> is_digit (hd ''.config.json'')"
  by (simp_all add: is_digit_def)

lemma path_join_inject [simp]: "path_join dir a = path_join dir b \<longleftrightarrow> a = b"
  by (simp add: path_join_def)

lemma devnet_names [simp]:
  "node_file i ''.key'' = node_file j ''.key'' \<longleftrightarrow> i = j"
  "node_file i ''.config.json'' = node_file j ''.config.json'' \<longleftrightarrow> i = j"
  "node_file i ''.key'' \<noteq> node_file j ''.config.json''" "node_file i ''.blocks'' \<noteq> node_file j ''.config.json''"
  "node_file i ''.blocks'' \<noteq> node_file j ''.key''" "node_file i ''.key'' \<noteq> node_file j ''.blocks''"
  "node_file i s \<noteq> ''genesis.json''" "node_file i ''.config.json'' \<noteq> node_file j ''.key''"
  by (simp_all add: node_file_inject del: list.sel) (simp add: node_file_def)

section \<open>The two loops\<close>

text \<open>What the first loop leaves: the validators in order and one key file for each.\<close>

definition devnet_key :: "prims \<Rightarrow> (nat \<Rightarrow> byte list) \<Rightarrow> nat \<Rightarrow> SigningKey \<times> VerifyingKey" where
  "devnet_key P seeds i = projr (sk_generate P (seeds i))"

lemma devnet_keys_spec:
  assumes "devnet_keys P J seeds dir docker is H = Inr (infos, H')" and "distinct is"
    and "hex_inverse P" and "json_inverse (js_keys J)"
    and "\<forall>i\<in>set is. pair_ok P (devnet_key P seeds i)"
  shows "infos = map (\<lambda>i. \<lparr>vi_pubkey = snd (devnet_key P seeds i), vi_addr = devnet_addr docker i\<rparr>) is
    \<and> (\<forall>i\<in>set is. keystore_load P (js_keys J) (path_join dir (node_file i ''.key'')) H' = Inr (devnet_key P seeds i))
    \<and> (\<forall>p. (\<forall>i\<in>set is. p \<noteq> path_join dir (node_file i ''.key'')) \<longrightarrow> h_files H' p = h_files H p)"
  using assms(1,2,5)
proof (induction "is" arbitrary: H infos)
  case (Cons i "is")
  obtain sk pk H1 infos' where gen: "sk_generate P (seeds i) = Inr (sk, pk)"
    and save: "keystore_save P (js_keys J) (path_join dir (node_file i ''.key'')) (fst (sk, pk)) (snd (sk, pk)) H = Inr H1"
    and rec: "devnet_keys P J seeds dir docker is H1 = Inr (infos', H')"
    and infos: "infos = \<lparr>vi_pubkey = pk, vi_addr = devnet_addr docker i\<rparr> # infos'"
    using Cons.prems(1) by (auto simp: keystore_generate_def split: sum.splits)
  have k: "devnet_key P seeds i = (sk, pk)" by (simp add: devnet_key_def gen)
  from Cons.prems have d: "distinct is" "i \<notin> set is" "\<forall>i\<in>set is. pair_ok P (devnet_key P seeds i)" by auto
  note IH = Cons.IH [OF rec d(1,3)]
  have "keystore_load P (js_keys J) (path_join dir (node_file i ''.key'')) H1 = Inr (sk, pk)"
    by (rule node_keys.fetch_store [OF _ save]) (use assms(3,4) Cons.prems(3) k in auto)
  moreover have "h_files H' (path_join dir (node_file i ''.key'')) = h_files H1 (path_join dir (node_file i ''.key''))"
    by (rule IH [THEN conjunct2, THEN conjunct2, rule_format]) (use d(2) in auto)
  ultimately have "keystore_load P (js_keys J) (path_join dir (node_file i ''.key'')) H' = Inr (sk, pk)"
    by (metis node_keys.fetch_local)
  with IH k infos node_keys.store_frame [OF save] show ?case by simp
qed simp

lemma devnet_configs_spec:
  assumes "devnet_configs J g dir docker is H = Inr H'" and "distinct is"
  shows "(\<forall>i\<in>set is. \<exists>s. js_config_value J (devnet_config g dir docker i) = Some s
        \<and> h_files H' (path_join dir (node_file i ''.config.json'')) = Some s)
    \<and> (\<forall>p. (\<forall>i\<in>set is. p \<noteq> path_join dir (node_file i ''.config.json'')) \<longrightarrow> h_files H' p = h_files H p)"
  using assms
proof (induction "is" arbitrary: H)
  case (Cons i "is")
  obtain s H1 where s: "js_config_value J (devnet_config g dir docker i) = Some s"
    and w: "fs_write (path_join dir (node_file i ''.config.json'')) s H = Some H1"
    and rec: "devnet_configs J g dir docker is H1 = Inr H'"
    using Cons.prems(1) by (auto split: option.splits)
  from Cons.prems have d: "distinct is" "i \<notin> set is" by auto
  note IH = Cons.IH [OF rec d(1)] and f = fs_write_SomeD [OF w]
  have "h_files H' (path_join dir (node_file i ''.config.json'')) = h_files H1 (path_join dir (node_file i ''.config.json''))"
    by (rule IH [THEN conjunct2, rule_format]) (use d(2) in auto)
  with s IH f show ?case by simp
qed simp

definition config_value_inverse :: "json \<Rightarrow> bool" where
  "config_value_inverse J \<longleftrightarrow> (\<forall>c s. js_config_value J c = Some s \<longrightarrow> js_config_from J s = Some c)"

section \<open>Addresses\<close>

definition devnet_genesis :: "prims \<Rightarrow> (nat \<Rightarrow> byte list) \<Rightarrow> nat \<Rightarrow> GenesisConfig" where
  "devnet_genesis P seeds n =
     \<lparr>gc_chain_id = ''smartledger-devnet'',
      gc_validators = map (\<lambda>i. \<lparr>vi_pubkey = snd (devnet_key P seeds i), vi_addr = devnet_addr False i\<rparr>) [0..<n]\<rparr>"

lemma devnet_config_simps [simp]:
  "nc_genesis (devnet_config g dir docker i) = g" "nc_anchor_interval (devnet_config g dir docker i) = 0"
  "nc_license_file (devnet_config g dir docker i) = None"
  "nc_block_store_path (devnet_config g dir False i) = path_join dir (node_file i ''.blocks'')"
  by (simp_all add: devnet_config_def)

lemma devnet_genesis_simps [simp]:
  "gc_chain_id (devnet_genesis P seeds n) = ''smartledger-devnet''" "gc_validators (devnet_genesis P seeds n) = [] \<longleftrightarrow> n = 0"
  by (simp_all add: devnet_genesis_def)

lemma devnet_addresses:
  assumes "i < n" and "inj_on (\<lambda>j. snd (devnet_key P seeds j)) {..<n}"
    and "cfg = devnet_config (devnet_genesis P seeds n) dir False i"
  shows "listen_address cfg (snd (devnet_key P seeds i)) = Some (devnet_addr False i)"
    and "peer_list cfg (snd (devnet_key P seeds i)) = map (devnet_addr False) (filter (\<lambda>j. j \<noteq> i) [0..<n])"
proof -
  let ?info = "\<lambda>j. \<lparr>vi_pubkey = snd (devnet_key P seeds j), vi_addr = devnet_addr False j\<rparr>"
  have same: "snd (devnet_key P seeds j) = snd (devnet_key P seeds i) \<longleftrightarrow> j = i" if "j < n" for j
    using assms(1,2) that by (auto dest: inj_onD)
  have "find (\<lambda>v. vi_pubkey v = snd (devnet_key P seeds i)) (map ?info [0..<n]) = Some (?info i)"
    using same assms(1) by (auto simp: find_Some_iff intro!: exI [of _ i])
  then show "listen_address cfg (snd (devnet_key P seeds i)) = Some (devnet_addr False i)"
    by (simp add: listen_address_def devnet_config_def devnet_genesis_def assms(3))
  have "filter (\<lambda>j. snd (devnet_key P seeds j) \<noteq> snd (devnet_key P seeds i)) [0..<n] = filter (\<lambda>j. j \<noteq> i) [0..<n]"
    using same by (intro filter_cong) auto
  then show "peer_list cfg (snd (devnet_key P seeds i)) = map (devnet_addr False) (filter (\<lambda>j. j \<noteq> i) [0..<n])"
    by (simp add: peer_list_def devnet_config_def devnet_genesis_def peer_addrs_def filter_map comp_def assms(3))
qed

text \<open>The files of node \<open>i\<close> after the whole command.\<close>

lemma init_devnet_files:
  assumes "init_devnet P J seeds dir n False M = Inr M'" and "i < n"
    and "hex_inverse P" and "json_inverse (js_keys J)" and "\<forall>j<n. pair_ok P (devnet_key P seeds j)"
    and "cfg = devnet_config (devnet_genesis P seeds n) dir False i"
  shows "\<exists>s. js_config_value J cfg = Some s \<and> read_file (path_join dir (node_file i ''.config.json'')) M' = Some s"
    and "keystore_load P (js_keys J) (nc_key_path cfg) (mc_host M') = Inr (devnet_key P seeds i)"
    and "read_file (nc_block_store_path cfg) M' = read_file (nc_block_store_path cfg) M"
    and "mc_bind M' = mc_bind M"
proof -
  obtain infos H s H1 H2 where keys: "devnet_keys P J seeds dir False [0..<n] (mc_host M) = Inr (infos, H)"
    and w: "fs_write (path_join dir ''genesis.json'') s H = Some H1"
    and confs: "devnet_configs J \<lparr>gc_chain_id = ''smartledger-devnet'', gc_validators = infos\<rparr> dir False [0..<n] H1 = Inr H2"
    and M': "M' = M\<lparr>mc_host := H2\<rparr>"
    using assms(1) by (auto simp: init_devnet_def Let_def split: if_splits sum.splits option.splits)
  have pairs: "\<forall>j\<in>set [0..<n]. pair_ok P (devnet_key P seeds j)" using assms(5) by simp
  note ks = devnet_keys_spec [OF keys distinct_upt assms(3,4) pairs]
  from confs ks have "devnet_configs J (devnet_genesis P seeds n) dir False [0..<n] H1 = Inr H2"
    by (simp add: devnet_genesis_def)
  note cs = devnet_configs_spec [OF this distinct_upt] and f = fs_write_SomeD(1) [OF w]
  show "\<exists>s. js_config_value J cfg = Some s \<and> read_file (path_join dir (node_file i ''.config.json'')) M' = Some s"
    using cs [THEN conjunct1, rule_format, of i] assms(2,6) by (simp add: M' read_file_def)
  have frame: "h_files H2 (path_join dir (node_file i x)) = h_files H (path_join dir (node_file i x))"
    if "x = ''.key'' \<or> x = ''.blocks''" for x
    using cs [THEN conjunct2, rule_format, of "path_join dir (node_file i x)"] f that by auto
  show "keystore_load P (js_keys J) (nc_key_path cfg) (mc_host M') = Inr (devnet_key P seeds i)"
    using ks assms(2,6) frame [of "''.key''"] node_keys.fetch_local [of H2 _ H P "js_keys J"]
    by (simp add: M' devnet_config_def)
  show "read_file (nc_block_store_path cfg) M' = read_file (nc_block_store_path cfg) M"
    using ks frame [of "''.blocks''"] by (simp add: devnet_config_def read_file_def M' assms(6))
  show "mc_bind M' = mc_bind M" by (simp add: M')
qed

end
