(* ===== verification/Cli.thy ===== *)
theory Cli
  imports Startup
begin

text \<open>
  The client program \<^verbatim>\<open>slc\<close> (\<^verbatim>\<open>crates/node/src/bin/slc.rs\<close>) and the rest of the client
  helpers (\<^verbatim>\<open>crates/node/src/client.rs\<close>). A command takes its arguments and the files, and gives
  the lines it prints with the files it leaves, or an error. The texts of errors of the operating
  system and of \<^verbatim>\<open>serde_json\<close> are not kept; the messages of the program are. JSON, the clock,
  random bytes and the round trip to a node are arguments.
\<close>

section \<open>Helpers\<close>

datatype CliError =
    Message string
  | IoFailed
  | JsonFailed
  | CallFailed string
  | KeyError KeystoreError
  | LicenseFailed LicenseError
  | LicenseInvalid LicenseError
  | ShowUsage
  | CliPanic

type_synonym 'a cli = "CliError + 'a"

type_synonym outcome = "(string list \<times> host) cli"

definition and_then :: "'e + 'a \<Rightarrow> ('a \<Rightarrow> 'e + 'b) \<Rightarrow> 'e + 'b" where
  "and_then r f = (case r of Inl e \<Rightarrow> Inl e | Inr x \<Rightarrow> f x)"

definition ok_or :: "'a option \<Rightarrow> CliError \<Rightarrow> 'a cli" where
  "ok_or v e = (case v of Some x \<Rightarrow> Inr x | None \<Rightarrow> Inl e)"

definition map_err :: "('e \<Rightarrow> CliError) \<Rightarrow> 'e + 'a \<Rightarrow> 'a cli" where
  "map_err f r = (case r of Inl e \<Rightarrow> Inl (f e) | Inr x \<Rightarrow> Inr x)"

definition arg :: "string list \<Rightarrow> nat \<Rightarrow> string \<Rightarrow> string cli" where
  "arg a i msg = (if i < length a then Inr (a ! i) else Inl (Message msg))"

lemma and_then_Inr [simp]: "and_then (Inr x) f = f x"
  by (simp add: and_then_def)

lemma and_then_Inl [simp]: "and_then (Inl e) f = Inl e"
  by (simp add: and_then_def)

lemma and_then_eq_Inr [simp]: "and_then r f = Inr y \<longleftrightarrow> (\<exists>x. r = Inr x \<and> f x = Inr y)"
  by (cases r) auto

lemma ok_or_eq_Inr [simp]: "ok_or v e = Inr x \<longleftrightarrow> v = Some x"
  by (cases v) (auto simp: ok_or_def)

lemma map_err_eq_Inr [simp]: "map_err f r = Inr x \<longleftrightarrow> r = Inr x"
  by (cases r) (auto simp: map_err_def)

lemma arg_eq_Inr: "arg a i msg = Inr x \<longleftrightarrow> i < length a \<and> x = a ! i"
  by (auto simp: arg_def)

record client_json =
  cj_keys :: key_json
  cj_change_to :: "SignedValidatorChange \<Rightarrow> string option"
  cj_change_from :: "string \<Rightarrow> SignedValidatorChange option"
  cj_proof_to :: "NotarizationProof \<Rightarrow> string option"
  cj_proof_from :: "string \<Rightarrow> NotarizationProof option"
  cj_anchored_to :: "AnchoredProof \<Rightarrow> string option"
  cj_anchored_from :: "string \<Rightarrow> AnchoredProof option"
  cj_genesis_from :: "string \<Rightarrow> GenesisConfig option"
  cj_license_to :: "SignedLicense \<Rightarrow> string option"
  cj_license_from :: "string \<Rightarrow> SignedLicense option"
  cj_license_bytes :: "License \<Rightarrow> byte list"

text \<open>\<open>ce_debug\<close> is the \<^verbatim>\<open>{:?}\<close> form of a string.\<close>

record cli_env =
  ce_now :: u64
  ce_seed :: "byte list"
  ce_call :: "string \<Rightarrow> RpcRequest \<Rightarrow> string + RpcResponse"
  ce_debug :: "string \<Rightarrow> string"

definition read_text :: "string \<Rightarrow> host \<Rightarrow> string cli" where
  "read_text path H = ok_or (h_files H path) IoFailed"

definition write_text :: "string \<Rightarrow> string \<Rightarrow> host \<Rightarrow> host cli" where
  "write_text path content H = ok_or (fs_write path content H) IoFailed"

definition show_u64 :: "u64 \<Rightarrow> string" where
  "show_u64 n = show_nat (unat n)"

definition show_id :: "prims \<Rightarrow> VerifyingKey \<Rightarrow> string" where
  "show_id P pk = hash_to_hex P (vk_id P pk)"

text \<open>The marks after VALID and before an approver, in UTF-8.\<close>

definition heavy_check :: string where
  "heavy_check = [CHR 0xE2, CHR 0x9C, CHR 0x94]"

definition check_mark :: string where
  "check_mark = [CHR 0xE2, CHR 0x9C, CHR 0x93]"

section \<open>More client helpers\<close>

definition hash_file :: "prims \<Rightarrow> string \<Rightarrow> host \<Rightarrow> Hash option" where
  "hash_file P path H = map_option (\<lambda>content. digest P (ascii content)) (h_files H path)"

definition client_node_info ::
  "(RpcRequest \<Rightarrow> string + RpcResponse) \<Rightarrow> string + (string \<times> VerifyingKey \<times> u64 \<times> Hash)" where
  "client_node_info call =
     (case call RqNodeInfo of
        Inl e \<Rightarrow> Inl e
      | Inr (RsNodeInfo chain_id pubkey height tip) \<Rightarrow> Inr (chain_id, pubkey, height, tip)
      | Inr (RsError e) \<Rightarrow> Inl e
      | Inr _ \<Rightarrow> Inl ''unexpected response to node-info'')"

definition client_submit_governance ::
  "(RpcRequest \<Rightarrow> string + RpcResponse) \<Rightarrow> SignedValidatorChange \<Rightarrow> string + bool" where
  "client_submit_governance call g =
     (case call (RqSubmitGovernance g) of
        Inl e \<Rightarrow> Inl e
      | Inr (Submitted accepted) \<Rightarrow> Inr accepted
      | Inr (RsError e) \<Rightarrow> Inl e
      | Inr _ \<Rightarrow> Inl ''unexpected response to submit-governance'')"

definition client_add_peer :: "(RpcRequest \<Rightarrow> string + RpcResponse) \<Rightarrow> string \<Rightarrow> string + bool" where
  "client_add_peer call addr =
     (case call (RqAddPeer addr) of
        Inl e \<Rightarrow> Inl e
      | Inr (Submitted accepted) \<Rightarrow> Inr accepted
      | Inr (RsError e) \<Rightarrow> Inl e
      | Inr _ \<Rightarrow> Inl ''unexpected response to add-peer'')"

section \<open>Keys and hashes\<close>

definition slc_keygen :: "prims \<Rightarrow> client_json \<Rightarrow> cli_env \<Rightarrow> string list \<Rightarrow> host \<Rightarrow> outcome" where
  "slc_keygen P J E a H =
     and_then (arg a 0 ''keygen <keystore.json>'') (\<lambda>path.
     and_then (map_err KeyError (keystore_generate P (cj_keys J) (ce_seed E) path H)) (\<lambda>((sk, pk), H').
     Inr ([''wrote keystore : '' @ path, ''identity (id)  : '' @ show_id P pk], H')))"

definition slc_pubkey :: "prims \<Rightarrow> client_json \<Rightarrow> string list \<Rightarrow> host \<Rightarrow> outcome" where
  "slc_pubkey P J a H =
     and_then (arg a 0 ''pubkey <keystore.json>'') (\<lambda>path.
     and_then (map_err KeyError (keystore_load P (cj_keys J) path H)) (\<lambda>(sk, pk).
     Inr ([vk_to_hex P pk], H)))"

definition slc_hash :: "prims \<Rightarrow> string list \<Rightarrow> host \<Rightarrow> outcome" where
  "slc_hash P a H =
     and_then (arg a 0 ''hash <file>'') (\<lambda>path.
     and_then (ok_or (hash_file P path H) IoFailed) (\<lambda>h.
     Inr ([hash_to_hex P h], H)))"

section \<open>Governance\<close>

definition read_signed :: "client_json \<Rightarrow> string \<Rightarrow> host \<Rightarrow> SignedValidatorChange cli" where
  "read_signed J path H =
     and_then (read_text path H) (\<lambda>json. ok_or (cj_change_from J json) JsonFailed)"

definition write_signed :: "client_json \<Rightarrow> string \<Rightarrow> SignedValidatorChange \<Rightarrow> host \<Rightarrow> host cli" where
  "write_signed J path g H =
     and_then (ok_or (cj_change_to J g) JsonFailed) (\<lambda>json. write_text path json H)"

record propose_args =
  pa_adds :: "VerifyingKey list"
  pa_removes :: "VerifyingKey list"
  pa_activation :: "u64 option"
  pa_out :: "string option"

fun propose_loop :: "prims \<Rightarrow> string list \<Rightarrow> propose_args \<Rightarrow> propose_args cli" where
  "propose_loop P [] acc = Inr acc"
| "propose_loop P (x # rest) acc =
     (if x = ''--add'' then
        (case rest of
           [] \<Rightarrow> Inl (Message ''--add needs a public key'')
         | hex # rest' \<Rightarrow>
             (case vk_from_hex P hex of
                Inl _ \<Rightarrow> Inl (Message ''invalid --add public key'')
              | Inr k \<Rightarrow> propose_loop P rest' (acc\<lparr>pa_adds := pa_adds acc @ [k]\<rparr>)))
      else if x = ''--remove'' then
        (case rest of
           [] \<Rightarrow> Inl (Message ''--remove needs a public key'')
         | hex # rest' \<Rightarrow>
             (case vk_from_hex P hex of
                Inl _ \<Rightarrow> Inl (Message ''invalid --remove public key'')
              | Inr k \<Rightarrow> propose_loop P rest' (acc\<lparr>pa_removes := pa_removes acc @ [k]\<rparr>)))
      else if x = ''--activation'' then
        (case rest of
           [] \<Rightarrow> Inl (Message ''--activation needs a height'')
         | n # rest' \<Rightarrow>
             (case parse_u64 n of
                None \<Rightarrow> Inl (Message ''bad height'')
              | Some h \<Rightarrow> propose_loop P rest' (acc\<lparr>pa_activation := Some h\<rparr>)))
      else if x = ''--out'' then
        (case rest of
           [] \<Rightarrow> Inl (Message ''--out needs a path'')
         | path # rest' \<Rightarrow> propose_loop P rest' (acc\<lparr>pa_out := Some path\<rparr>))
      else Inl (Message (''unknown flag '' @ x)))"

definition gov_propose :: "prims \<Rightarrow> client_json \<Rightarrow> string list \<Rightarrow> host \<Rightarrow> outcome" where
  "gov_propose P J a H =
     and_then (propose_loop P a \<lparr>pa_adds = [], pa_removes = [], pa_activation = None, pa_out = None\<rparr>) (\<lambda>p.
     and_then (ok_or (pa_activation p) (Message ''--activation <height> is required'')) (\<lambda>activation_height.
     if pa_adds p = [] \<and> pa_removes p = [] then Inl (Message ''propose at least one --add or --remove'')
     else
       (let change = \<lparr>vc_adds = pa_adds p, vc_removes = pa_removes p, vc_activation_height = activation_height\<rparr>;
            signed = signed_change_new change
        in case pa_out p of
             Some path \<Rightarrow>
               and_then (write_signed J path signed H) (\<lambda>H'.
               Inr ([''wrote change: '' @ path @ '' (activation height '' @ show_u64 activation_height @ '')'',
                     ''each validator now runs: slc gov approve '' @ path @ '' <their-keystore>''], H'))
           | None \<Rightarrow> and_then (ok_or (cj_change_to J signed) CliPanic) (\<lambda>json. Inr ([json], H)))))"

definition gov_approve :: "prims \<Rightarrow> client_json \<Rightarrow> string list \<Rightarrow> host \<Rightarrow> outcome" where
  "gov_approve P J a H =
     and_then (arg a 0 ''approve <change.json> <keystore.json>'') (\<lambda>change_path.
     and_then (arg a 1 ''missing <keystore.json>'') (\<lambda>ks.
     and_then (read_signed J change_path H) (\<lambda>signed.
     and_then (map_err KeyError (keystore_load P (cj_keys J) ks H)) (\<lambda>(sk, pk).
     and_then (ok_or (approve_change P signed sk pk) CliPanic) (\<lambda>signed'.
     and_then (write_signed J change_path signed' H) (\<lambda>H'.
     Inr ([''approved by '' @ show_id P pk @ '' ('' @ show_nat (length (svc_approvals signed')) @ '' approval(s) now)''], H')))))))"

definition gov_submit :: "client_json \<Rightarrow> cli_env \<Rightarrow> string list \<Rightarrow> host \<Rightarrow> outcome" where
  "gov_submit J E a H =
     and_then (arg a 0 ''submit <change.json> <node_rpc>'') (\<lambda>change_path.
     and_then (arg a 1 ''missing <node_rpc>'') (\<lambda>node.
     and_then (read_signed J change_path H) (\<lambda>signed.
     and_then (map_err CallFailed (client_submit_governance (ce_call E node) signed)) (\<lambda>accepted.
     if accepted then
       Inr ([''submitted '' @ show_nat (length (svc_approvals signed)) @ '' approval(s) to '' @ node,
             ''(the change lands in a block once a quorum has approved it)''], H)
     else Inl (Message ''node did not accept the submission'')))))"

definition gov_show :: "prims \<Rightarrow> client_json \<Rightarrow> string list \<Rightarrow> host \<Rightarrow> outcome" where
  "gov_show P J a H =
     and_then (arg a 0 ''show <change.json>'') (\<lambda>path.
     and_then (read_signed J path H) (\<lambda>signed.
     Inr ([''activation height: '' @ show_u64 (vc_activation_height (svc_change signed)),
           ''adds   : '' @ show_nat (length (vc_adds (svc_change signed)))]
          @ map (\<lambda>k. ''  + '' @ show_id P k) (vc_adds (svc_change signed))
          @ [''removes: '' @ show_nat (length (vc_removes (svc_change signed)))]
          @ map (\<lambda>k. ''  - '' @ show_id P k) (vc_removes (svc_change signed))
          @ [''approvals: '' @ show_nat (length (svc_approvals signed))]
          @ map (\<lambda>ap. ''  '' @ check_mark @ '' '' @ show_id P (vs_validator ap)) (svc_approvals signed), H)))"

definition slc_gov :: "prims \<Rightarrow> client_json \<Rightarrow> cli_env \<Rightarrow> string list \<Rightarrow> host \<Rightarrow> outcome" where
  "slc_gov P J E a H =
     (case a of
        [] \<Rightarrow> Inl (Message ''gov <propose|approve|submit|show> ...'')
      | x # rest \<Rightarrow>
          if x = ''propose'' then gov_propose P J rest H
          else if x = ''approve'' then gov_approve P J rest H
          else if x = ''submit'' then gov_submit J E rest H
          else if x = ''show'' then gov_show P J rest H
          else Inl (Message ''gov <propose|approve|submit|show> ...''))"

section \<open>Notarizing and verifying\<close>

definition slc_notarize :: "prims \<Rightarrow> client_json \<Rightarrow> cli_env \<Rightarrow> string list \<Rightarrow> host \<Rightarrow> outcome" where
  "slc_notarize P J E a H =
     and_then (arg a 0 ''notarize <file> <keystore.json> <node_rpc>'') (\<lambda>file.
     and_then (arg a 1 ''missing <keystore.json>'') (\<lambda>ks.
     and_then (arg a 2 ''missing <node_rpc>'') (\<lambda>node.
     and_then (ok_or (hash_file P file H) IoFailed) (\<lambda>doc_hash.
     and_then (map_err KeyError (keystore_load P (cj_keys J) ks H)) (\<lambda>(sk, pk).
     and_then (map_err CallFailed (client_notarize P (ce_call E node) sk pk doc_hash)) (\<lambda>accepted.
     if \<not> accepted then Inl (Message ''node rejected the attestation'')
     else Inr ([''submitted for notarization'', ''document hash : '' @ hash_to_hex P doc_hash,
                ''fetch proof   : slc get-proof '' @ hash_to_hex P doc_hash @ '' '' @ node], H)))))))"

text \<open>Writing a JSON text to the optional third argument or to standard output.\<close>

definition deliver :: "string list \<Rightarrow> string \<Rightarrow> string \<Rightarrow> host \<Rightarrow> outcome" where
  "deliver a label json H =
     (if 2 < length a then and_then (write_text (a ! 2) json H) (\<lambda>H'. Inr ([label @ a ! 2], H'))
      else Inr ([json], H))"

definition slc_get_proof :: "prims \<Rightarrow> client_json \<Rightarrow> cli_env \<Rightarrow> string list \<Rightarrow> host \<Rightarrow> outcome" where
  "slc_get_proof P J E a H =
     and_then (arg a 0 ''get-proof <hash> <node_rpc> [out.json]'') (\<lambda>hash_hex.
     and_then (arg a 1 ''missing <node_rpc>'') (\<lambda>node.
     and_then (map_err (\<lambda>_. Message ''invalid hash hex'') (hash_from_hex P hash_hex)) (\<lambda>doc_hash.
     and_then (map_err CallFailed (client_get_proof (ce_call E node) doc_hash)) (\<lambda>found.
     case found of
       None \<Rightarrow> Inl (Message ''not notarized yet (no proof available)'')
     | Some pf \<Rightarrow> and_then (ok_or (cj_proof_to J pf) JsonFailed) (\<lambda>json. deliver a ''wrote proof: '' json H)))))"

definition slc_get_anchored_proof :: "prims \<Rightarrow> client_json \<Rightarrow> cli_env \<Rightarrow> string list \<Rightarrow> host \<Rightarrow> outcome" where
  "slc_get_anchored_proof P J E a H =
     and_then (arg a 0 ''get-anchored-proof <hash> <node_rpc> [out.json]'') (\<lambda>hash_hex.
     and_then (arg a 1 ''missing <node_rpc>'') (\<lambda>node.
     and_then (map_err (\<lambda>_. Message ''invalid hash hex'') (hash_from_hex P hash_hex)) (\<lambda>doc_hash.
     and_then (map_err CallFailed (client_get_anchored_proof (ce_call E node) doc_hash)) (\<lambda>found.
     case found of
       None \<Rightarrow> Inl (Message ''not anchored yet (notarized but no checkpoint published)'')
     | Some ap \<Rightarrow>
         and_then (ok_or (cj_anchored_to J ap) JsonFailed) (\<lambda>json. deliver a ''wrote anchored proof: '' json H)))))"

text \<open>The em dash of the refusals, in UTF-8.\<close>

definition em_dash :: string where
  "em_dash = [CHR 0xE2, CHR 0x80, CHR 0x94]"

definition slc_verify :: "prims \<Rightarrow> client_json \<Rightarrow> string list \<Rightarrow> host \<Rightarrow> outcome" where
  "slc_verify P J a H =
     and_then (arg a 0 ''verify <proof.json> <genesis.json>'') (\<lambda>proof_path.
     and_then (arg a 1 ''missing <genesis.json>'') (\<lambda>genesis_path.
     and_then (read_text proof_path H) (\<lambda>proof_json.
     and_then (ok_or (cj_proof_from J proof_json) JsonFailed) (\<lambda>pf.
     and_then (read_text genesis_path H) (\<lambda>genesis_json.
     and_then (ok_or (cj_genesis_from J genesis_json) JsonFailed) (\<lambda>genesis.
     and_then (ok_or (verify_proof P pf genesis) CliPanic) (\<lambda>valid.
     if valid then
       Inr ([''VALID '' @ heavy_check, ''  document : '' @ hash_to_hex P (proof_hash pf),
             ''  height   : '' @ show_u64 (bh_height (np_header pf)),
             ''  timestamp: '' @ show_u64 (proof_timestamp pf)], H)
     else Inl (Message (''INVALID '' @ em_dash @ '' proof did not verify against this genesis'')))))))))"

definition slc_verify_anchored :: "prims \<Rightarrow> client_json \<Rightarrow> string list \<Rightarrow> host \<Rightarrow> outcome" where
  "slc_verify_anchored P J a H =
     and_then (arg a 0 ''verify-anchored <proof.json> <genesis.json>'') (\<lambda>proof_path.
     and_then (arg a 1 ''missing <genesis.json>'') (\<lambda>genesis_path.
     and_then (read_text proof_path H) (\<lambda>proof_json.
     and_then (ok_or (cj_anchored_from J proof_json) JsonFailed) (\<lambda>ap.
     and_then (read_text genesis_path H) (\<lambda>genesis_json.
     and_then (ok_or (cj_genesis_from J genesis_json) JsonFailed) (\<lambda>genesis.
     and_then (ok_or (verify_anchored_proof P ap genesis) CliPanic) (\<lambda>valid.
     if valid then
       Inr ([''VALID '' @ heavy_check @ '' (notarized + anchored)'',
             ''  document      : '' @ hash_to_hex P (proof_hash (ap_notarization ap)),
             ''  height        : '' @ show_u64 (bh_height (np_header (ap_notarization ap))),
             ''  checkpoint    : '' @ hash_to_hex P (ar_checkpoint_root (ap_record ap)),
             ''  anchor backend: '' @ rc_backend (ar_receipt (ap_record ap)),
             ''  anchor ref    : '' @ rc_reference (ar_receipt (ap_record ap))], H)
     else Inl (Message (''INVALID '' @ em_dash @ '' anchored proof did not verify'')))))))))"

section \<open>Asking a node\<close>

definition slc_status :: "prims \<Rightarrow> cli_env \<Rightarrow> string list \<Rightarrow> host \<Rightarrow> outcome" where
  "slc_status P E a H =
     and_then (arg a 0 ''status <node_rpc>'') (\<lambda>node.
     and_then (map_err CallFailed (client_status (ce_call E node))) (\<lambda>(height, tip).
     Inr ([''height: '' @ show_u64 height, ''tip   : '' @ hash_to_hex P tip], H)))"

definition slc_node_info :: "prims \<Rightarrow> cli_env \<Rightarrow> string list \<Rightarrow> host \<Rightarrow> outcome" where
  "slc_node_info P E a H =
     and_then (arg a 0 ''node-info <node_rpc>'') (\<lambda>node.
     and_then (map_err CallFailed (client_node_info (ce_call E node))) (\<lambda>(chain_id, pubkey, height, tip).
     Inr ([''chain_id : '' @ chain_id, ''identity : '' @ show_id P pubkey, ''pubkey   : '' @ vk_to_hex P pubkey,
           ''height   : '' @ show_u64 height, ''tip      : '' @ hash_to_hex P tip], H)))"

definition slc_add_peer :: "cli_env \<Rightarrow> string list \<Rightarrow> host \<Rightarrow> outcome" where
  "slc_add_peer E a H =
     and_then (arg a 0 ''add-peer <peer_addr> <node_rpc>'') (\<lambda>addr.
     and_then (arg a 1 ''missing <node_rpc>'') (\<lambda>node.
     and_then (map_err CallFailed (client_add_peer (ce_call E node) addr)) (\<lambda>accepted.
     if accepted then Inr ([''added peer '' @ addr @ '' to '' @ node], H)
     else Inl (Message ''node did not accept the peer''))))"

definition slc_usage :: "cli_env \<Rightarrow> string list \<Rightarrow> host \<Rightarrow> outcome" where
  "slc_usage E a H =
     and_then (arg a 0 ''usage <node_rpc>'') (\<lambda>node.
     and_then (map_err CallFailed (client_usage (ce_call E node))) (\<lambda>(used, cap, window_start, window_secs).
     let days = window_secs div 86400;
         head = ''notarizations this window ('' @ show_u64 days @ ''d): '' @ show_u64 used
     in Inr ([case cap of Some c \<Rightarrow> head @ '' / '' @ show_u64 c | None \<Rightarrow> head @ '' (unmetered)''], H)))"

section \<open>Licenses\<close>

definition flag :: "string list \<Rightarrow> string \<Rightarrow> string option" where
  "flag a name =
     (case position_of (\<lambda>x. x = name) a of
        None \<Rightarrow> None
      | Some i \<Rightarrow> if i + 1 < length a then Some (a ! (i + 1)) else None)"

definition has :: "string list \<Rightarrow> string \<Rightarrow> bool" where
  "has a name = list_ex (\<lambda>x. x = name) a"

definition lic_keygen :: "prims \<Rightarrow> client_json \<Rightarrow> cli_env \<Rightarrow> string list \<Rightarrow> host \<Rightarrow> outcome" where
  "lic_keygen P J E a H =
     and_then (arg a 0 ''license keygen <issuer.key>'') (\<lambda>path.
     and_then (map_err KeyError (issuer_file_generate P (cj_keys J) (ce_seed E) path H)) (\<lambda>(issuer, H').
     Inr ([''wrote issuer keystore: '' @ path, ''issuer public key    : '' @ slh_vk_to_hex P (iss_pk issuer)], H')))"

definition lic_issuer_pubkey :: "prims \<Rightarrow> client_json \<Rightarrow> string list \<Rightarrow> host \<Rightarrow> outcome" where
  "lic_issuer_pubkey P J a H =
     and_then (arg a 0 ''license issuer-pubkey <issuer.key>'') (\<lambda>path.
     and_then (map_err KeyError (issuer_file_load P (cj_keys J) path H)) (\<lambda>issuer.
     Inr ([slh_vk_to_hex P (iss_pk issuer)], H)))"

definition requested_license :: "string list \<Rightarrow> u64 \<Rightarrow> string \<Rightarrow> u64 \<Rightarrow> License" where
  "requested_license a now who expires_days =
     \<lparr>licensee = who,
      license_id = or_default (flag a ''--id'') (''LIC-'' @ show_u64 now),
      product = ''smartledger-chain'',
      tier = or_default (flag a ''--tier'') ''standard'',
      entitlements =
        \<lparr>max_nodes = Option.bind (flag a ''--max-nodes'') parse_u32,
         max_notarizations_per_month = Option.bind (flag a ''--max-notarizations'') parse_u64,
         anchoring = has a ''--anchoring'',
         features = (case flag a ''--features'' of
            Some s \<Rightarrow> map trim (split_on (CHR '','') s) | None \<Rightarrow> [])\<rparr>,
      lic_chain_id = flag a ''--chain'',
      issued_at = now,
      expires_at = now + expires_days * 24 * 3600\<rparr>"

definition lic_issue :: "prims \<Rightarrow> client_json \<Rightarrow> cli_env \<Rightarrow> string list \<Rightarrow> host \<Rightarrow> outcome" where
  "lic_issue P J E a H =
     and_then (ok_or (flag a ''--issuer'') (Message ''--issuer <issuer.key> is required'')) (\<lambda>issuer_path.
     and_then (ok_or (flag a ''--licensee'') (Message ''--licensee <name> is required'')) (\<lambda>who.
     and_then (ok_or (flag a ''--expires-days'') (Message ''--expires-days <n> is required'')) (\<lambda>days.
     and_then (ok_or (parse_u64 days) (Message ''bad --expires-days'')) (\<lambda>expires_days.
     and_then (map_err KeyError (issuer_file_load P (cj_keys J) issuer_path H)) (\<lambda>issuer.
     and_then (map_err LicenseFailed
        (issue P (cj_license_bytes J) issuer (requested_license a (ce_now E) who expires_days))) (\<lambda>signed.
     and_then (ok_or (cj_license_to J signed) JsonFailed) (\<lambda>json.
     case flag a ''--out'' of
       Some out \<Rightarrow> and_then (write_text out json H) (\<lambda>H'. Inr ([''wrote license: '' @ out], H'))
     | None \<Rightarrow> Inr ([json], H))))))))"

definition lic_verify :: "prims \<Rightarrow> client_json \<Rightarrow> cli_env \<Rightarrow> string list \<Rightarrow> host \<Rightarrow> outcome" where
  "lic_verify P J E a H =
     and_then (arg a 0 ''license verify <license.json> --issuer <pubkey-hex>'') (\<lambda>path.
     and_then (ok_or (flag a ''--issuer'') (Message ''--issuer <pubkey-hex> is required'')) (\<lambda>issuer_hex.
     and_then (map_err (\<lambda>_. Message ''invalid issuer pubkey hex'') (slh_vk_from_hex P issuer_hex)) (\<lambda>issuer.
     and_then (read_text path H) (\<lambda>json.
     and_then (ok_or (cj_license_from J json) JsonFailed) (\<lambda>signed.
     and_then (map_err LicenseInvalid
        (license_verify P (cj_license_bytes J) signed issuer (ce_now E) (flag a ''--chain''))) (\<lambda>_.
     Inr ([''VALID '' @ heavy_check, ''  licensee : '' @ licensee (sl_license signed),
           ''  tier     : '' @ tier (sl_license signed),
           ''  expires  : '' @ show_u64 (expires_at (sl_license signed)) @ '' (unix)''], H)))))))"

definition debug_option :: "('a \<Rightarrow> string) \<Rightarrow> 'a option \<Rightarrow> string" where
  "debug_option f v = (case v of None \<Rightarrow> ''None'' | Some x \<Rightarrow> ''Some('' @ f x @ '')'')"

fun debug_items :: "string list \<Rightarrow> string" where
  "debug_items [] = []"
| "debug_items [x] = x"
| "debug_items (x # y # ys) = x @ '', '' @ debug_items (y # ys)"

definition lic_show :: "prims \<Rightarrow> client_json \<Rightarrow> cli_env \<Rightarrow> string list \<Rightarrow> host \<Rightarrow> outcome" where
  "lic_show P J E a H =
     and_then (arg a 0 ''license show <license.json>'') (\<lambda>path.
     and_then (read_text path H) (\<lambda>json.
     and_then (ok_or (cj_license_from J json) JsonFailed) (\<lambda>signed.
     let l = sl_license signed; ent = entitlements l in
     Inr ([''licensee   : '' @ licensee l, ''license_id : '' @ license_id l, ''product    : '' @ product l,
           ''tier       : '' @ tier l, ''chain_id   : '' @ debug_option (ce_debug E) (lic_chain_id l),
           ''issued_at  : '' @ show_u64 (issued_at l), ''expires_at : '' @ show_u64 (expires_at l),
           ''entitlements:'',
           ''  max_nodes             : '' @ debug_option (\<lambda>n. show_nat (unat n)) (max_nodes ent),
           ''  max_notarizations/mo  : '' @ debug_option show_u64 (max_notarizations_per_month ent),
           ''  anchoring             : '' @ (if anchoring ent then ''true'' else ''false''),
           ''  features              : ['' @ debug_items (map (ce_debug E) (features ent)) @ '']'',
           ''issuer     : '' @ slh_vk_to_hex P (sl_issuer signed)], H))))"

definition slc_license :: "prims \<Rightarrow> client_json \<Rightarrow> cli_env \<Rightarrow> string list \<Rightarrow> host \<Rightarrow> outcome" where
  "slc_license P J E a H =
     (case a of
        [] \<Rightarrow> Inl (Message ''license <keygen|issuer-pubkey|issue|verify|show> ...'')
      | x # rest \<Rightarrow>
          if x = ''keygen'' then lic_keygen P J E rest H
          else if x = ''issuer-pubkey'' then lic_issuer_pubkey P J rest H
          else if x = ''issue'' then lic_issue P J E rest H
          else if x = ''verify'' then lic_verify P J E rest H
          else if x = ''show'' then lic_show P J E rest H
          else Inl (Message ''license <keygen|issuer-pubkey|issue|verify|show> ...''))"

section \<open>The program\<close>

text \<open>\<open>args\<close> is the command line after the name of the program.\<close>

definition slc_main :: "prims \<Rightarrow> client_json \<Rightarrow> cli_env \<Rightarrow> string list \<Rightarrow> host \<Rightarrow> outcome" where
  "slc_main P J E args H =
     (case args of
        [] \<Rightarrow> Inl ShowUsage
      | cmd # rest \<Rightarrow>
          if cmd = ''keygen'' then slc_keygen P J E rest H
          else if cmd = ''pubkey'' then slc_pubkey P J rest H
          else if cmd = ''hash'' then slc_hash P rest H
          else if cmd = ''gov'' then slc_gov P J E rest H
          else if cmd = ''license'' then slc_license P J E rest H
          else if cmd = ''notarize'' then slc_notarize P J E rest H
          else if cmd = ''get-proof'' then slc_get_proof P J E rest H
          else if cmd = ''get-anchored-proof'' then slc_get_anchored_proof P J E rest H
          else if cmd = ''verify'' then slc_verify P J rest H
          else if cmd = ''verify-anchored'' then slc_verify_anchored P J rest H
          else if cmd = ''status'' then slc_status P E rest H
          else if cmd = ''node-info'' then slc_node_info P E rest H
          else if cmd = ''usage'' then slc_usage E rest H
          else if cmd = ''add-peer'' then slc_add_peer E rest H
          else Inl ShowUsage)"

end
