(* ===== verification/Shell_Scenario.thy ===== *)
theory Shell_Scenario
  imports Devnet Cli Gossip Timers Scenario
begin

text \<open>
  Concrete machines on which the properties of the programs around the node are applied: a
  container that boots for the first time, a licensed node, a local network of two nodes, and the
  files of a client. Keys have the widths of the real ones; the JSON printers are defined on the
  objects that occur.
\<close>

section \<open>Keys and key files\<close>

definition wide_prims :: prims where
  "wide_prims = lite_prims\<lparr>
     mldsa_try_keygen := (\<lambda>seed. Some (replicate PUBKEY_LEN (hd seed), replicate SECKEY_LEN (hd seed))),
     mldsa_try_sign := (\<lambda>sk m c. Some (take 1 sk @ c @ m)),
     mldsa_verify := (\<lambda>pk m s c. s = take 1 pk @ c @ m),
     slh_try_sign := (\<lambda>sk m c. Some (take 1 sk @ c @ m)),
     slh_verify := (\<lambda>pk m s c. s = take 1 pk @ c @ m)\<rparr>"

definition wide_sk :: "byte \<Rightarrow> SigningKey" where
  "wide_sk b = SigningKey (replicate SECKEY_LEN b)"

definition wide_pk :: "byte \<Rightarrow> VerifyingKey" where
  "wide_pk b = VerifyingKey (replicate PUBKEY_LEN b)"

definition wide_file :: "byte \<Rightarrow> KeyFile" where
  "wide_file b = \<lparr>kf_secret_key = hex_encode wide_prims (sk_bytes (wide_sk b)), kf_public_key = vk_to_hex wide_prims (wide_pk b)\<rparr>"

text \<open>JSON for the key files of two seeds.\<close>

definition wide_keys :: key_json where
  "wide_keys = \<lparr>kj_to_string = (\<lambda>kf. if kf = wide_file 1 then Some ''one'' else if kf = wide_file 2 then Some ''two'' else None),
     kj_from_str = (\<lambda>s. if s = ''one'' then Some (wide_file 1) else if s = ''two'' then Some (wide_file 2) else None)\<rparr>"

lemma wide_prims_simps [simp]:
  "hex_encode wide_prims = hex_encode toy_prims" "hex_decode wide_prims = hex_decode toy_prims"
  "mldsa_sk_ok wide_prims k" "mldsa_pk_ok wide_prims k" "slh_sk_ok wide_prims k" "slh_pk_ok wide_prims k"
  by (simp_all add: wide_prims_def lite_prims_def toy_prims_def)

lemma wide_hex [simp]: "hex_inverse wide_prims"
  using toy_hex_inverse by (simp add: hex_inverse_def)

lemma wide_json [simp]: "json_inverse wide_keys"
  by (auto simp: json_inverse_def wide_keys_def)

lemma wide_generate [simp]: "sk_generate wide_prims [b] = Inr (wide_sk b, wide_pk b)"
  by (simp add: sk_generate_def wide_prims_def wide_sk_def wide_pk_def)

lemma wide_pair [simp]: "pair_ok wide_prims (wide_sk b, wide_pk b)"
  by (simp add: pair_ok_def wide_sk_def wide_pk_def)

lemma wide_pk_inject [simp]: "wide_pk a = wide_pk b \<longleftrightarrow> a = b"
  by (simp add: wide_pk_def replicate_eq_replicate PUBKEY_LEN_def)

lemma wide_file_inject: "wide_file a = wide_file b \<longleftrightarrow> a = b"
proof
  assume "wide_file a = wide_file b"
  then have "hex_encode wide_prims (vk_bytes (wide_pk a)) = hex_encode wide_prims (vk_bytes (wide_pk b))"
    by (simp add: wide_file_def vk_to_hex_def)
  then have "vk_bytes (wide_pk a) = vk_bytes (wide_pk b)"
    using toy_hex_inverse by (metis hex_inverse_def option.inject wide_prims_simps(1))
  then show "a = b" by (simp add: wide_pk_def PUBKEY_LEN_def replicate_eq_replicate)
qed simp

lemma wide_save [simp]:
  "keystore_save wide_prims wide_keys path (wide_sk 1) (wide_pk 1) H =
     (case fs_write path ''one'' H of None \<Rightarrow> Inl KsWrite | Some H' \<Rightarrow> Inr H')"
  "keystore_save wide_prims wide_keys path (wide_sk 2) (wide_pk 2) H =
     (case fs_write path ''two'' H of None \<Rightarrow> Inl KsWrite | Some H' \<Rightarrow> Inr H')"
proof -
  have f: "\<lparr>kf_secret_key = hex_encode wide_prims (sk_bytes (wide_sk b)), kf_public_key = vk_to_hex wide_prims (wide_pk b)\<rparr> = wide_file b" for b
    by (simp add: wide_file_def)
  show "keystore_save wide_prims wide_keys path (wide_sk 1) (wide_pk 1) H =
     (case fs_write path ''one'' H of None \<Rightarrow> Inl KsWrite | Some H' \<Rightarrow> Inr H')"
    by (simp only: keystore_save_def f) (simp add: wide_keys_def)
  show "keystore_save wide_prims wide_keys path (wide_sk 2) (wide_pk 2) H =
     (case fs_write path ''two'' H of None \<Rightarrow> Inl KsWrite | Some H' \<Rightarrow> Inr H')"
    by (simp only: keystore_save_def f) (simp add: wide_keys_def wide_file_inject)
qed

lemma wide_load:
  "h_files H path = Some ''one'' \<Longrightarrow> keystore_load wide_prims wide_keys path H = Inr (wide_sk 1, wide_pk 1)"
proof -
  assume a: "h_files H path = Some ''one''"
  have "keystore_load wide_prims wide_keys path \<lparr>h_files = [path \<mapsto> ''one''], h_writable = \<lambda>_. True\<rparr> = Inr (wide_sk 1, wide_pk 1)"
    by (rule node_keys.fetch_store [where H = "\<lparr>h_files = (\<lambda>_. None), h_writable = \<lambda>_. True\<rparr>"])
      (simp_all add: fs_write_def)
  moreover have "h_files H path = h_files \<lparr>h_files = [path \<mapsto> ''one''], h_writable = \<lambda>_. True\<rparr> path" using a by simp
  ultimately show ?thesis by (metis node_keys.fetch_local)
qed

lemma wide_correct [simp]: "mldsa_correct wide_prims (wide_sk b) (wide_pk b)"
  by (simp add: mldsa_correct_def wide_prims_def wide_sk_def wide_pk_def SECKEY_LEN_def PUBKEY_LEN_def)

definition wide_issuer :: LicenseIssuer where
  "wide_issuer = \<lparr>iss_sk = SlhSigningKey (replicate SLH_SECKEY_LEN 3), iss_pk = SlhVerifyingKey (replicate SLH_PUBKEY_LEN 3)\<rparr>"

lemma wide_issuer_ok [simp]:
  "issuer_ok wide_prims wide_issuer" "slh_correct wide_prims (iss_sk wide_issuer) (iss_pk wide_issuer)"
  by (simp_all add: issuer_ok_def wide_issuer_def slh_correct_def wide_prims_def SLH_SECKEY_LEN_def SLH_PUBKEY_LEN_def)
    (simp_all add: wide_issuer_def lite_prims_def toy_prims_def)

section \<open>A container\<close>

definition box_genesis :: GenesisConfig where
  "box_genesis = \<lparr>gc_chain_id = ''smartledger'', gc_validators = [\<lparr>vi_pubkey = wide_pk 1, vi_addr = ''127.0.0.1:9000''\<rparr>]\<rparr>"

definition box :: machine where
  "box = \<lparr>mc_host = \<lparr>h_files = (\<lambda>_. None), h_writable = (\<lambda>_. True)\<rparr>, mc_env = (\<lambda>_. None), mc_now = 1000,
     mc_now_meter = 1000, mc_mkdir = (\<lambda>_. True), mc_bind = (\<lambda>_. True), mc_http = (\<lambda>_. Inl ''offline''), mc_seed = [1]\<rparr>"

definition box_config :: NodeConfig where
  "box_config = config_from_env box_genesis (fix_paths box)"

definition box_json :: json where
  "box_json = \<lparr>js_keys = wide_keys,
     js_config_to = (\<lambda>c. if c = box_config then Some ''cfg'' else None),
     js_config_from = (\<lambda>s. if s = ''cfg'' then Some box_config else None),
     js_config_value = (\<lambda>c. None), js_genesis_value = (\<lambda>c. None),
     js_genesis_from = (\<lambda>_. Some box_genesis), js_block_from = (\<lambda>_. None), js_usage_from = (\<lambda>_. None),
     js_license_from = (\<lambda>_. Inl WrongIssuer), js_license_bytes = (\<lambda>_. [])\<rparr>"

lemma box_config_simps [simp]:
  "nc_genesis box_config = box_genesis" "nc_key_path box_config = ''/data/node.key''"
  "nc_license_file box_config = None" "nc_listen box_config = Some ''0.0.0.0:9000''"
  "nc_anchor_interval box_config = 0" "nc_peers box_config = None" "nc_block_store_path box_config = ''/data/blocks''"
  by (simp_all add: box_config_def config_from_env_def fix_paths_def resolve_paths_def set_var_def env_var_def
      box_def or_default_def data_dir_def or_else_some_def)

lemma box_runs:
  assumes "read_file path M = Some ''cfg''" and "read_file ''/data/node.key'' M = Some ''one''"
    and "read_file ''/data/blocks'' M = None" and "mc_bind M ''0.0.0.0:9000''"
  shows "\<exists>r. run wide_prims box_json feature path M = Started r"
proof -
  have "keystore_load wide_prims (js_keys box_json) (nc_key_path box_config) (mc_host M) = Inr (wide_sk 1, wide_pk 1)"
    using assms(2) by (simp add: box_json_def wide_load read_file_def)
  moreover have "js_config_from box_json ''cfg'' = Some box_config" by (simp add: box_json_def)
  ultimately show ?thesis
    using run_plain [OF assms(1), of box_json box_config wide_prims "wide_sk 1" "wide_pk 1" None "''0.0.0.0:9000''" feature] assms
    by (auto simp: listen_address_def box_genesis_def)
qed

lemma box_boots: "\<exists>r M'. bootstrap wide_prims box_json False box = (Started r, M')"
proof -
  let ?e = "[''SLC_KEYSTORE'' \<mapsto> ''/data/node.key'', ''SLC_STORE'' \<mapsto> ''/data/blocks'', ''SLC_GENESIS_FILE'' \<mapsto> ''/data/genesis.json'']"
  have fx: "fix_paths box = box\<lparr>mc_env := ?e\<rparr>" and data: "data_dir box = ''/data''"
    and paths: "resolve_paths box = (''/data/node.key'', ''/data/blocks'', ''/data/genesis.json'')"
    by (simp_all add: fix_paths_def resolve_paths_def data_dir_def set_var_def env_var_def or_default_def box_def)
  have cfg: "config_from_env box_genesis (box\<lparr>mc_env := ?e, mc_host := H\<rparr>) = box_config" for H
    by (simp add: box_config_def fx config_from_env_def env_var_def)
  define H where "H = \<lparr>h_files = [''/data/node.key'' \<mapsto> ''one'',
    ''/data/genesis.json'' \<mapsto> single_genesis wide_prims ''smartledger'' (wide_pk 1) ''127.0.0.1:9000'',
    ''/data/config.json'' \<mapsto> ''cfg''], h_writable = (\<lambda>_. True)\<rparr>"
  obtain r where "run wide_prims box_json False ''/data/config.json'' (box\<lparr>mc_env := ?e, mc_host := H\<rparr>) = Started r"
    using box_runs [of "''/data/config.json''" "box\<lparr>mc_env := ?e, mc_host := H\<rparr>"] by (auto simp: read_file_def H_def box_def)
  then have "bootstrap wide_prims box_json False box = (Started r, box\<lparr>mc_env := ?e, mc_host := H\<rparr>)"
    using fx cfg
    by (simp add: bootstrap_def paths data fix_paths_def)
       (simp add: bootstrap_key_def fs_exists_def box_def keystore_generate_def box_json_def fs_write_def provided_genesis_def env_var_def
         default_genesis_def written_def write_file_def or_default_def write_config_def read_file_def H_def)
  then show ?thesis by blast
qed

section \<open>A licensed node\<close>

definition box_license :: License where
  "box_license = \<lparr>licensee = ''acme'', license_id = ''LIC-1'', product = ''smartledger-chain'', tier = ''standard'',
     entitlements = \<lparr>max_nodes = None, max_notarizations_per_month = Some 50, anchoring = False, features = []\<rparr>,
     lic_chain_id = Some ''smartledger'', issued_at = 900, expires_at = 2000\<rparr>"

definition box_signed :: SignedLicense where
  "box_signed = \<lparr>sl_license = box_license, sl_issuer = iss_pk wide_issuer,
     sl_signature = SlhSignature (3 # ctx_LICENSE)\<rparr>"

definition licensed_config :: NodeConfig where
  "licensed_config = box_config\<lparr>nc_license_file := Some ''/lic'',
     nc_license_issuer_pubkey := Some (slh_vk_to_hex wide_prims (iss_pk wide_issuer))\<rparr>"

definition licensed_json :: json where
  "licensed_json = box_json\<lparr>js_config_from := (\<lambda>s. if s = ''cfg'' then Some licensed_config else None),
     js_license_from := (\<lambda>s. if s = ''signed'' then Inr box_signed else Inl WrongIssuer)\<rparr>"

definition licensed_box :: machine where
  "licensed_box = box\<lparr>mc_host := \<lparr>h_files = [''/cfg'' \<mapsto> ''cfg'', ''/data/node.key'' \<mapsto> ''one'', ''/lic'' \<mapsto> ''signed''],
     h_writable = (\<lambda>_. True)\<rparr>\<rparr>"

lemma licensed_gate:
  "license_gate wide_prims licensed_json licensed_config licensed_box = Inr (Some (entitlements box_license))"
proof -
  have "slh_vk_from_hex wide_prims (slh_vk_to_hex wide_prims (iss_pk wide_issuer)) = Inr (iss_pk wide_issuer)"
    using wide_issuer_ok(1) by (intro slh_vk_hex.dec_enc) (simp add: issuer_ok_def)
  moreover have "slh_vk_verify wide_prims (iss_pk wide_issuer) [] (SlhSignature (3 # ctx_LICENSE)) ctx_LICENSE"
    by (simp add: slh_vk_verify_def wide_prims_def wide_issuer_def SLH_PUBKEY_LEN_def)
  ultimately show ?thesis
    by (simp add: license_gate_def license_check_def licensed_config_def licensed_json_def licensed_box_def box_json_def
        read_file_def license_verify_def box_signed_def box_license_def box_genesis_def box_def)
qed

lemma licensed_runs: "\<exists>r. run wide_prims licensed_json False ''/cfg'' licensed_box = Started r
    \<and> m_cap (fst (rn_meter r)) = Some 50"
proof -
  have "read_file ''/cfg'' licensed_box = Some ''cfg''" "js_config_from licensed_json ''cfg'' = Some licensed_config"
    by (simp_all add: read_file_def licensed_box_def licensed_json_def)
  moreover have "keystore_load wide_prims (js_keys licensed_json) (nc_key_path licensed_config) (mc_host licensed_box) = Inr (wide_sk 1, wide_pk 1)"
    by (simp add: wide_load licensed_json_def box_json_def licensed_config_def licensed_box_def)
  ultimately show ?thesis
    using run_plain [OF _ _ _ licensed_gate, of "''/cfg''" "''cfg''" "wide_sk 1" "wide_pk 1" "''0.0.0.0:9000''" False]
    by (auto simp: listen_address_def licensed_config_def licensed_box_def box_def read_file_def box_genesis_def box_license_def)
qed

section \<open>A network of two nodes\<close>

definition net_seeds :: "nat \<Rightarrow> byte list" where
  "net_seeds i = [if i = 0 then 1 else 2]"

definition net_config :: "nat \<Rightarrow> NodeConfig" where
  "net_config = devnet_config (devnet_genesis wide_prims net_seeds 2) ''d'' False"

definition net_json :: json where
  "net_json = box_json\<lparr>
     js_config_value := (\<lambda>c. if c = net_config 0 then Some ''cfg0'' else if c = net_config 1 then Some ''cfg1'' else None),
     js_config_from := (\<lambda>s. if s = ''cfg0'' then Some (net_config 0) else if s = ''cfg1'' then Some (net_config 1) else None),
     js_genesis_value := (\<lambda>_. Some ''genesis'')\<rparr>"

lemma net_key [simp]: "devnet_key wide_prims net_seeds i = (wide_sk (if i = 0 then 1 else 2), wide_pk (if i = 0 then 1 else 2))"
  by (simp add: devnet_key_def net_seeds_def)

lemma net_inits: "\<exists>M'. init_devnet wide_prims net_json net_seeds ''d'' 2 False box = Inr M'"
proof -
  have infos: "\<lparr>gc_chain_id = ''smartledger-devnet'', gc_validators =
      [\<lparr>vi_pubkey = wide_pk 1, vi_addr = devnet_addr False 0\<rparr>, \<lparr>vi_pubkey = wide_pk 2, vi_addr = devnet_addr False 1\<rparr>]\<rparr>
      = devnet_genesis wide_prims net_seeds 2"
    by (simp add: devnet_genesis_def numeral_2_eq_2)
  have two: "[0..<2] = [0, 1]" by (simp add: upt_rec)
  have "devnet_config (devnet_genesis wide_prims net_seeds 2) ''d'' False i = net_config i" for i
    by (simp add: net_config_def)
  moreover have "js_config_value net_json (net_config 0) = Some ''cfg0''" "\<exists>s. js_config_value net_json (net_config 1) = Some s"
    by (simp_all add: net_json_def)
  ultimately show ?thesis
    by (auto simp: init_devnet_def box_def two keystore_generate_def net_seeds_def net_json_def box_json_def fs_write_def infos [simplified])
qed

end
