(* ===== verification/Cli_Facts.thy ===== *)
theory Cli_Facts
  imports Cli
begin

text \<open>
  Lemmas on the client program: sequences of commands, the change file that is approved in turn,
  licenses, and proofs checked against the genesis. The JSON forms are taken to read back what they
  print.
\<close>

section \<open>Governance from the command line\<close>

fun session :: "prims \<Rightarrow> client_json \<Rightarrow> cli_env \<Rightarrow> string list list \<Rightarrow> host \<Rightarrow> outcome" where
  "session P J E [] H = Inr ([], H)"
| "session P J E (c # cs) H =
     and_then (slc_main P J E c H) (\<lambda>(out, H1).
     and_then (session P J E cs H1) (\<lambda>(out', H2). Inr (out @ out', H2)))"

definition change_inverse :: "client_json \<Rightarrow> bool" where
  "change_inverse J \<longleftrightarrow> (\<forall>g s. cj_change_to J g = Some s \<longrightarrow> cj_change_from J s = Some g)"

lemma write_text_InrD:
  assumes "write_text path content H = Inr H'"
  shows "h_files H' = (h_files H)(path \<mapsto> content)"
  using assms fs_write_SomeD(1) by (auto simp: write_text_def)

lemma read_write_signed:
  assumes "write_signed J path g H = Inr H'" and "change_inverse J"
  shows "read_signed J path H' = Inr g" and "other \<noteq> path \<Longrightarrow> h_files H' other = h_files H other"
  using assms by (auto simp: write_signed_def read_signed_def read_text_def change_inverse_def dest!: write_text_InrD)

lemma loads_kept:
  assumes "write_signed J path g H = Inr H'" and "change_inverse J" and "path \<notin> set kss"
    and "list_all2 (\<lambda>ks k. keystore_load P K ks H = Inr k) kss keys"
  shows "list_all2 (\<lambda>ks k. keystore_load P K ks H' = Inr k) kss keys"
proof -
  have "keystore_load P K x H' = keystore_load P K x H" if "x \<in> set kss" for x
    by (rule node_keys.fetch_local, rule read_write_signed(2) [OF assms(1,2)]) (use that assms(3) in auto)
  with assms(4) show ?thesis by (auto simp: list_all2_conv_all_nth)
qed

lemma gov_approve_InrD:
  assumes "gov_approve P J [path, ks] H = Inr (out, H')" and "read_signed J path H = Inr g"
    and "keystore_load P (cj_keys J) ks H = Inr k"
  obtains g' where "approve_change P g (fst k) (snd k) = Some g'" "write_signed J path g' H = Inr H'"
  using assms by (cases k) (auto simp: gov_approve_def arg_eq_Inr)

lemma approve_session:
  assumes "session P J E (map (\<lambda>ks. [''gov'', ''approve'', path, ks]) kss) H = Inr (out, H')"
    and "read_signed J path H = Inr g" and "change_inverse J" and "path \<notin> set kss"
    and "list_all2 (\<lambda>ks k. keystore_load P (cj_keys J) ks H = Inr k) kss keys"
    and "\<forall>(sk, pk)\<in>set keys. mldsa_correct P sk pk"
  shows "\<exists>g' sigs. read_signed J path H' = Inr g' \<and> svc_change g' = svc_change g
    \<and> svc_approvals g' = svc_approvals g @ sigs \<and> map vs_validator sigs = map snd keys
    \<and> (\<forall>a\<in>set sigs. vk_verify P (vs_validator a) (change_signing_bytes (svc_change g)) (vs_signature a) ctx_GOVERNANCE)"
  using assms
proof (induction kss arbitrary: H g keys out)
  case (Cons ks kss)
  obtain k keys' where keys: "keys = k # keys'" and load: "keystore_load P (cj_keys J) ks H = Inr k"
    and loads: "list_all2 (\<lambda>ks k. keystore_load P (cj_keys J) ks H = Inr k) kss keys'"
    using Cons.prems(5) by (auto simp: list_all2_Cons1)
  obtain out1 H1 out2 where step: "gov_approve P J [path, ks] H = Inr (out1, H1)"
    and rest: "session P J E (map (\<lambda>ks. [''gov'', ''approve'', path, ks]) kss) H1 = Inr (out2, H')"
    using Cons.prems(1) by (auto simp: slc_main_def slc_gov_def)
  obtain g1 where ap: "approve_change P g (fst k) (snd k) = Some g1" and w: "write_signed J path g1 H = Inr H1"
    using step Cons.prems(2) load by (rule gov_approve_InrD)
  have "mldsa_correct P (fst k) (snd k)" using Cons.prems(6) keys by (cases k) simp
  from approve_change_authorizes [OF this ap] obtain s where
    g1: "svc_change g1 = svc_change g" "svc_approvals g1 = svc_approvals g @ [\<lparr>vs_validator = snd k, vs_signature = s\<rparr>]"
      "vk_verify P (snd k) (change_signing_bytes (svc_change g)) s ctx_GOVERNANCE" by blast
  note rw = read_write_signed [OF w Cons.prems(3)]
  have "list_all2 (\<lambda>ks k. keystore_load P (cj_keys J) ks H1 = Inr k) kss keys'"
    by (rule loads_kept [OF w Cons.prems(3) _ loads]) (use Cons.prems(4) in simp)
  from Cons.IH [OF rest rw(1) Cons.prems(3) _ this] Cons.prems(4,6) keys obtain g' sigs where
    "read_signed J path H' = Inr g'" "svc_change g' = svc_change g1" "svc_approvals g' = svc_approvals g1 @ sigs"
    "map vs_validator sigs = map snd keys'"
    "\<forall>a\<in>set sigs. vk_verify P (vs_validator a) (change_signing_bytes (svc_change g1)) (vs_signature a) ctx_GOVERNANCE"
    by auto
  then show ?case using g1 keys
    by (intro exI [of _ g'] exI [of _ "\<lparr>vs_validator = snd k, vs_signature = s\<rparr> # sigs"]) simp
qed simp

lemma authorize_loop_all:
  assumes "\<forall>a\<in>set as. vs_contains current (vs_validator a) \<and> vk_verify P (vs_validator a) msg (vs_signature a) ctx_GOVERNANCE"
    and "distinct (map (vk_id P \<circ> vs_validator) as)" and "vk_id P ` vs_validator ` set as \<inter> seen = {}"
  shows "authorize_loop P current msg seen v as = v + length as"
  using assms
proof (induction as arbitrary: seen v)
  case (Cons a as)
  from Cons.prems have "authorize_loop P current msg (insert (vk_id P (vs_validator a)) seen) (v + 1) as = v + 1 + length as"
    by (intro Cons.IH) (auto simp: image_image)
  with Cons.prems show ?case by auto
qed simp

lemma gov_propose_InrD:
  assumes "gov_propose P J args H = Inr (out, H')"
    and "propose_loop P args \<lparr>pa_adds = [], pa_removes = [], pa_activation = None, pa_out = None\<rparr> = Inr p"
    and "pa_out p = Some path"
  obtains h where "pa_activation p = Some h" "pa_adds p \<noteq> [] \<or> pa_removes p \<noteq> []"
    "write_signed J path (signed_change_new \<lparr>vc_adds = pa_adds p, vc_removes = pa_removes p, vc_activation_height = h\<rparr>) H = Inr H'"
  using assms by (auto simp: gov_propose_def Let_def split: if_splits)

section \<open>Licenses from the command line\<close>

definition license_inverse :: "client_json \<Rightarrow> bool" where
  "license_inverse J \<longleftrightarrow> (\<forall>l s. cj_license_to J l = Some s \<longrightarrow> cj_license_from J s = Some l)"

lemma lic_issue_InrD:
  assumes "lic_issue P J E a H = Inr (out, H')" and "flag a ''--out'' = Some path"
    and "issuer_file_load P (cj_keys J) ip H = Inr issuer" and "flag a ''--issuer'' = Some ip"
  obtains who ds days sl json where "flag a ''--licensee'' = Some who" "flag a ''--expires-days'' = Some ds"
    "parse_u64 ds = Some days" "issue P (cj_license_bytes J) issuer (requested_license a (ce_now E) who days) = Inr sl"
    "cj_license_to J sl = Some json" "h_files H' = (h_files H)(path \<mapsto> json)"
  using assms by (auto simp: lic_issue_def dest!: write_text_InrD)

lemma expiry_no_wrap:
  assumes "unat now + unat days * 86400 < 2 ^ 64"
  shows "unat (now + days * 24 * 3600 :: u64) = unat now + unat days * 86400"
proof -
  have "now + days * 24 * 3600 = of_nat (unat now + unat days * 86400)" by (simp add: mult.assoc)
  then show ?thesis using assms by (simp only: unat_of_nat) simp
qed

section \<open>Proofs from the command line\<close>

definition proof_inverse :: "client_json \<Rightarrow> bool" where
  "proof_inverse J \<longleftrightarrow> (\<forall>pf s. cj_proof_to J pf = Some s \<longrightarrow> cj_proof_from J s = Some pf)"

lemma replay_registry_idle:
  "\<forall>b\<in>set bs. blk_governance b = [] \<Longrightarrow> replay_registry keys bs = registry_new keys"
  unfolding replay_registry_def by (induction bs) auto

lemma idle_chain_set:
  assumes "foldl (chain_step P) (genesis_state keys) bs = (reg, tip, h)" and "\<forall>b\<in>set bs. blk_governance b = []"
  shows "active_set reg h = validator_set_bft keys"
proof -
  have "reg = registry_new keys"
    using replay_registry_chain [of P keys bs] replay_registry_idle [OF assms(2)] assms(1) by simp
  then show ?thesis by (simp add: active_set_def active_keys_def registry_new_def)
qed

text \<open>A proof found in a chain without changes of the roster verifies against the genesis.\<close>

lemma find_proof_genesis:
  assumes "chain_valid P (genesis_state (validator_keys g)) bs" and "\<forall>b\<in>set bs. blk_governance b = []"
    and "find_proof P bs doc = Some pf"
  shows "verify_proof P pf g = Some True" and "proof_hash pf = doc"
proof -
  obtain pre b post k where bs: "bs = pre @ b # post" and k: "k < length (blk_attestations b)"
    and doc: "att_hash (blk_attestations b ! k) = doc" and pf: "proof_from_block P b k = Some pf"
    using assms(3) by (rule find_proof_SomeD)
  obtain reg tip h where st: "foldl (chain_step P) (genesis_state (validator_keys g)) pre = (reg, tip, h)"
    by (metis prod_cases3)
  have "block_accepted P (reg, tip, h) b"
    using chain_valid_nth [OF assms(1), of "length pre"] by (simp add: bs st)
  from proof_from_accepted [OF this k] pf obtain s where s: "active_set reg h = Some s" "proof_verify P pf s = Inr ()"
    "np_attestation pf = blk_attestations b ! k" by auto
  have "validator_set_bft (validator_keys g) = Some s"
    using idle_chain_set [OF st] assms(2) bs s(1) by simp
  with s doc show "verify_proof P pf g = Some True" and "proof_hash pf = doc"
    by (simp_all add: verify_proof_def is_ok_def proof_hash_def)
qed

end
