(* ===== verification/Shell_Props.thy ===== *)
theory Shell_Props
  imports Shell_Scenario Cli_Facts
begin

text \<open>
  Properties of the programs around the node: the timer thread, the broadcast, key files, the
  start-up of a validator, a local network, and the commands of the client.
\<close>

section \<open>Timers and broadcast\<close>

text \<open>
  C39: The timer thread neither loses nor invents timers, fires none early and none late. As long as
  it is not told to stop and the node receives, the timers fired together with those still armed
  are exactly the scheduled ones; none was fired before its deadline; after a turn that began at
  \<open>now\<close> every timer left is due later, and the thread sleeps no longer than to its deadline.
\<close>

theorem timers_fire_when_due:
  assumes "goes_on turns" and "timer_loop tie (turns @ [(now, True, TimedOut)]) [] = (out, h)"
  shows "mset (map snd out) + mset h = mset (armed turns)
    \<and> (\<forall>(at, t)\<in>set out. tm_deadline t \<le> at)
    \<and> (\<forall>t\<in>set h. now < tm_deadline t \<and> now + wait_for tie now h \<le> tm_deadline t)"
proof -
  have "\<forall>(at, live, r)\<in>set (turns @ [(now, True, TimedOut)]). live"
    using assms(1) by (auto simp: goes_on_def list_all_iff)
  from timer_loop_conserves [OF assms(2) this] armed_last [OF assms(1)]
  have "mset (map snd out) + mset h = mset (armed turns)" by simp
  moreover have later: "\<forall>t\<in>set h. now < tm_deadline t" by (rule timer_loop_prompt [OF assms])
  moreover have "\<forall>t\<in>set h. now + wait_for tie now h \<le> tm_deadline t"
    using wait_for_bound [of _ h now tie] later by (fastforce simp: max_def)
  ultimately show ?thesis using timer_loop_never_early [OF assms(2)] by blast
qed

theorem timers_fire_when_due_witness:
  "\<exists>t1 t2. tm_deadline t1 = 5 \<and> tm_deadline t2 = 9
     \<and> timer_loop (\<lambda>_. 0) [(0, True, Received (Schedule t2)), (1, True, Received (Schedule t1)), (6, True, TimedOut)] []
         = ([(6, t1)], [t2])
     \<and> mset [t1] + mset [t2] = mset [t2, t1]"
proof -
  define t1 t2 :: Timer where "t1 = \<lparr>tm_deadline = 5, tm_height = 1, tm_round = 0, tm_kind = ToPropose\<rparr>"
    and "t2 = \<lparr>tm_deadline = 9, tm_height = 1, tm_round = 0, tm_kind = ToPrevote\<rparr>"
  let ?turns = "[(0, True, Received (Schedule t2)), (1, True, Received (Schedule t1))]"
  have run: "timer_loop (\<lambda>_. 0) (?turns @ [(6, True, TimedOut)]) [] = ([(6, t1)], [t2])"
    by (simp add: fire_due.simps heap_peek_def heap_pop_def heap_push_def greatest_def timer_le_def t1_def t2_def)
  have "goes_on ?turns" by (simp add: goes_on_def)
  from timers_fire_when_due [OF this run] run show ?thesis
    by (intro exI [of _ t1] exI [of _ t2]) (simp add: t1_def t2_def)
qed

text \<open>
  C40: A broadcast never fails as a whole and keeps the list of peers. A frame goes to exactly the
  peers that are connected or accept a connection and whose write goes through, it is the encoding
  of the message, and exactly those connections are up afterwards.
\<close>

theorem broadcast_best_effort:
  assumes "peers_ok t"
  shows "\<exists>t' sent. broadcast N ser msg t = Some (t', sent) \<and> peers_ok t' \<and> t_peers t' = t_peers t
    \<and> (\<forall>i<length (t_peers t). \<forall>fr. (t_peers t ! i, fr) \<in> set sent \<longleftrightarrow>
         (t_outbound t ! i \<or> net_connect N (t_peers t ! i)) \<and> net_write N (t_peers t ! i) \<and> write_frame ser msg = Inr fr)
    \<and> (\<forall>i<length (t_peers t). t_outbound t' ! i \<longleftrightarrow> (\<exists>fr. (t_peers t ! i, fr) \<in> set sent))"
proof -
  obtain t' sent where b: "broadcast N ser msg t = Some (t', sent)" "peers_ok t'" "t_peers t' = t_peers t"
    using broadcast_peers_ok [OF assms, of N ser msg] by blast
  have sent: "(t_peers t ! i, fr) \<in> set sent \<longleftrightarrow>
      (t_outbound t ! i \<or> net_connect N (t_peers t ! i)) \<and> net_write N (t_peers t ! i) \<and> write_frame ser msg = Inr fr"
    if "i < length (t_peers t)" for i fr
    using broadcast_sent [OF b(1), of "t_peers t ! i" fr] that assms
    by (auto simp: peers_ok_def nth_eq_iff_index_eq)
  have "t_outbound t' ! i \<longleftrightarrow> (\<exists>fr. (t_peers t ! i, fr) \<in> set sent)" if "i < length (t_peers t)" for i
    using broadcast_up [OF b(1) that] sent [OF that] by simp
  with b sent show ?thesis by blast
qed

theorem broadcast_best_effort_witness:
  "\<exists>t'. broadcast \<lparr>net_connect = (\<lambda>a. a \<noteq> ''b''), net_write = (\<lambda>_. True)\<rparr> (\<lambda>_. Inr [7]) ()
       \<lparr>t_peers = [''a'', ''b''], t_outbound = [False, False]\<rparr> = Some (t', [(''a'', [0, 0, 0, 1, 7])])
     \<and> t_outbound t' = [True, False] \<and> peers_ok t'"
proof -
  let ?N = "\<lparr>net_connect = (\<lambda>a. a \<noteq> ''b''), net_write = (\<lambda>_. True)\<rparr>" and ?t = "\<lparr>t_peers = [''a'', ''b''], t_outbound = [False, False]\<rparr>"
  have ok: "peers_ok ?t" by (simp add: peers_ok_def)
  have frame: "write_frame (\<lambda>_. Inr [7]) () = Inr [0, 0, 0, 1, 7]" by code_simp
  have two: "[0..<2] = [0, Suc 0]" by (simp add: upt_rec)
  have "broadcast ?N (\<lambda>_. Inr [7]) () ?t = Some (?t\<lparr>t_outbound := [True, False]\<rparr>, [(''a'', [0, 0, 0, 1, 7])])"
    by (simp add: broadcast_def send_to_def frame Let_def two numeral_2_eq_2 [symmetric] List.map_filter_def)
  with broadcast_best_effort [OF ok, of ?N "\<lambda>_. Inr [7]" "()"] show ?thesis by auto
qed

section \<open>Key files\<close>

text \<open>
  A key pair that is generated into a file is what loading the file gives, and every other key
  file loads as before. (The parameters: hex and JSON read back what they print, and the generated
  keys are keys the ML-DSA crate takes.)
\<close>

theorem generated_keys_load:
  assumes "keystore_generate P J seed path H = Inr ((sk, pk), H')"
    and "hex_inverse P" and "json_inverse J" and "pair_ok P (sk, pk)"
  shows "keystore_load P J path H' = Inr (sk, pk)
    \<and> (\<forall>other. other \<noteq> path \<longrightarrow> keystore_load P J other H' = keystore_load P J other H)"
proof -
  have save: "keystore_save P J path (fst (sk, pk)) (snd (sk, pk)) H = Inr H'"
    using assms(1) by (auto simp: keystore_generate_def split: sum.splits)
  show ?thesis
    using node_keys.fetch_store [OF _ save] node_keys.fetch_other [OF save] assms(2-4) by blast
qed

theorem generated_keys_load_witness:
  "\<exists>H'. keystore_generate wide_prims wide_keys [1] ''k'' (mc_host box) = Inr ((wide_sk 1, wide_pk 1), H')
     \<and> keystore_load wide_prims wide_keys ''k'' H' = Inr (wide_sk 1, wide_pk 1)"
proof -
  obtain H' where g: "keystore_generate wide_prims wide_keys [1] ''k'' (mc_host box) = Inr ((wide_sk 1, wide_pk 1), H')"
    by (auto simp: keystore_generate_def fs_write_def box_def)
  from generated_keys_load [OF g] g show ?thesis by auto
qed

section \<open>Starting a validator\<close>



text \<open>
  C27: Booting a container is idempotent. If the entry point brings up a node, running it again on
  the machine it left, with other random bytes and whatever the network answers, brings up the same
  node and leaves the same files: the key file is not generated again, the genesis is neither
  fetched again nor overwritten, and the rendered configuration is the same. (The configuration reads back as it
  was printed, and the genesis file is not the place of the configuration.)
\<close>

theorem bootstrap_idempotent:
  assumes "bootstrap P J feature M = (Started r, M')" and "config_inverse J"
    and "snd (snd (resolve_paths M)) \<noteq> data_dir M @ ''/config.json''"
  shows "bootstrap P J feature (reseed seed http M') = (Started r, reseed seed http M')"
proof -
  obtain ks st gf where paths: "resolve_paths M = (ks, st, gf)" by (metis prod_cases3)
  let ?out = "data_dir M @ ''/config.json''"
  obtain pk M1 M2 M3 where mk: "mc_mkdir (fix_paths M) (data_dir M)"
    and key: "bootstrap_key P J ks (fix_paths M) = Inr (pk, M1)" and prov: "provided_genesis feature gf M1 = Inr M2"
    and dflt: "default_genesis P pk gf M2 = Inr M3" and conf: "write_config J ?out M3 = Inr M'"
    and run: "run P J feature ?out M' = Started r"
    by (rule bootstrap_StartedD [OF assms(1) paths])
  obtain gf' s genesis content where c: "js_config_to J (config_from_env genesis M3) = Some content"
    and w: "fs_write ?out content (mc_host M3) = Some (mc_host M')" and M': "M' = M3\<lparr>mc_host := mc_host M'\<rparr>"
    using conf by (rule write_config_InrD)
  have g3: "grows (fix_paths M) M3"
    using bootstrap_key_InrD [OF key] genesis_InrD(1) [OF prov] genesis_InrD(2) [OF dflt] grows_trans by blast
  have "grows M3 M'" using grows_host(1) [OF w] M' by simp
  with g3 have g: "grows (fix_paths M) M'" by (rule grows_trans)
  note env' = fix_paths_env [OF growsD(1) [OF g] paths] and env3 = fix_paths_env [OF growsD(1) [OF g3] paths]
  have ex: "fs_exists ks (mc_host M')" "fs_exists gf (mc_host M')"
    using bootstrap_key_InrD [OF key] genesis_InrD(1) [OF prov] genesis_InrD(2) [OF dflt] \<open>grows M3 M'\<close> growsD(7)
    by blast+
  have "read_file ?out M' = Some content" using fs_write_SomeD [OF w] by (simp add: read_file_def)
  moreover have "js_config_from J content = Some (config_from_env genesis M3)"
    using c assms(2) by (simp add: config_inverse_def)
  ultimately obtain sk' pk' where "keystore_load P (js_keys J) ks (mc_host M') = Inr (sk', pk')"
    using run by (auto elim!: run_keystore simp: config_from_env_def env3 or_default_def)
  with ex have key': "bootstrap_key P J ks (reseed seed http M') = Inr (pk', reseed seed http M')" by (simp add: bootstrap_key_def)
  have "write_config J ?out (reseed seed http M') = Inr (reseed seed http M')"
    by (rule write_config_reseed, rule write_config_again [OF conf]) (use assms(3) env3(5) paths in simp)
  moreover have "mc_mkdir M' (data_dir M)" using mk growsD(2) [OF g] by simp
  ultimately show ?thesis using ex key' run env'(1,2) fix_paths_reseed [OF env'(3), of seed http]
    by (simp add: bootstrap_def run_reseed fix_paths_def provided_genesis_def default_genesis_def)
qed

theorem bootstrap_idempotent_witness:
  "\<exists>r M'. bootstrap wide_prims box_json False box = (Started r, M')
     \<and> bootstrap wide_prims box_json False (reseed [2] (\<lambda>_. Inr ''other'') M') = (Started r, reseed [2] (\<lambda>_. Inr ''other'') M')"
proof -
  obtain r M' where b: "bootstrap wide_prims box_json False box = (Started r, M')" using box_boots by blast
  have "config_inverse box_json" by (simp add: config_inverse_def box_json_def)
  moreover have "snd (snd (resolve_paths box)) \<noteq> data_dir box @ ''/config.json''"
    by (simp add: resolve_paths_def data_dir_def env_var_def or_default_def box_def)
  ultimately show ?thesis using bootstrap_idempotent [OF b] b by blast
qed



end
