(* ===== verification/Client_Props.thy ===== *)
theory Client_Props
  imports Shell_Scenario Cli_Facts
begin

text \<open>
  Properties of the client program over whole sequences of commands: a change of the roster that is
  proposed and approved, a license that is issued and verified, a proof that is fetched and checked.
\<close>

section \<open>Governance\<close>

text \<open>
  C30: The governance ceremony yields an authorized change. After \<^verbatim>\<open>slc gov propose --out\<close> and one
  \<^verbatim>\<open>slc gov approve\<close> for each of the key files of as many distinct current validators as the
  threshold asks for, the file holds the proposed change and the current set authorizes it. (A
  change reads back as it was printed, and no key file is the change file.)
\<close>

theorem governance_ceremony:
  assumes "slc_main P J E (''gov'' # ''propose'' # args) H = Inr (out, H1)"
    and "propose_loop P args \<lparr>pa_adds = [], pa_removes = [], pa_activation = None, pa_out = None\<rparr> = Inr p"
    and "pa_out p = Some path"
    and "session P J E (map (\<lambda>ks. [''gov'', ''approve'', path, ks]) kss) H1 = Inr (out', H2)"
    and "change_inverse J" and "path \<notin> set kss"
    and "list_all2 (\<lambda>ks k. keystore_load P (cj_keys J) ks H = Inr k) kss keys"
    and "\<forall>(sk, pk)\<in>set keys. mldsa_correct P sk pk \<and> vs_contains current pk"
    and "distinct (map (vk_id P \<circ> snd) keys)" and "set_threshold current \<le> length keys"
  shows "\<exists>g. read_signed J path H2 = Inr g \<and> is_authorized P g current
    \<and> vc_adds (svc_change g) = pa_adds p \<and> vc_removes (svc_change g) = pa_removes p
    \<and> pa_activation p = Some (vc_activation_height (svc_change g))"
proof -
  have pr: "gov_propose P J args H = Inr (out, H1)" using assms(1) by (simp add: slc_main_def slc_gov_def)
  obtain h where h: "pa_activation p = Some h" "pa_adds p \<noteq> [] \<or> pa_removes p \<noteq> []"
    and w: "write_signed J path (signed_change_new \<lparr>vc_adds = pa_adds p, vc_removes = pa_removes p, vc_activation_height = h\<rparr>) H = Inr H1"
    using pr assms(2,3) by (rule gov_propose_InrD)
  note rw = read_write_signed [OF w assms(5)]
  from approve_session [OF assms(4) rw(1) assms(5,6) loads_kept [OF w assms(5-7)]] assms(8) obtain g sigs where
    g: "read_signed J path H2 = Inr g" "svc_approvals g = sigs" "map vs_validator sigs = map snd keys"
      "svc_change g = \<lparr>vc_adds = pa_adds p, vc_removes = pa_removes p, vc_activation_height = h\<rparr>"
      "\<forall>a\<in>set sigs. vk_verify P (vs_validator a) (change_signing_bytes (svc_change g)) (vs_signature a) ctx_GOVERNANCE"
    by (fastforce simp: signed_change_new_def)
  have "vs_validator a \<in> snd ` set keys" if "a \<in> set sigs" for a
    using that g(3) by (metis image_eqI list.set_map)
  then have "\<forall>a\<in>set sigs. vs_contains current (vs_validator a)" using assms(8) by fastforce
  moreover have "distinct (map (vk_id P \<circ> vs_validator) sigs)" using assms(9) g(3) by (metis map_map)
  moreover have "length sigs = length keys" using g(3) by (metis length_map)
  ultimately have "is_authorized P g current"
    using authorize_loop_all [of sigs current P _ "{}" 0] g h(2) assms(10)
    by (simp add: is_authorized_def change_is_empty_def)
  then show ?thesis using g h by auto
qed

definition draft :: SignedValidatorChange where
  "draft = signed_change_new \<lparr>vc_adds = [wide_pk 2], vc_removes = [], vc_activation_height = 7\<rparr>"

definition approved :: SignedValidatorChange where
  "approved = the (approve_change wide_prims draft (wide_sk 1) (wide_pk 1))"

definition client_files :: client_json where
  "client_files = \<lparr>cj_keys = wide_keys,
     cj_change_to = (\<lambda>g. if g = draft then Some ''draft'' else if g = approved then Some ''approved'' else None),
     cj_change_from = (\<lambda>s. if s = ''draft'' then Some draft else if s = ''approved'' then Some approved else None),
     cj_proof_to = (\<lambda>_. None), cj_proof_from = (\<lambda>_. None), cj_anchored_to = (\<lambda>_. None), cj_anchored_from = (\<lambda>_. None),
     cj_genesis_from = (\<lambda>_. Some demo_genesis), cj_license_to = (\<lambda>_. None), cj_license_from = (\<lambda>_. None),
     cj_license_bytes = (\<lambda>_. [])\<rparr>"

definition client_env :: cli_env where
  "client_env = \<lparr>ce_now = 1000, ce_seed = [1], ce_call = (\<lambda>_ _. Inl ''offline''), ce_debug = (\<lambda>s. s)\<rparr>"

definition client_host :: host where
  "client_host = \<lparr>h_files = [''k'' \<mapsto> ''one''], h_writable = (\<lambda>_. True)\<rparr>"

definition propose_line :: "string list" where
  "propose_line = [''--add'', vk_to_hex wide_prims (wide_pk 2), ''--activation'', ''7'', ''--out'', ''c'']"

definition proposed_args :: propose_args where
  "proposed_args = \<lparr>pa_adds = [wide_pk 2], pa_removes = [], pa_activation = Some 7, pa_out = Some ''c''\<rparr>"

lemma parse_7: "parse_u64 ''7'' = Some 7"
  by (simp add: parse_u64_def parse_uint_def is_digit_def digits_value_def)

lemma propose_line_parses:
  "propose_loop wide_prims propose_line \<lparr>pa_adds = [], pa_removes = [], pa_activation = None, pa_out = None\<rparr> = Inr proposed_args"
proof -
  have "vk_from_hex wide_prims (vk_to_hex wide_prims (wide_pk 2)) = Inr (wide_pk 2)"
    using wide_pair [of 2] by (intro vk_hex.dec_enc) (simp add: pair_ok_def)
  then show ?thesis by (simp add: propose_line_def proposed_args_def parse_7)
qed

lemma approved_Some: "approve_change wide_prims draft (wide_sk 1) (wide_pk 1) = Some approved" and approved_neq: "approved \<noteq> draft"
proof -
  have "sk_sign wide_prims (wide_sk 1) m c \<noteq> Inl e" for m c e
    by (simp add: sk_sign_def wide_prims_def)
  then show s: "approve_change wide_prims draft (wide_sk 1) (wide_pk 1) = Some approved"
    unfolding approved_def approve_change_def expect_ok_def by (auto split: sum.splits)
  from approve_change_authorizes [OF wide_correct s] show "approved \<noteq> draft"
    by (metis append_self_conv list.distinct(1))
qed

lemma ceremony_runs:
  "slc_main wide_prims client_files client_env (''gov'' # ''propose'' # propose_line) client_host =
     Inr ([''wrote change: c (activation height 7)'', ''each validator now runs: slc gov approve c <their-keystore>''],
       client_host\<lparr>h_files := [''k'' \<mapsto> ''one'', ''c'' \<mapsto> ''draft'']\<rparr>)"
  "\<exists>out H. session wide_prims client_files client_env [[''gov'', ''approve'', ''c'', ''k'']]
     (client_host\<lparr>h_files := [''k'' \<mapsto> ''one'', ''c'' \<mapsto> ''draft'']\<rparr>) = Inr (out, H)"
proof -
  have d: "signed_change_new \<lparr>vc_adds = [wide_pk 2], vc_removes = [], vc_activation_height = 7\<rparr> = draft" by (simp add: draft_def)
  have seven: "show_u64 7 = ''7''" by (simp add: show_u64_def show_nat.simps char_of_def bit_0)
  have w: "write_signed client_files ''c'' draft client_host = Inr (client_host\<lparr>h_files := [''k'' \<mapsto> ''one'', ''c'' \<mapsto> ''draft'']\<rparr>)"
    by (simp add: write_signed_def write_text_def client_files_def client_host_def fs_write_def ok_or_def)
  show "slc_main wide_prims client_files client_env (''gov'' # ''propose'' # propose_line) client_host =
     Inr ([''wrote change: c (activation height 7)'', ''each validator now runs: slc gov approve c <their-keystore>''],
       client_host\<lparr>h_files := [''k'' \<mapsto> ''one'', ''c'' \<mapsto> ''draft'']\<rparr>)"
    by (simp add: slc_main_def slc_gov_def gov_propose_def propose_line_parses) (simp add: proposed_args_def ok_or_def d w seven)
  show "\<exists>out H. session wide_prims client_files client_env [[''gov'', ''approve'', ''c'', ''k'']]
     (client_host\<lparr>h_files := [''k'' \<mapsto> ''one'', ''c'' \<mapsto> ''draft'']\<rparr>) = Inr (out, H)"
    using approved_neq
    by (simp add: slc_main_def slc_gov_def gov_approve_def arg_def read_signed_def read_text_def ok_or_def map_err_def
        client_files_def client_host_def wide_load approved_Some write_signed_def write_text_def fs_write_def)
qed

theorem governance_ceremony_witness:
  "\<exists>H1 H2 out out' g. slc_main wide_prims client_files client_env (''gov'' # ''propose'' # propose_line) client_host = Inr (out, H1)
     \<and> session wide_prims client_files client_env [[''gov'', ''approve'', ''c'', ''k'']] H1 = Inr (out', H2)
     \<and> read_signed client_files ''c'' H2 = Inr g \<and> vc_adds (svc_change g) = [wide_pk 2]
     \<and> is_authorized wide_prims g \<lparr>set_validators = [wide_pk 1], set_threshold = 1\<rparr>"
proof -
  obtain out' H2 where s: "session wide_prims client_files client_env (map (\<lambda>ks. [''gov'', ''approve'', ''c'', ks]) [''k''])
     (client_host\<lparr>h_files := [''k'' \<mapsto> ''one'', ''c'' \<mapsto> ''draft'']\<rparr>) = Inr (out', H2)"
    using ceremony_runs(2) by auto
  have out: "pa_out proposed_args = Some ''c''" by (simp add: proposed_args_def)
  have inv: "change_inverse client_files" by (auto simp: change_inverse_def client_files_def)
  have keys: "list_all2 (\<lambda>ks k. keystore_load wide_prims (cj_keys client_files) ks client_host = Inr k) [''k''] [(wide_sk 1, wide_pk 1)]"
    by (simp add: client_files_def client_host_def wide_load)
  from governance_ceremony [OF ceremony_runs(1) propose_line_parses out s inv _ keys,
      of "\<lparr>set_validators = [wide_pk 1], set_threshold = 1\<rparr>"] s ceremony_runs(1)
  show ?thesis by (auto simp: proposed_args_def vs_contains_def)
qed

section \<open>Licenses\<close>

text \<open>
  C31: A license written by \<^verbatim>\<open>slc license issue\<close> is found valid by \<^verbatim>\<open>slc license verify\<close> with the key
  of the issuer exactly from the time of issue until the given number of days has passed, and for
  the chain it is bound to, if any. (Hex, the license and the key file read back as they were
  written, the issuer's keys belong together, and the expiry is representable.)
\<close>

theorem issued_license_verifies:
  assumes "lic_issue P J E a H = Inr (out, H')"
    and "flag a ''--issuer'' = Some ip" and "issuer_file_load P (cj_keys J) ip H = Inr issuer"
    and "flag a ''--expires-days'' = Some ds" and "parse_u64 ds = Some days" and "flag a ''--out'' = Some path"
    and "hex_inverse P" and "license_inverse J" and "issuer_ok P issuer" and "slh_correct P (iss_sk issuer) (iss_pk issuer)"
    and "unat (ce_now E) + unat days * 86400 < 2 ^ 64"
    and "b \<noteq> []" and "hd b = path" and "flag b ''--issuer'' = Some (slh_vk_to_hex P (iss_pk issuer))"
  shows "(\<exists>out'. lic_verify P J E' b H' = Inr (out', H')) \<longleftrightarrow>
    ce_now E \<le> ce_now E' \<and> unat (ce_now E') < unat (ce_now E) + unat days * 86400
    \<and> (flag a ''--chain'' = None \<or> flag b ''--chain'' = flag a ''--chain'')"
proof -
  obtain who ds' days' sl json where l: "flag a ''--expires-days'' = Some ds'" "parse_u64 ds' = Some days'"
    and sl: "issue P (cj_license_bytes J) issuer (requested_license a (ce_now E) who days') = Inr sl"
    and json: "cj_license_to J sl = Some json" and f: "h_files H' = (h_files H)(path \<mapsto> json)"
    using assms(1,6,3,2) by (rule lic_issue_InrD)
  have days: "days' = days" using l assms(4,5) by simp
  note no_wrap = expiry_no_wrap [OF assms(11)]
  have hex: "slh_vk_from_hex P (slh_vk_to_hex P (iss_pk issuer)) = Inr (iss_pk issuer)"
    using assms(7,9) by (intro slh_vk_hex.dec_enc) (simp add: issuer_ok_def)
  have "cj_license_from J json = Some sl" using json assms(8) by (simp add: license_inverse_def)
  then have "(\<exists>out'. lic_verify P J E' b H' = Inr (out', H')) \<longleftrightarrow>
      license_verify P (cj_license_bytes J) sl (iss_pk issuer) (ce_now E') (flag b ''--chain'') = Inr ()"
    using assms(12-14) hex by (cases b) (auto simp: lic_verify_def arg_def read_text_def f ok_or_def)
  then show ?thesis
    using issue_verifies [OF assms(10) sl] no_wrap
    by (auto simp: requested_license_def days word_less_nat_alt)
qed

definition issuer_file :: KeyFile where
  "issuer_file = \<lparr>kf_secret_key = hex_encode wide_prims (slh_sk_bytes (iss_sk wide_issuer)),
     kf_public_key = slh_vk_to_hex wide_prims (iss_pk wide_issuer)\<rparr>"

definition issue_line :: "string list" where
  "issue_line = [''--issuer'', ''i'', ''--licensee'', ''acme'', ''--expires-days'', ''7'', ''--out'', ''l'']"

definition new_license :: SignedLicense where
  "new_license = projr (issue wide_prims (\<lambda>_. []) wide_issuer (requested_license issue_line 1000 ''acme'' 7))"

definition license_files :: client_json where
  "license_files = client_files\<lparr>cj_keys := \<lparr>kj_to_string = (\<lambda>kf. if kf = issuer_file then Some ''iss'' else None),
       kj_from_str = (\<lambda>s. if s = ''iss'' then Some issuer_file else None)\<rparr>,
     cj_license_to := (\<lambda>l. if l = new_license then Some ''lic'' else None),
     cj_license_from := (\<lambda>s. if s = ''lic'' then Some new_license else None)\<rparr>"

definition issuer_host :: host where
  "issuer_host = \<lparr>h_files = [''i'' \<mapsto> ''iss''], h_writable = (\<lambda>_. True)\<rparr>"

lemma issuer_loads: "issuer_file_load wide_prims (cj_keys license_files) ''i'' issuer_host = Inr wide_issuer"
proof -
  have "json_inverse (cj_keys license_files)" by (auto simp: json_inverse_def license_files_def)
  moreover have "issuer_file_save wide_prims (cj_keys license_files) ''i'' wide_issuer \<lparr>h_files = (\<lambda>_. None), h_writable = \<lambda>_. True\<rparr> = Inr issuer_host"
    by (simp only: issuer_file_save_def issuer_file_def [symmetric]) (simp add: license_files_def fs_write_def issuer_host_def)
  ultimately show ?thesis by (intro issuer_keys.fetch_store) simp_all
qed

lemma issue_runs: "\<exists>out H. lic_issue wide_prims license_files client_env issue_line issuer_host = Inr (out, H)"
proof -
  have f: "flag issue_line ''--issuer'' = Some ''i''" "flag issue_line ''--licensee'' = Some ''acme''"
    "flag issue_line ''--expires-days'' = Some ''7''" "flag issue_line ''--out'' = Some ''l''"
    by (simp_all add: flag_def issue_line_def)
  have "issue wide_prims (cj_license_bytes license_files) wide_issuer (requested_license issue_line (ce_now client_env) ''acme'' 7) = Inr new_license"
    by (simp add: new_license_def issue_def slh_sign_def wide_prims_def license_files_def client_files_def client_env_def)
  then show ?thesis
    by (simp add: lic_issue_def f ok_or_def map_err_def parse_7 issuer_loads)
       (simp add: license_files_def write_text_def ok_or_def fs_write_def issuer_host_def)
qed

theorem issued_license_verifies_witness:
  "\<exists>H'. (\<exists>out. lic_verify wide_prims license_files (client_env\<lparr>ce_now := 2000\<rparr>)
        [''l'', ''--issuer'', slh_vk_to_hex wide_prims (iss_pk wide_issuer)] H' = Inr (out, H'))
     \<and> \<not> (\<exists>out. lic_verify wide_prims license_files (client_env\<lparr>ce_now := 605800\<rparr>)
        [''l'', ''--issuer'', slh_vk_to_hex wide_prims (iss_pk wide_issuer)] H' = Inr (out, H'))"
proof -
  obtain out H' where i: "lic_issue wide_prims license_files client_env issue_line issuer_host = Inr (out, H')"
    using issue_runs by blast
  have f: "flag issue_line ''--issuer'' = Some ''i''" "flag issue_line ''--expires-days'' = Some ''7''"
    "flag issue_line ''--out'' = Some ''l''" "flag issue_line ''--chain'' = None"
    by (simp_all add: flag_def issue_line_def)
  have inv: "license_inverse license_files" by (simp add: license_inverse_def license_files_def)
  have b: "flag [''l'', ''--issuer'', slh_vk_to_hex wide_prims (iss_pk wide_issuer)] ''--issuer'' =
      Some (slh_vk_to_hex wide_prims (iss_pk wide_issuer))" by (simp add: flag_def)
  have no_wrap: "unat (ce_now client_env) + unat (7 :: u64) * 86400 < 2 ^ 64" by (simp add: client_env_def)
  note v = issued_license_verifies [OF i f(1) issuer_loads f(2) parse_7 f(3) wide_hex inv wide_issuer_ok no_wrap _ _ b]
  from v [of "client_env\<lparr>ce_now := 2000\<rparr>"] v [of "client_env\<lparr>ce_now := 605800\<rparr>"] f(4) show ?thesis
    by (intro exI [of _ H'] conjI) (simp_all add: client_env_def)
qed

section \<open>Notarized documents\<close>








end
