(* ===== verification/Spec2Isabelle.thy ===== *)
theory Spec2Isabelle
  imports Text_Forms Timely_Props Catch_Up_Props Network_Props Process_Props Consensus_Props Service_Props Shell_Props Client_Props
begin

text \<open>
  SmartLedger-Chain: a verification development.

  \<^bold>\<open>The program.\<close> A permissioned notary chain in Rust. Clients sign the hash of a document and
  submit it to a node; validators agree on blocks of such attestations with a two-phase Byzantine
  agreement; a certified block gives the client a small proof that can be checked offline against
  the validators' keys. Governance changes the roster by quorum; windows of blocks are anchored in a
  public chain; licenses and a meter limit the use of a node. Paths below are relative to
  \<^verbatim>\<open>src/crates/\<close>.

  \<^bold>\<open>Theories and sources.\<close>
  \<^item> \<open>Slc_Prelude\<close>: words, byte encodings, hash maps with an open iteration order, list lemmas.
  \<^item> \<open>Slc_Crypto\<close>: \<^verbatim>\<open>crypto/src\<close> (digests, ML-DSA and SLH-DSA keys, contexts, hex). The record
    \<open>prims\<close> holds what the crates \<^verbatim>\<open>sha3\<close>, \<^verbatim>\<open>fips204\<close>, \<^verbatim>\<open>fips205\<close> and \<^verbatim>\<open>hex\<close> provide and the iteration
    order of the standard hash maps; what is relied on are named predicates: \<open>sha3_width\<close>,
    \<open>mldsa_correct\<close>, \<open>slh_correct\<close>, \<open>hex_inverse\<close>, \<open>iter_ok\<close>, \<open>signs_always\<close>. Collision freedom is
    assumed only on the inputs a theorem names. \<open>Text_Forms\<close>: the hand-written serializers, equality and
    debug texts of these types.
  \<^item> \<open>Merkle\<close>, \<open>Validators\<close>, \<open>Ledger_Block\<close>, \<open>Governance\<close>, \<open>Notary_Proof\<close>: \<^verbatim>\<open>ledger/src\<close>, one
    theory per file or pair of files; properties in \<open>Ledger_Props\<close>.
  \<^item> \<open>Messages\<close>, \<open>Consensus_Engine\<close> (state, helpers, rules, commit), \<open>Engine_Advance\<close> (the rule
    loop and its termination), \<open>Engine_Handlers\<close> (the operations a driver calls, and the step
    relation \<open>fed_step\<close> over them, restricted to the inputs fed; \<open>engine_step\<close> is the case of any input):
    \<^verbatim>\<open>consensus/src\<close>. \<open>Engine_Inv\<close> and \<open>Engine_Safety\<close> hold the invariant of reachable engines and the
    abstract chain it refines, \<open>Broadcasts\<close> what peers do with what an engine sends, \<open>Agreement\<close> the
    history of one engine and the quorum argument; properties in \<open>Consensus_Props\<close>.
  \<^item> \<open>Network\<close>: many nodes of \<open>Node_Loop\<close>, some validators faulty, as the inductive \<open>net_reach\<close>; its
    parameter says which events may reach an honest node. \<open>Net_Scenario\<close> executes such runs;
    properties in \<open>Network_Props\<close>.
  \<^item> \<open>Timely\<close> feeds the engines of a height with what they say to one another, \<open>Catch_Up\<close> hands the polls
    and answers of two nodes to each other; properties in \<open>Timely_Props\<close> and \<open>Catch_Up_Props\<close>. They
    compose operations of the sources and translate none.
  \<^item> \<open>Anchor\<close>: \<^verbatim>\<open>anchor/src\<close> (checkpoints, scripts, backends, service, anchored proofs).
  \<^item> \<open>License\<close>: \<^verbatim>\<open>license/src/lib.rs\<close>, \<^verbatim>\<open>node/src/license.rs\<close>, \<^verbatim>\<open>node/src/meter.rs\<close>.
  \<^item> \<open>Node_Io\<close> (frames, peers, store, genesis), \<open>Gossip\<close> (the broadcast), \<open>Timers\<close> (the timer
    thread), \<open>Node_Loop\<close> (construction and the event loop), \<open>Node_Total\<close> (absence of panics), \<open>Rpc\<close>
    (requests, client helpers, choice of an anchor backend), \<open>Keystore\<close>: \<^verbatim>\<open>node/src\<close> and
    \<^verbatim>\<open>license/src/keystore.rs\<close>. \<open>Process\<close> puts them together as a spawned node (\<^verbatim>\<open>Node::spawn\<close>,
    \<^verbatim>\<open>NodeHandle\<close>, accept loops, readers, client connections, periodic and timer threads); properties in
    \<open>Process_Props\<close>.
  \<^item> \<open>Startup\<close> and \<open>Devnet\<close>: \<^verbatim>\<open>node/src/bin/slc-node.rs\<close> and \<^verbatim>\<open>node/src/config.rs\<close>; \<open>Cli\<close> and
    \<open>Cli_Facts\<close>: \<^verbatim>\<open>node/src/bin/slc.rs\<close> and the rest of \<^verbatim>\<open>node/src/client.rs\<close>.
  \<^item> \<open>Toy_Prims\<close>, \<open>Scenario\<close>, \<open>Shell_Scenario\<close>: concrete primitives, runs and machines on which the
    theorems are applied. \<open>Service_Props\<close>, \<open>Shell_Props\<close>, \<open>Client_Props\<close>: properties of the services,
    of the programs around the node and of the client. This theory: the properties of a whole node.

  \<^bold>\<open>How state and effects are modelled.\<close> Structs are records with the fields of the source, enums are
  datatypes; an operation takes the state and returns the new one. A panic is \<open>None\<close>, an error of
  the source is \<open>Inl\<close> of an error datatype. The engine returns its effects as a list, the node its
  outputs; the loop is a run over the list of events it receives, each with the clock and the outcome
  of the writes in that turn. The threads of a node take turns in any order over one shared state
  (\<open>act\<close>), the nodes of a network likewise (\<open>net_reach\<close>). Files are maps from paths to contents. 64-bit
  integers are words that wrap, as in a release build. The rule loop of the engine is a total
  function (each rule that fires decreases a measure), so no fuel is used anywhere; the other loops
  are structural or have a termination proof.

  \<^bold>\<open>Interfaces.\<close> \<open>hex_codec\<close> (text forms of fixed-width objects), \<open>quorums\<close> (two quorums meet in
  more than may be faulty), \<open>tally\<close> (counting signatures of distinct members, shared by
  certificates and governance), \<open>anchor_backend\<close> (what the service needs of a backend),
  \<open>timer_queue\<close> (the heap of the timer thread), \<open>key_store\<close> (key files). Each is interpreted on
  the definitions of the model that provide it.

  \<^bold>\<open>What is shown.\<close>
  \<^item> A node: over any sequence of events, restarts included, the store of a validating node is a
    valid certified chain that only grows; two blocks of one height share more signers than may be
    faulty; a node never sends two votes for one step within a run; it never panics while
    one key stays in the roster; a restart resumes the chain.
  \<^item> A network: honest nodes agree on every block both have, if at most a third of the validators is
    faulty, votes arrive under the round they were cast for and blocks to catch up with come from
    honest nodes. The signatures do not bind the round of a precommit, and a run of four validators
    shows that the nodes can fork for that reason. In an idle network with a quorum up, an attestation
    given to the proposer is committed by each of the quorum if their messages get through, in any order,
    before a timer fires. A node behind a peer catches up with it by polling, 50 blocks at a time.
  \<^item> A process: every interleaving of the threads is a run of the loop over the events sent, in order;
    a client that calls it gets exactly the proofs of attested hashes, and they verify.
  \<^item> The engine: the invariant of reachable states, the locking rules, refinement of the abstract
    chain by adopted blocks, acceptance of broadcasts by the peers, admission of submissions and
    changes, rotation of proposers, and that nothing is left to commit when the rule loop stops.
  \<^item> The ledger: Merkle paths, proofs and certificates are complete and, up to collisions, sound;
    canonical encodings; authorization counts distinct validators.
  \<^item> The services: anchoring loses no block, scripts, frames, stores and key files read back, the
    meter keeps its cap, timers fire when due, broadcasts reach whom they can.
  \<^item> The programs: a started node is licensed, booting a container is idempotent, a generated
    network starts, the governance and license commands do what they promise, and a notarized
    document verifies from the command line.
  \<^item> Where the code falls short of its documents this is a theorem as well: precommits without a round,
    votes forgotten by a restart, a follower that commits alone, a roster that can be emptied,
    messages too large for a frame.

  \<^bold>\<open>Not modelled.\<close> The operating system: what a bind, a connection or a read gives is an argument or
  part of the turn that meets it. The code that serde derives: JSON is an argument that reads back
  what it prints where a theorem needs it. The \<^verbatim>\<open>Display\<close> texts of errors, the usage texts and what
  \<^verbatim>\<open>slc-node\<close> prints. Accessors that only return a field. White space is trimmed as in ASCII. Liveness
  of the agreement after rounds that were disturbed: the model has the timeouts, but no bound on delays,
  so what is shown of progress is for a round in which the messages get through.
  Tests, examples, deployment files.
\<close>

section \<open>The node\<close>












section \<open>Votes and restarts\<close>

definition duo_genesis :: GenesisConfig where
  "duo_genesis = \<lparr>gc_chain_id = ''duo'', gc_validators = [\<lparr>vi_pubkey = demo_pk, vi_addr = ''a:1''\<rparr>,
     \<lparr>vi_pubkey = VerifyingKey [2, 2], vi_addr = ''b:1''\<rparr>]\<rparr>"

definition peer_proposal :: ProposalMsg where
  "peer_proposal = the (proposal_create lite_prims (SigningKey [2, 2]) (VerifyingKey [2, 2]) 1 0 None duo_value)"

text \<open>The votes a node sends in a run from a store, with the store it leaves.\<close>

definition votes_of_run :: "BlockStore \<Rightarrow> Event list \<Rightarrow> (BlockStore \<times> VoteMsg list) option" where
  "votes_of_run st evs =
     do {
       n \<leftarrow> node_new lite_prims demo_transport duo_genesis demo_sk demo_pk st 1000;
       (n', out) \<leftarrow> node_run lite_prims demo_ser demo_env (map (Pair demo_env) evs) n;
       Some (nd_store n', node_votes out)
     }"

definition votes_with_restart :: "Event list \<Rightarrow> Event list \<Rightarrow> (VoteMsg list \<times> VoteMsg list) option" where
  "votes_with_restart before after =
     do {
       (st, vs) \<leftarrow> votes_of_run demo_store before;
       (st', vs') \<leftarrow> votes_of_run st after;
       Some (vs, vs')
     }"

text \<open>
  A restart forgets votes: the votes of the height in progress are not on disk. In a chain with
  two validators, a node that prevotes nil on a timeout, restarts and then receives the proposal
  prevotes the block in the same height and round. Both votes carry its valid signature.
\<close>

theorem restart_forgets_votes:
  "case votes_with_restart [EvTimeout 1 0 ToPropose] [EvWire (WConsensus (Proposal peer_proposal))] of
     Some ([v], [v']) \<Rightarrow> slot v = slot v' \<and> vm_block_id v = None
       \<and> vm_block_id v' = Some (proposed_id lite_prims duo_value)
       \<and> vote_verify_sig lite_prims v \<and> vote_verify_sig lite_prims v' \<and> vm_voter v = vm_voter v'
   | _ \<Rightarrow> False"
  by code_simp

end
